theory Spec2Isabelle
  imports Complex_Main
begin

section \<open>NumPy arrays over the reals\<close>

text \<open>
  The notebooks compute with NumPy arrays of double-precision numbers.  The development
  reads every number as a real: a 1-D array is a list, a 2-D array a list of rows.
  Rounding and overflow are outside the model; so is NaN, except that \<open>lambdify_num\<close>
  below tells where a compiled kernel divides by zero.
\<close>

type_synonym vec = "real list"
type_synonym mat = "real list list"

definition mk_mat :: "nat \<Rightarrow> nat \<Rightarrow> (nat \<Rightarrow> nat \<Rightarrow> real) \<Rightarrow> mat" where
  "mk_mat r c f = map (\<lambda>i. map (\<lambda>j. f i j) [0..<c]) [0..<r]"

definition is_mat :: "nat \<Rightarrow> nat \<Rightarrow> mat \<Rightarrow> bool" where
  "is_mat r c M = (length M = r \<and> list_all (\<lambda>row. length row = c) M)"

definition nrows :: "mat \<Rightarrow> nat" where
  "nrows M = length M"

definition ncols :: "mat \<Rightarrow> nat" where
  "ncols M = (case M of [] \<Rightarrow> 0 | row # _ \<Rightarrow> length row)"

text \<open>\<^verbatim>\<open>np.zeros((r, c))\<close>, \<^verbatim>\<open>np.eye(n)\<close> and \<^verbatim>\<open>np.identity(n)\<close>.\<close>

definition zeros :: "nat \<Rightarrow> nat \<Rightarrow> mat" where
  "zeros r c = replicate r (replicate c 0)"

definition eye :: "nat \<Rightarrow> mat" where
  "eye n = mk_mat n n (\<lambda>i j. if i = j then 1 else 0)"

text \<open>\<^verbatim>\<open>M.T\<close>, \<^verbatim>\<open>A @ B\<close> on 2-D arrays, \<^verbatim>\<open>A + B\<close>, \<^verbatim>\<open>A - B\<close>, \<^verbatim>\<open>-A\<close>, \<^verbatim>\<open>c*A\<close>.\<close>

definition mat_T :: "mat \<Rightarrow> mat" where
  "mat_T M = mk_mat (ncols M) (nrows M) (\<lambda>i j. M ! j ! i)"

definition matmul :: "mat \<Rightarrow> mat \<Rightarrow> mat" where
  "matmul A B = mk_mat (nrows A) (ncols B) (\<lambda>i j. \<Sum>k<nrows B. A ! i ! k * B ! k ! j)"

definition mat_add :: "mat \<Rightarrow> mat \<Rightarrow> mat" where
  "mat_add A B = mk_mat (nrows A) (ncols A) (\<lambda>i j. A ! i ! j + B ! i ! j)"

definition mat_sub :: "mat \<Rightarrow> mat \<Rightarrow> mat" where
  "mat_sub A B = mk_mat (nrows A) (ncols A) (\<lambda>i j. A ! i ! j - B ! i ! j)"

definition mat_neg :: "mat \<Rightarrow> mat" where
  "mat_neg A = mk_mat (nrows A) (ncols A) (\<lambda>i j. - (A ! i ! j))"

definition smul :: "real \<Rightarrow> mat \<Rightarrow> mat" where
  "smul c A = mk_mat (nrows A) (ncols A) (\<lambda>i j. c * A ! i ! j)"

text \<open>\<^verbatim>\<open>v @ w\<close>, \<^verbatim>\<open>v @ M\<close> and \<^verbatim>\<open>M @ v\<close> with 1-D arrays \<open>v\<close>, \<open>w\<close>.\<close>

definition vdot :: "vec \<Rightarrow> vec \<Rightarrow> real" where
  "vdot v w = (\<Sum>k<length v. v ! k * w ! k)"

definition vecmat :: "vec \<Rightarrow> mat \<Rightarrow> vec" where
  "vecmat v M = map (\<lambda>j. \<Sum>k<length v. v ! k * M ! k ! j) [0..<ncols M]"

definition matvec :: "mat \<Rightarrow> vec \<Rightarrow> vec" where
  "matvec M v = map (\<lambda>i. \<Sum>k<length v. M ! i ! k * v ! k) [0..<nrows M]"

text \<open>\<^verbatim>\<open>np.block([[a, b], [c, d]])\<close>, \<^verbatim>\<open>np.diag\<close> in both directions, \<^verbatim>\<open>np.trace\<close>.\<close>

definition block :: "mat \<Rightarrow> mat \<Rightarrow> mat \<Rightarrow> mat \<Rightarrow> mat" where
  "block a b c d = map2 (@) a b @ map2 (@) c d"

definition diag_mat :: "vec \<Rightarrow> mat" where
  "diag_mat v = mk_mat (length v) (length v) (\<lambda>i j. if i = j then v ! i else 0)"

definition diag_of :: "mat \<Rightarrow> vec" where
  "diag_of M = map (\<lambda>i. M ! i ! i) [0..<nrows M]"

definition trace :: "mat \<Rightarrow> real" where
  "trace M = sum_list (diag_of M)"

definition vscale :: "real \<Rightarrow> vec \<Rightarrow> vec" where
  "vscale c v = map (\<lambda>a. c * a) v"

text \<open>
  The assignment \<^verbatim>\<open>k[i,j] = v\<close> and the loop \<^verbatim>\<open>for i in range(n)\<close> over a state.
\<close>

definition set_entry :: "mat \<Rightarrow> nat \<Rightarrow> nat \<Rightarrow> real \<Rightarrow> mat" where
  "set_entry k i j v = k[i := (k ! i)[j := v]]"

definition for_range :: "nat \<Rightarrow> (nat \<Rightarrow> 's \<Rightarrow> 's) \<Rightarrow> 's \<Rightarrow> 's" where
  "for_range n body st = fold body [0..<n] st"

section \<open>Library routines of \<^verbatim>\<open>numpy.linalg\<close> and \<^verbatim>\<open>scipy.linalg\<close>\<close>

text \<open>
  Both failures are \<^verbatim>\<open>numpy.linalg.LinAlgError\<close> in the source; they are told apart by
  the routine that raises them.
\<close>

datatype linalg_error = NotPositiveDefinite | SingularMatrix

text \<open>
  Exceptions: a computation returns \<open>Inl\<close> of the error it raises or \<open>Inr\<close> of its value.
  \<open>and_then\<close> sequences two statements; \<open>try_except\<close> is
  \<^verbatim>\<open>try: body except np.linalg.LinAlgError: handler\<close>.
\<close>

definition and_then :: "'e + 'a \<Rightarrow> ('a \<Rightarrow> 'e + 'b) \<Rightarrow> 'e + 'b" where
  "and_then m f = (case m of Inl e \<Rightarrow> Inl e | Inr v \<Rightarrow> f v)"

definition try_except :: "linalg_error + 'a \<Rightarrow> linalg_error + 'a \<Rightarrow> linalg_error + 'a" where
  "try_except body handler = (case body of Inl e \<Rightarrow> handler | Inr v \<Rightarrow> Inr v)"

text \<open>
  \<^verbatim>\<open>np.linalg.cholesky\<close>: the lower-triangular factor with positive diagonal, computed
  column by column (the first column, then the factor of the updated trailing block).
  Only the lower triangle of the argument is read.  A pivot that is not positive raises.
\<close>

function cholesky :: "mat \<Rightarrow> linalg_error + mat" where
  "cholesky [] = Inr []"
| "cholesky (r # rs) =
     (if hd r \<le> 0 then Inl NotPositiveDefinite
      else
        let l11 = sqrt (hd r);
            l = map (\<lambda>row. hd row / l11) rs;
            A' = mk_mat (length rs) (length rs) (\<lambda>i j. rs ! i ! Suc j - l ! i * l ! j)
        in case cholesky A' of
             Inl e \<Rightarrow> Inl e
           | Inr L' \<Rightarrow> Inr ((l11 # replicate (length rs) 0) # map2 (#) l L'))"
  by pat_completeness auto
termination
  by (relation "measure length") (simp_all add: mk_mat_def)

text \<open>
  \<^verbatim>\<open>scipy.linalg.solve_triangular(L, B, lower=True)\<close>: forward substitution, row by row;
  the entries above the diagonal of \<open>L\<close> are not read.  A zero on the diagonal raises.
\<close>

fun forward_subst :: "mat \<Rightarrow> mat \<Rightarrow> nat \<Rightarrow> mat \<Rightarrow> linalg_error + mat" where
  "forward_subst [] B i X = Inr X"
| "forward_subst (l # ls) B i X =
     (if l ! i = 0 then Inl SingularMatrix
      else forward_subst ls B (Suc i)
             (X @ [map (\<lambda>j. (B ! i ! j - (\<Sum>k<i. l ! k * X ! k ! j)) / l ! i) [0..<ncols B]]))"

definition solve_triangular :: "mat \<Rightarrow> mat \<Rightarrow> linalg_error + mat" where
  "solve_triangular L B = forward_subst L B 0 []"

text \<open>
  \<^verbatim>\<open>np.linalg.det\<close>: the determinant, here by expansion along the first column.
\<close>

definition minor_fn :: "(nat \<Rightarrow> nat \<Rightarrow> real) \<Rightarrow> nat \<Rightarrow> nat \<Rightarrow> nat \<Rightarrow> real" where
  "minor_fn M i = (\<lambda>r c. M (if r < i then r else Suc r) (Suc c))"

primrec det_fn :: "nat \<Rightarrow> (nat \<Rightarrow> nat \<Rightarrow> real) \<Rightarrow> real" where
  "det_fn 0 M = 1"
| "det_fn (Suc n) M = (\<Sum>i<Suc n. (- 1) ^ i * M i 0 * det_fn n (minor_fn M i))"

definition det :: "mat \<Rightarrow> real" where
  "det M = det_fn (length M) (\<lambda>i j. M ! i ! j)"

text \<open>\<^verbatim>\<open>np.linalg.slogdet\<close> returns the pair (sign, log of the absolute value).\<close>

definition slogdet :: "mat \<Rightarrow> real \<times> real" where
  "slogdet M = (sgn (det M), ln \<bar>det M\<bar>)"

text \<open>
  \<^verbatim>\<open>np.linalg.inv\<close>: raises on a singular matrix; otherwise the inverse, here as the
  transposed cofactor matrix over the determinant.
\<close>

definition cofactor :: "mat \<Rightarrow> nat \<Rightarrow> nat \<Rightarrow> real" where
  "cofactor M r c =
     (- 1) ^ (r + c) *
     det_fn (length M - 1)
       (\<lambda>a b. M ! (if a < r then a else Suc a) ! (if b < c then b else Suc b))"

definition inv :: "mat \<Rightarrow> linalg_error + mat" where
  "inv M =
     (if det M = 0 then Inl SingularMatrix
      else Inr (mk_mat (length M) (length M) (\<lambda>i j. cofactor M j i / det M)))"

text \<open>
  \<^verbatim>\<open>np.linalg.svd\<close> has no closed form; the notebooks' functions take it as a parameter
  \<open>svd\<close> that returns \<open>(u, s, vt)\<close>.  \<open>is_svd\<close> is its contract: \<open>M = u diag(s) vt\<close> with
  \<open>u\<close>, \<open>vt\<close> orthogonal and the singular values non-negative in descending order.
\<close>

type_synonym svd_fn = "mat \<Rightarrow> mat \<times> vec \<times> mat"

definition is_svd :: "mat \<Rightarrow> mat \<times> vec \<times> mat \<Rightarrow> bool" where
  "is_svd M usv =
     (case usv of (u, s, vt) \<Rightarrow>
        is_mat (length M) (length M) u \<and> length s = length M \<and>
        is_mat (length M) (length M) vt \<and>
        matmul (matmul u (diag_mat s)) vt = M \<and>
        matmul (mat_T u) u = eye (length M) \<and>
        matmul vt (mat_T vt) = eye (length M) \<and>
        list_all (\<lambda>a. 0 \<le> a) s \<and> sorted (rev s))"

section \<open>SymPy expressions\<close>

text \<open>
  The kernels are SymPy expressions in the symbols declared by \<^verbatim>\<open>sp.symbols\<close>;
  \<^verbatim>\<open>sp.diff\<close> differentiates them and \<^verbatim>\<open>sp.lambdify\<close> turns them into numeric
  functions of positional arguments.
\<close>

datatype symbol = Sx_i | Sx_j | Sy_i | Sy_j | St_i | St_j
  | Ssigma | Sl_x | Sl_y | Sl_t | Sphi | Sa | Sb | Sc | Sd

datatype expr =
    Num real
  | Sym symbol
  | Add expr expr
  | Sub expr expr
  | Mul expr expr
  | Div expr expr
  | Pow expr nat
  | Exp expr
  | Sqrt expr

fun diff :: "expr \<Rightarrow> symbol \<Rightarrow> expr" where
  "diff (Num c) v = Num 0"
| "diff (Sym s) v = (if s = v then Num 1 else Num 0)"
| "diff (Add e f) v = Add (diff e v) (diff f v)"
| "diff (Sub e f) v = Sub (diff e v) (diff f v)"
| "diff (Mul e f) v = Add (Mul (diff e v) f) (Mul e (diff f v))"
| "diff (Div e f) v = Div (Sub (Mul (diff e v) f) (Mul e (diff f v))) (Pow f 2)"
| "diff (Pow e n) v = Mul (Mul (Num (real n)) (Pow e (n - 1))) (diff e v)"
| "diff (Exp e) v = Mul (diff e v) (Exp e)"
| "diff (Sqrt e) v = Div (diff e v) (Mul (Num 2) (Sqrt e))"

text \<open>\<^verbatim>\<open>sp.diff(e, v1, v2, ...)\<close> differentiates in the order of its arguments.\<close>

definition diffs :: "expr \<Rightarrow> symbol list \<Rightarrow> expr" where
  "diffs e vs = foldl diff e vs"

fun eval :: "expr \<Rightarrow> (symbol \<Rightarrow> real) \<Rightarrow> real" where
  "eval (Num c) env = c"
| "eval (Sym s) env = env s"
| "eval (Add e f) env = eval e env + eval f env"
| "eval (Sub e f) env = eval e env - eval f env"
| "eval (Mul e f) env = eval e env * eval f env"
| "eval (Div e f) env = eval e env / eval f env"
| "eval (Pow e n) env = eval e env ^ n"
| "eval (Exp e) env = exp (eval e env)"
| "eval (Sqrt e) env = sqrt (eval e env)"

definition lambdify :: "symbol list \<Rightarrow> expr \<Rightarrow> real list \<Rightarrow> real" where
  "lambdify syms e args = eval e (\<lambda>s. the (map_of (zip syms args) s))"

text \<open>
  Where no division by zero and no square root of a non-positive number occurs, the
  value of an expression is defined and \<open>diff\<close> is the partial derivative.
\<close>

fun defined :: "expr \<Rightarrow> (symbol \<Rightarrow> real) \<Rightarrow> bool" where
  "defined (Num c) env = True"
| "defined (Sym s) env = True"
| "defined (Add e f) env = (defined e env \<and> defined f env)"
| "defined (Sub e f) env = (defined e env \<and> defined f env)"
| "defined (Mul e f) env = (defined e env \<and> defined f env)"
| "defined (Div e f) env = (defined e env \<and> defined f env \<and> eval f env \<noteq> 0)"
| "defined (Pow e n) env = defined e env"
| "defined (Exp e) env = defined e env"
| "defined (Sqrt e) env = (defined e env \<and> 0 < eval e env)"


section \<open>The Mat\'ern notebook: kernel evaluation\<close>

text \<open>Source: \<^verbatim>\<open>src/2D-Matern.ipynb\<close>.  Its parameters: \<^verbatim>\<open>s = 0\<close>, \<^verbatim>\<open>corr_nan = 1e-4\<close>.\<close>

definition s_Matern :: real where
  "s_Matern = 0"

definition corr_nan :: real where
  "corr_nan = 1 / 10 ^ 4"

definition r_l :: expr where
  "r_l = Sqrt (Add (Div (Pow (Sub (Sym Sx_i) (Sym Sx_j)) 2) (Sym Sl_x))
                   (Div (Pow (Sub (Sym Sy_i) (Sym Sy_j)) 2) (Sym Sl_y)))"

definition kuu_sym_Matern :: expr where
  "kuu_sym_Matern =
     Mul (Mul (Sym Ssigma)
              (Add (Add (Num 1) (Mul (Sqrt (Num 5)) r_l)) (Mul (Num (5 / 3)) (Pow r_l 2))))
         (Exp (Mul (Sub (Num 0) (Sqrt (Num 5))) r_l))"

definition kuu_fn_Matern :: "real \<Rightarrow> real \<Rightarrow> real \<Rightarrow> real \<Rightarrow> real \<Rightarrow> real \<Rightarrow> real \<Rightarrow> real" where
  "kuu_fn_Matern xi xj yi yj sigma l_x l_y =
     lambdify [Sx_i, Sx_j, Sy_i, Sy_j, Ssigma, Sl_x, Sl_y] kuu_sym_Matern
       [xi, xj, yi, yj, sigma, l_x, l_y]"

definition kuu_Matern :: "vec \<Rightarrow> vec \<Rightarrow> real \<Rightarrow> real \<Rightarrow> real \<Rightarrow> mat" where
  "kuu_Matern x y sigma l_x l_y =
     for_range (length x) (\<lambda>i. for_range (length x) (\<lambda>j k.
        set_entry k i j (kuu_fn_Matern (x ! i) (x ! j) (y ! i) (y ! j) sigma l_x l_y)))
       (zeros (length x) (length x))"

definition kff_sym_Matern :: expr where
  "kff_sym_Matern =
     Add (Add (Add (Add (Add (Add (Add (Add
       (Mul (Pow (Sym Sphi) 2) kuu_sym_Matern)
       (Mul (Sym Sphi) (diffs kuu_sym_Matern [Sx_i])))
       (Mul (Sym Sphi) (diffs kuu_sym_Matern [Sy_i, Sy_i])))
       (Mul (Sym Sphi) (diffs kuu_sym_Matern [Sx_j])))
       (diffs kuu_sym_Matern [Sx_i, Sx_j]))
       (diffs kuu_sym_Matern [Sy_i, Sy_i, Sx_j]))
       (Mul (Sym Sphi) (diffs kuu_sym_Matern [Sy_j, Sy_j])))
       (diffs kuu_sym_Matern [Sx_i, Sy_j, Sy_j]))
       (diffs kuu_sym_Matern [Sy_i, Sy_i, Sy_j, Sy_j])"

definition kff_fn_Matern ::
  "real \<Rightarrow> real \<Rightarrow> real \<Rightarrow> real \<Rightarrow> real \<Rightarrow> real \<Rightarrow> real \<Rightarrow> real \<Rightarrow> real" where
  "kff_fn_Matern xi xj yi yj sigma l_x l_y phi =
     lambdify [Sx_i, Sx_j, Sy_i, Sy_j, Ssigma, Sl_x, Sl_y, Sphi] kff_sym_Matern
       [xi, xj, yi, yj, sigma, l_x, l_y, phi]"

definition kff_Matern :: "vec \<Rightarrow> vec \<Rightarrow> real \<Rightarrow> real \<Rightarrow> real \<Rightarrow> real \<Rightarrow> mat" where
  "kff_Matern x y sigma l_x l_y phi =
     for_range (length x) (\<lambda>i. for_range (length x) (\<lambda>j k.
        if i = j then
          set_entry k i j
            (kff_fn_Matern (x ! i) (x ! j + corr_nan) (y ! i) (y ! j + corr_nan) sigma l_x l_y phi)
        else
          set_entry k i j (kff_fn_Matern (x ! i) (x ! j) (y ! i) (y ! j) sigma l_x l_y phi)))
       (zeros (length x) (length x))"

definition kfu_sym_Matern :: expr where
  "kfu_sym_Matern =
     Add (Add (Mul (Sym Sphi) kuu_sym_Matern)
              (diffs kuu_sym_Matern [Sx_i]))
         (diffs kuu_sym_Matern [Sy_i, Sy_i])"

definition kfu_fn_Matern ::
  "real \<Rightarrow> real \<Rightarrow> real \<Rightarrow> real \<Rightarrow> real \<Rightarrow> real \<Rightarrow> real \<Rightarrow> real \<Rightarrow> real" where
  "kfu_fn_Matern xi xj yi yj sigma l_x l_y phi =
     lambdify [Sx_i, Sx_j, Sy_i, Sy_j, Ssigma, Sl_x, Sl_y, Sphi] kfu_sym_Matern
       [xi, xj, yi, yj, sigma, l_x, l_y, phi]"

definition kfu_Matern :: "vec \<Rightarrow> vec \<Rightarrow> real \<Rightarrow> real \<Rightarrow> real \<Rightarrow> real \<Rightarrow> mat" where
  "kfu_Matern x y sigma l_x l_y phi =
     for_range (length x) (\<lambda>i. for_range (length x) (\<lambda>j k.
        if i = j then
          set_entry k i j
            (kfu_fn_Matern (x ! i) (x ! j + corr_nan) (y ! i) (y ! j + corr_nan) sigma l_x l_y phi)
        else
          set_entry k i j (kfu_fn_Matern (x ! i) (x ! j) (y ! i) (y ! j) sigma l_x l_y phi)))
       (zeros (length x) (length x))"

definition kuf_Matern :: "vec \<Rightarrow> vec \<Rightarrow> real \<Rightarrow> real \<Rightarrow> real \<Rightarrow> real \<Rightarrow> mat" where
  "kuf_Matern x y sigma l_x l_y phi = mat_T (kfu_Matern x y sigma l_x l_y phi)"

section \<open>The determinant-minimisation notebook\<close>

text \<open>
  Source: \<^verbatim>\<open>src/unnamed/part_000\<close> (PDE 1 in two dimensions, objective
  \<open>det((y\<^sup>T K\<^sup>-\<^sup>1 y) K)\<close>).  The notebook's globals \<^verbatim>\<open>n\<close>, \<^verbatim>\<open>x\<close>, \<^verbatim>\<open>y\<close>, \<^verbatim>\<open>y_u\<close>,
  \<^verbatim>\<open>y_f\<close>, \<^verbatim>\<open>s\<close> are leading parameters of the functions that read them; the notebook
  sets \<^verbatim>\<open>n = 4\<close> and \<^verbatim>\<open>s = 1e-7\<close>.
\<close>

definition s_dm :: real where
  "s_dm = 1 / 10 ^ 7"

definition kuu_sym_dm :: expr where
  "kuu_sym_dm =
     Exp (Sub (Mul (Div (Num (- 1)) (Mul (Num 2) (Sym Sl_x))) (Pow (Sub (Sym Sx_i) (Sym Sx_j)) 2))
              (Mul (Div (Num 1) (Mul (Num 2) (Sym Sl_y))) (Pow (Sub (Sym Sy_i) (Sym Sy_j)) 2)))"

definition kuu_fn_dm :: "real \<Rightarrow> real \<Rightarrow> real \<Rightarrow> real \<Rightarrow> real \<Rightarrow> real \<Rightarrow> real" where
  "kuu_fn_dm xi xj yi yj l_x l_y =
     lambdify [Sx_i, Sx_j, Sy_i, Sy_j, Sl_x, Sl_y] kuu_sym_dm [xi, xj, yi, yj, l_x, l_y]"

definition kuu_dm :: "vec \<Rightarrow> vec \<Rightarrow> real \<Rightarrow> real \<Rightarrow> mat" where
  "kuu_dm x y l_x l_y =
     for_range (length x) (\<lambda>i. for_range (length x) (\<lambda>j k.
        set_entry k i j (kuu_fn_dm (x ! i) (x ! j) (y ! i) (y ! j) l_x l_y)))
       (zeros (length x) (length x))"

definition kff_sym_dm :: expr where
  "kff_sym_dm =
     (Add (Add (Add (Add (Add (Add (Add (Add (Mul (Pow (Sym Sphi) 2) kuu_sym_dm)
       (Mul (Sym Sphi) (diffs kuu_sym_dm [Sx_i])))
       (Mul (Sym Sphi) (diffs kuu_sym_dm [Sy_i, Sy_i])))
       (Mul (Sym Sphi) (diffs kuu_sym_dm [Sx_j])))
       (diffs kuu_sym_dm [Sx_i, Sx_j]))
       (diffs kuu_sym_dm [Sy_i, Sy_i, Sx_j]))
       (Mul (Sym Sphi) (diffs kuu_sym_dm [Sy_j, Sy_j])))
       (diffs kuu_sym_dm [Sx_i, Sy_j, Sy_j]))
       (diffs kuu_sym_dm [Sy_i, Sy_i, Sy_j, Sy_j]))"

definition kff_fn_dm :: "real \<Rightarrow> real \<Rightarrow> real \<Rightarrow> real \<Rightarrow> real \<Rightarrow> real \<Rightarrow> real \<Rightarrow> real" where
  "kff_fn_dm xi xj yi yj l_x l_y phi =
     lambdify [Sx_i, Sx_j, Sy_i, Sy_j, Sl_x, Sl_y, Sphi] kff_sym_dm [xi, xj, yi, yj, l_x, l_y, phi]"

definition kff_dm :: "vec \<Rightarrow> vec \<Rightarrow> real \<Rightarrow> real \<Rightarrow> real \<Rightarrow> mat" where
  "kff_dm x y l_x l_y phi =
     for_range (length x) (\<lambda>i. for_range (length x) (\<lambda>j k.
        set_entry k i j (kff_fn_dm (x ! i) (x ! j) (y ! i) (y ! j) l_x l_y phi)))
       (zeros (length x) (length x))"

definition kfu_sym_dm :: expr where
  "kfu_sym_dm =
     (Add (Add (Mul (Sym Sphi) kuu_sym_dm)
       (diffs kuu_sym_dm [Sx_i]))
       (diffs kuu_sym_dm [Sy_i, Sy_i]))"

definition kfu_fn_dm :: "real \<Rightarrow> real \<Rightarrow> real \<Rightarrow> real \<Rightarrow> real \<Rightarrow> real \<Rightarrow> real \<Rightarrow> real" where
  "kfu_fn_dm xi xj yi yj l_x l_y phi =
     lambdify [Sx_i, Sx_j, Sy_i, Sy_j, Sl_x, Sl_y, Sphi] kfu_sym_dm [xi, xj, yi, yj, l_x, l_y, phi]"

definition kfu_dm :: "vec \<Rightarrow> vec \<Rightarrow> real \<Rightarrow> real \<Rightarrow> real \<Rightarrow> mat" where
  "kfu_dm x y l_x l_y phi =
     for_range (length x) (\<lambda>i. for_range (length x) (\<lambda>j k.
        set_entry k i j (kfu_fn_dm (x ! i) (x ! j) (y ! i) (y ! j) l_x l_y phi)))
       (zeros (length x) (length x))"

definition kuf_dm :: "vec \<Rightarrow> vec \<Rightarrow> real \<Rightarrow> real \<Rightarrow> real \<Rightarrow> mat" where
  "kuf_dm x y l_x l_y phi = mat_T (kfu_dm x y l_x l_y phi)"

definition K_dm :: "nat \<Rightarrow> vec \<Rightarrow> vec \<Rightarrow> real \<Rightarrow> real \<Rightarrow> real \<Rightarrow> real \<Rightarrow> mat" where
  "K_dm n x y s l_x l_y phi =
     block (mat_add (kuu_dm x y l_x l_y) (smul s (eye n))) (kuf_dm x y l_x l_y phi)
           (kfu_dm x y l_x l_y phi) (mat_add (kff_dm x y l_x l_y phi) (smul s (eye n)))"

text \<open>
  \<^verbatim>\<open>nlml\<close>: the whole-matrix objective.  The \<^verbatim>\<open>try\<close> block is the Cholesky path; any
  \<^verbatim>\<open>LinAlgError\<close> raised in it is caught and the \<^verbatim>\<open>except\<close> block, the SVD path, runs
  instead.  An error raised in the \<^verbatim>\<open>except\<close> block leaves the function.
\<close>

definition nlml_dm ::
  "svd_fn \<Rightarrow> nat \<Rightarrow> vec \<Rightarrow> vec \<Rightarrow> vec \<Rightarrow> vec \<Rightarrow> real \<Rightarrow> real list \<Rightarrow> linalg_error + real" where
  "nlml_dm svd n x y y_u y_f s params =
     (let y_con = y_u @ y_f;
          l_x_exp = exp (params ! 0);
          l_y_exp = exp (params ! 1)
      in try_except
           (and_then (cholesky (K_dm n x y s l_x_exp l_y_exp (params ! 2))) (\<lambda>L.
            and_then (solve_triangular L (eye (2 * n))) (\<lambda>L_inv.
              let K_inv = matmul (mat_T L_inv) L_inv;
                  val = det (smul (vdot (vecmat y_con K_inv) y_con) (matmul L (mat_T L)))
              in Inr val)))
           (case svd (K_dm n x y s l_x_exp l_y_exp (params ! 2)) of (u, s_mat, vt) \<Rightarrow>
            and_then (inv (diag_mat s_mat)) (\<lambda>s_inv.
              let K_inv = matmul (matmul (mat_T vt) s_inv) (mat_T u);
                  val = prod_list (vscale (vdot (vecmat y_con K_inv) y_con) s_mat)
              in Inr val)))"

text \<open>
  The \<^verbatim>\<open>try\<close>/\<^verbatim>\<open>except\<close> block that \<^verbatim>\<open>nlml_block\<close> and \<^verbatim>\<open>K_inv_and_det\<close> run on
  \<open>A\<close> and then on the Schur complement: the inverse by Cholesky, else by SVD.
  (\<^verbatim>\<open>nlml_block\<close> also sets \<^verbatim>\<open>det_A\<close> and \<^verbatim>\<open>det_KA\<close> there and never reads them.)
\<close>

definition chol_or_svd_inv :: "svd_fn \<Rightarrow> nat \<Rightarrow> mat \<Rightarrow> linalg_error + mat" where
  "chol_or_svd_inv svd n A =
     try_except
       (and_then (cholesky A) (\<lambda>L.
        and_then (solve_triangular L (eye n)) (\<lambda>L_inv.
          Inr (matmul (mat_T L_inv) L_inv))))
       (case svd A of (u, s_mat, vt) \<Rightarrow>
        and_then (inv (diag_mat s_mat)) (\<lambda>s_inv.
          Inr (matmul (matmul (mat_T vt) s_inv) (mat_T u))))"

definition nlml_block_dm ::
  "svd_fn \<Rightarrow> nat \<Rightarrow> vec \<Rightarrow> vec \<Rightarrow> vec \<Rightarrow> vec \<Rightarrow> real \<Rightarrow> real list \<Rightarrow> linalg_error + real" where
  "nlml_block_dm svd n x y y_u y_f s params =
     (let l_x_exp = exp (params ! 0);
          l_y_exp = exp (params ! 1);
          A = mat_add (kuu_dm x y l_x_exp l_y_exp) (smul s (eye n));
          B = mat_T (kfu_dm x y l_x_exp l_y_exp (params ! 2));
          C = mat_add (kff_dm x y l_x_exp l_y_exp (params ! 2)) (smul s (eye n))
      in and_then (chol_or_svd_inv svd n A) (\<lambda>A_inv.
           let KA = mat_sub C (matmul (matmul (mat_T B) A_inv) B)
           in and_then (chol_or_svd_inv svd n KA) (\<lambda>KA_inv.
                let T = matmul (matmul A_inv B) KA_inv;
                    factor = vdot (vecmat y_u (mat_add A_inv (matmul (matmul T (mat_T B)) A_inv))) y_u
                             - vdot (vecmat (vscale 2 y_u) T) y_f
                             + vdot (vecmat y_f KA_inv) y_f
                in Inr (det (smul factor A) * det (smul factor KA)))))"

text \<open>\<^verbatim>\<open>K_inv_and_det\<close> and the gradient \<^verbatim>\<open>grad_L\<close>.\<close>

definition K_inv_and_det_dm ::
  "svd_fn \<Rightarrow> nat \<Rightarrow> vec \<Rightarrow> vec \<Rightarrow> vec \<Rightarrow> vec \<Rightarrow> real \<Rightarrow> real \<Rightarrow> real \<Rightarrow> real
     \<Rightarrow> linalg_error + mat \<times> real" where
  "K_inv_and_det_dm svd n x y y_u y_f s l_x l_y phi =
     (let y_con = y_u @ y_f;
          A = mat_add (kuu_dm x y l_x l_y) (smul s (eye n));
          B = mat_T (kfu_dm x y l_x l_y phi);
          C = mat_add (kff_dm x y l_x l_y phi) (smul s (eye n))
      in and_then (chol_or_svd_inv svd n A) (\<lambda>A_inv.
           let KA = mat_sub C (matmul (matmul (mat_T B) A_inv) B)
           in and_then (chol_or_svd_inv svd n KA) (\<lambda>KA_inv.
                let T = matmul (matmul A_inv B) KA_inv;
                    K_inv = block (mat_add A_inv (matmul (matmul T (mat_T B)) A_inv)) (mat_neg T)
                                  (mat_neg (mat_T T)) KA_inv;
                    f = vdot (vecmat y_con K_inv) y_con;
                    det_fK = det (smul f A) * det (smul f KA)
                in Inr (K_inv, det_fK))))"

text \<open>
  The kernels differentiated in the hyperparameters,
  \<^verbatim>\<open>[sp.diff(kuu_sym, l) for l in [l_x, l_y, phi]]\<close> and likewise for \<^verbatim>\<open>kfu_sym\<close> and
  \<^verbatim>\<open>kff_sym\<close>, each compiled by \<^verbatim>\<open>lambdify\<close>; the derivatives of \<^verbatim>\<open>kuu\<close> take six
  arguments, those of \<^verbatim>\<open>kfu\<close> and \<^verbatim>\<open>kff\<close> seven.
\<close>

definition kuu_sym_l_x_dm :: expr where
  "kuu_sym_l_x_dm = diff kuu_sym_dm Sl_x"

definition kfu_sym_l_x_dm :: expr where
  "kfu_sym_l_x_dm = diff kfu_sym_dm Sl_x"

definition kff_sym_l_x_dm :: expr where
  "kff_sym_l_x_dm = diff kff_sym_dm Sl_x"

definition kuu_sym_l_y_dm :: expr where
  "kuu_sym_l_y_dm = diff kuu_sym_dm Sl_y"

definition kfu_sym_l_y_dm :: expr where
  "kfu_sym_l_y_dm = diff kfu_sym_dm Sl_y"

definition kff_sym_l_y_dm :: expr where
  "kff_sym_l_y_dm = diff kff_sym_dm Sl_y"

definition kuu_sym_phi_dm :: expr where
  "kuu_sym_phi_dm = diff kuu_sym_dm Sphi"

definition kfu_sym_phi_dm :: expr where
  "kfu_sym_phi_dm = diff kfu_sym_dm Sphi"

definition kff_sym_phi_dm :: expr where
  "kff_sym_phi_dm = diff kff_sym_dm Sphi"

definition kuu_l_x_dm :: " real\<Rightarrow>real\<Rightarrow>real\<Rightarrow>real\<Rightarrow>real\<Rightarrow>real\<Rightarrow>real " where
  "kuu_l_x_dm xi xj yi yj l_x l_y =
     lambdify [Sx_i, Sx_j, Sy_i, Sy_j, Sl_x, Sl_y] kuu_sym_l_x_dm [xi, xj, yi, yj, l_x, l_y]"

definition kff_l_x_dm :: " real\<Rightarrow>real\<Rightarrow>real\<Rightarrow>real\<Rightarrow>real\<Rightarrow>real\<Rightarrow>real\<Rightarrow>real " where
  "kff_l_x_dm xi xj yi yj l_x l_y phi =
     lambdify [Sx_i, Sx_j, Sy_i, Sy_j, Sl_x, Sl_y, Sphi] kff_sym_l_x_dm [xi, xj, yi, yj, l_x, l_y, phi]"

definition kfu_l_x_dm :: " real\<Rightarrow>real\<Rightarrow>real\<Rightarrow>real\<Rightarrow>real\<Rightarrow>real\<Rightarrow>real\<Rightarrow>real " where
  "kfu_l_x_dm xi xj yi yj l_x l_y phi =
     lambdify [Sx_i, Sx_j, Sy_i, Sy_j, Sl_x, Sl_y, Sphi] kfu_sym_l_x_dm [xi, xj, yi, yj, l_x, l_y, phi]"

definition kuu_l_y_dm :: " real\<Rightarrow>real\<Rightarrow>real\<Rightarrow>real\<Rightarrow>real\<Rightarrow>real\<Rightarrow>real " where
  "kuu_l_y_dm xi xj yi yj l_x l_y =
     lambdify [Sx_i, Sx_j, Sy_i, Sy_j, Sl_x, Sl_y] kuu_sym_l_y_dm [xi, xj, yi, yj, l_x, l_y]"

definition kff_l_y_dm :: " real\<Rightarrow>real\<Rightarrow>real\<Rightarrow>real\<Rightarrow>real\<Rightarrow>real\<Rightarrow>real\<Rightarrow>real " where
  "kff_l_y_dm xi xj yi yj l_x l_y phi =
     lambdify [Sx_i, Sx_j, Sy_i, Sy_j, Sl_x, Sl_y, Sphi] kff_sym_l_y_dm [xi, xj, yi, yj, l_x, l_y, phi]"

definition kfu_l_y_dm :: " real\<Rightarrow>real\<Rightarrow>real\<Rightarrow>real\<Rightarrow>real\<Rightarrow>real\<Rightarrow>real\<Rightarrow>real " where
  "kfu_l_y_dm xi xj yi yj l_x l_y phi =
     lambdify [Sx_i, Sx_j, Sy_i, Sy_j, Sl_x, Sl_y, Sphi] kfu_sym_l_y_dm [xi, xj, yi, yj, l_x, l_y, phi]"

definition kuu_phi_dm :: " real\<Rightarrow>real\<Rightarrow>real\<Rightarrow>real\<Rightarrow>real\<Rightarrow>real\<Rightarrow>real " where
  "kuu_phi_dm xi xj yi yj l_x l_y =
     lambdify [Sx_i, Sx_j, Sy_i, Sy_j, Sl_x, Sl_y] kuu_sym_phi_dm [xi, xj, yi, yj, l_x, l_y]"

definition kff_phi_dm :: " real\<Rightarrow>real\<Rightarrow>real\<Rightarrow>real\<Rightarrow>real\<Rightarrow>real\<Rightarrow>real\<Rightarrow>real " where
  "kff_phi_dm xi xj yi yj l_x l_y phi =
     lambdify [Sx_i, Sx_j, Sy_i, Sy_j, Sl_x, Sl_y, Sphi] kff_sym_phi_dm [xi, xj, yi, yj, l_x, l_y, phi]"

definition kfu_phi_dm :: " real\<Rightarrow>real\<Rightarrow>real\<Rightarrow>real\<Rightarrow>real\<Rightarrow>real\<Rightarrow>real\<Rightarrow>real " where
  "kfu_phi_dm xi xj yi yj l_x l_y phi =
     lambdify [Sx_i, Sx_j, Sy_i, Sy_j, Sl_x, Sl_y, Sphi] kfu_sym_phi_dm [xi, xj, yi, yj, l_x, l_y, phi]"

text \<open>
  \<^verbatim>\<open>K_l_x\<close>, \<^verbatim>\<open>K_l_y\<close>, \<^verbatim>\<open>K_phi\<close>: the double loop over the \<open>2n \<times> 2n\<close> array with its four
  \<^verbatim>\<open>if\<close> statements in sequence; \<open>k0\<close>, ..., \<open>k3\<close> are the array after each of them.
\<close>

definition K_l_x_dm :: "nat \<Rightarrow> vec \<Rightarrow> vec \<Rightarrow> real \<Rightarrow> real \<Rightarrow> real \<Rightarrow> mat" where
  "K_l_x_dm n x y l_x l_y phi =
     for_range (2 * n) (\<lambda>i. for_range (2 * n) (\<lambda>j k0.
        let k1 = (if i < n \<and> j < n
                  then set_entry k0 i j (kuu_l_x_dm (x ! i) (x ! j) (y ! i) (y ! j) l_x l_y)
                  else k0);
            k2 = (if i < n \<and> n \<le> j
                  then set_entry k1 i j
                         (kfu_l_x_dm (x ! (j - n)) (x ! i) (y ! (j - n)) (y ! i) l_x l_y phi)
                  else k1);
            k3 = (if n \<le> i \<and> j < n
                  then set_entry k2 i j
                         (kfu_l_x_dm (x ! (i - n)) (x ! j) (y ! (i - n)) (y ! j) l_x l_y phi)
                  else k2)
        in if n \<le> i \<and> n \<le> j
           then set_entry k3 i j
                  (kff_l_x_dm (x ! (i - n)) (x ! (j - n)) (y ! (i - n)) (y ! (j - n)) l_x l_y phi)
           else k3))
       (zeros (2 * n) (2 * n))"

definition K_l_y_dm :: "nat \<Rightarrow> vec \<Rightarrow> vec \<Rightarrow> real \<Rightarrow> real \<Rightarrow> real \<Rightarrow> mat" where
  "K_l_y_dm n x y l_x l_y phi =
     for_range (2 * n) (\<lambda>i. for_range (2 * n) (\<lambda>j k0.
        let k1 = (if i < n \<and> j < n
                  then set_entry k0 i j (kuu_l_y_dm (x ! i) (x ! j) (y ! i) (y ! j) l_x l_y)
                  else k0);
            k2 = (if i < n \<and> n \<le> j
                  then set_entry k1 i j
                         (kfu_l_y_dm (x ! (j - n)) (x ! i) (y ! (j - n)) (y ! i) l_x l_y phi)
                  else k1);
            k3 = (if n \<le> i \<and> j < n
                  then set_entry k2 i j
                         (kfu_l_y_dm (x ! (i - n)) (x ! j) (y ! (i - n)) (y ! j) l_x l_y phi)
                  else k2)
        in if n \<le> i \<and> n \<le> j
           then set_entry k3 i j
                  (kff_l_y_dm (x ! (i - n)) (x ! (j - n)) (y ! (i - n)) (y ! (j - n)) l_x l_y phi)
           else k3))
       (zeros (2 * n) (2 * n))"

definition K_phi_dm :: "nat \<Rightarrow> vec \<Rightarrow> vec \<Rightarrow> real \<Rightarrow> real \<Rightarrow> real \<Rightarrow> mat" where
  "K_phi_dm n x y l_x l_y phi =
     for_range (2 * n) (\<lambda>i. for_range (2 * n) (\<lambda>j k0.
        let k1 = (if i < n \<and> j < n
                  then set_entry k0 i j (kuu_phi_dm (x ! i) (x ! j) (y ! i) (y ! j) l_x l_y)
                  else k0);
            k2 = (if i < n \<and> n \<le> j
                  then set_entry k1 i j
                         (kfu_phi_dm (x ! (j - n)) (x ! i) (y ! (j - n)) (y ! i) l_x l_y phi)
                  else k1);
            k3 = (if n \<le> i \<and> j < n
                  then set_entry k2 i j
                         (kfu_phi_dm (x ! (i - n)) (x ! j) (y ! (i - n)) (y ! j) l_x l_y phi)
                  else k2)
        in if n \<le> i \<and> n \<le> j
           then set_entry k3 i j
                  (kff_phi_dm (x ! (i - n)) (x ! (j - n)) (y ! (i - n)) (y ! (j - n)) l_x l_y phi)
           else k3))
       (zeros (2 * n) (2 * n))"

text \<open>
  \<^verbatim>\<open>grad_L\<close>.  \<^verbatim>\<open>w = K_inv @ y_con\<close> is a 1-D array, so \<^verbatim>\<open>w.T\<close> is \<^verbatim>\<open>w\<close>, and
  \<^verbatim>\<open>2*n*w.T @ K_1 @ w\<close> is read from the left.
\<close>

definition grad_L_dm ::
  "svd_fn \<Rightarrow> nat \<Rightarrow> vec \<Rightarrow> vec \<Rightarrow> vec \<Rightarrow> vec \<Rightarrow> real \<Rightarrow> real \<Rightarrow> real \<Rightarrow> real
     \<Rightarrow> linalg_error + real list" where
  "grad_L_dm svd n x y y_u y_f s l_x l_y phi =
     and_then (K_inv_and_det_dm svd n x y y_u y_f s l_x l_y phi) (\<lambda>(K_inv, det_fK).
       let y_con = y_u @ y_f;
           K_1 = K_l_x_dm n x y l_x l_y phi;
           K_2 = K_l_y_dm n x y l_x l_y phi;
           K_3 = K_phi_dm n x y l_x l_y phi;
           w = matvec K_inv y_con;
           comp_1 = det_fK * (trace (matmul K_inv K_1)
                      - vdot (vecmat (vscale (2 * real n) w) K_1) w / vdot y_con w);
           comp_2 = det_fK * (trace (matmul K_inv K_2)
                      - vdot (vecmat (vscale (2 * real n) w) K_2) w / vdot y_con w);
           comp_3 = det_fK * (trace (matmul K_inv K_3)
                      - vdot (vecmat (vscale (2 * real n) w) K_3) w / vdot y_con w)
       in Inr [comp_1, comp_2, comp_3])"

text \<open>
  \<^verbatim>\<open>grad_nlml\<close>: the chain rule for the two length scales, which \<^verbatim>\<open>nlml\<close> receives as
  logarithms; \<^verbatim>\<open>np.squeeze\<close> turns the \<open>1 \<times> 3\<close> product into a 1-D array.
\<close>

definition grad_nlml_dm ::
  "svd_fn \<Rightarrow> nat \<Rightarrow> vec \<Rightarrow> vec \<Rightarrow> vec \<Rightarrow> vec \<Rightarrow> real \<Rightarrow> real list
     \<Rightarrow> linalg_error + real list" where
  "grad_nlml_dm svd n x y y_u y_f s par =
     (let M = diag_mat [exp (par ! 0), exp (par ! 1), 1]
      in and_then (grad_L_dm svd n x y y_u y_f s (exp (par ! 0)) (exp (par ! 1)) (par ! 2))
           (\<lambda>g. Inr (hd (matmul [g] M))))"

section \<open>The stability notebook\<close>

text \<open>
  Source: \<^verbatim>\<open>src/unnamed/part_001\<close> (PDE 1 with signal variance \<open>sigma\<close>; the notebook
  compares \<^verbatim>\<open>nlml\<close>, which calls \<^verbatim>\<open>slogdet\<close> and \<^verbatim>\<open>inv\<close>, with \<^verbatim>\<open>nlml_svd\<close>).
  Both objectives take the samples and the noise \<open>s\<close> as arguments.
\<close>

definition kuu_sym_st :: expr where
  "kuu_sym_st =
     Mul (Sym Ssigma)
       (Exp (Sub (Mul (Div (Num (- 1)) (Mul (Num 2) (Sym Sl_x))) (Pow (Sub (Sym Sx_i) (Sym Sx_j)) 2))
                 (Mul (Div (Num 1) (Mul (Num 2) (Sym Sl_y))) (Pow (Sub (Sym Sy_i) (Sym Sy_j)) 2))))"

definition kuu_fn_st :: "real \<Rightarrow> real \<Rightarrow> real \<Rightarrow> real \<Rightarrow> real \<Rightarrow> real \<Rightarrow> real \<Rightarrow> real" where
  "kuu_fn_st xi xj yi yj sigma l_x l_y =
     lambdify [Sx_i, Sx_j, Sy_i, Sy_j, Ssigma, Sl_x, Sl_y] kuu_sym_st
       [xi, xj, yi, yj, sigma, l_x, l_y]"

definition kuu_st :: "vec \<Rightarrow> vec \<Rightarrow> real \<Rightarrow> real \<Rightarrow> real \<Rightarrow> mat" where
  "kuu_st x y sigma l_x l_y =
     for_range (length x) (\<lambda>i. for_range (length x) (\<lambda>j k.
        set_entry k i j (kuu_fn_st (x ! i) (x ! j) (y ! i) (y ! j) sigma l_x l_y)))
       (zeros (length x) (length x))"

definition kff_sym_st :: expr where
  "kff_sym_st =
     (Add (Add (Add (Add (Add (Add (Add (Add (Mul (Pow (Sym Sphi) 2) kuu_sym_st)
       (Mul (Sym Sphi) (diffs kuu_sym_st [Sx_i])))
       (Mul (Sym Sphi) (diffs kuu_sym_st [Sy_i, Sy_i])))
       (Mul (Sym Sphi) (diffs kuu_sym_st [Sx_j])))
       (diffs kuu_sym_st [Sx_i, Sx_j]))
       (diffs kuu_sym_st [Sy_i, Sy_i, Sx_j]))
       (Mul (Sym Sphi) (diffs kuu_sym_st [Sy_j, Sy_j])))
       (diffs kuu_sym_st [Sx_i, Sy_j, Sy_j]))
       (diffs kuu_sym_st [Sy_i, Sy_i, Sy_j, Sy_j]))"

definition kff_fn_st :: "real \<Rightarrow> real \<Rightarrow> real \<Rightarrow> real \<Rightarrow> real \<Rightarrow> real \<Rightarrow> real \<Rightarrow> real \<Rightarrow> real" where
  "kff_fn_st xi xj yi yj sigma l_x l_y phi =
     lambdify [Sx_i, Sx_j, Sy_i, Sy_j, Ssigma, Sl_x, Sl_y, Sphi] kff_sym_st
       [xi, xj, yi, yj, sigma, l_x, l_y, phi]"

definition kff_st :: "vec \<Rightarrow> vec \<Rightarrow> real \<Rightarrow> real \<Rightarrow> real \<Rightarrow> real \<Rightarrow> mat" where
  "kff_st x y sigma l_x l_y phi =
     for_range (length x) (\<lambda>i. for_range (length x) (\<lambda>j k.
        set_entry k i j (kff_fn_st (x ! i) (x ! j) (y ! i) (y ! j) sigma l_x l_y phi)))
       (zeros (length x) (length x))"

definition kfu_sym_st :: expr where
  "kfu_sym_st =
     (Add (Add (Mul (Sym Sphi) kuu_sym_st)
       (diffs kuu_sym_st [Sx_i]))
       (diffs kuu_sym_st [Sy_i, Sy_i]))"

definition kfu_fn_st :: "real \<Rightarrow> real \<Rightarrow> real \<Rightarrow> real \<Rightarrow> real \<Rightarrow> real \<Rightarrow> real \<Rightarrow> real \<Rightarrow> real" where
  "kfu_fn_st xi xj yi yj sigma l_x l_y phi =
     lambdify [Sx_i, Sx_j, Sy_i, Sy_j, Ssigma, Sl_x, Sl_y, Sphi] kfu_sym_st
       [xi, xj, yi, yj, sigma, l_x, l_y, phi]"

definition kfu_st :: "vec \<Rightarrow> vec \<Rightarrow> real \<Rightarrow> real \<Rightarrow> real \<Rightarrow> real \<Rightarrow> mat" where
  "kfu_st x y sigma l_x l_y phi =
     for_range (length x) (\<lambda>i. for_range (length x) (\<lambda>j k.
        set_entry k i j (kfu_fn_st (x ! i) (x ! j) (y ! i) (y ! j) sigma l_x l_y phi)))
       (zeros (length x) (length x))"

definition kuf_st :: "vec \<Rightarrow> vec \<Rightarrow> real \<Rightarrow> real \<Rightarrow> real \<Rightarrow> real \<Rightarrow> mat" where
  "kuf_st x t sigma l_x l_y phi = mat_T (kfu_st x t sigma l_x l_y phi)"

text \<open>
  \<open>K_st\<close> is the matrix \<^verbatim>\<open>K\<close> that \<^verbatim>\<open>nlml\<close> and \<^verbatim>\<open>nlml_svd\<close> both assemble first, from
  the exponentiated parameters.  In \<^verbatim>\<open>nlml\<close>, \<^verbatim>\<open>np.linalg.slogdet(K)\<close> is a pair; adding the 1-by-1 matrix
  \<^verbatim>\<open>np.mat(y) * np.linalg.inv(K) * np.mat(y).T\<close> to it broadcasts to the 1-by-2 matrix of
  both sums, and \<^verbatim>\<open>val.item(0)\<close> is its first entry.
\<close>

definition tuple_plus_matrix :: "real \<times> real \<Rightarrow> mat \<Rightarrow> mat" where
  "tuple_plus_matrix p q = (case p of (a, b) \<Rightarrow> [[a + q ! 0 ! 0, b + q ! 0 ! 0]])"

definition item :: "mat \<Rightarrow> nat \<Rightarrow> real" where
  "item M k = concat M ! k"

definition K_st :: "real list \<Rightarrow> vec \<Rightarrow> vec \<Rightarrow> real \<Rightarrow> mat" where
  "K_st params x y s =
     (let sigma_exp = exp (params ! 0);
          l_x_exp = exp (params ! 1);
          l_y_exp = exp (params ! 2)
      in block (mat_add (kuu_st x y sigma_exp l_x_exp l_y_exp) (smul s (eye (length x))))
               (kuf_st x y sigma_exp l_x_exp l_y_exp (params ! 3))
               (kfu_st x y sigma_exp l_x_exp l_y_exp (params ! 3))
               (mat_add (kff_st x y sigma_exp l_x_exp l_y_exp (params ! 3))
                        (smul s (eye (length x)))))"

definition nlml_st :: "real list \<Rightarrow> vec \<Rightarrow> vec \<Rightarrow> vec \<Rightarrow> vec \<Rightarrow> real \<Rightarrow> linalg_error + real" where
  "nlml_st params x y y1 y2 s =
     (let K = K_st params x y s;
          yv = y1 @ y2
      in and_then (inv K) (\<lambda>K_inv.
           let val = tuple_plus_matrix (slogdet K) (matmul (matmul [yv] K_inv) (mat_T [yv]))
           in Inr (item val 0)))"

definition nlml_svd_st ::
  "svd_fn \<Rightarrow> real list \<Rightarrow> vec \<Rightarrow> vec \<Rightarrow> vec \<Rightarrow> vec \<Rightarrow> real \<Rightarrow> linalg_error + real" where
  "nlml_svd_st svd params x y y1 y2 s =
     (let K = K_st params x y s;
          yv = y1 @ y2
      in case svd K of (u, sv, vt) \<Rightarrow>
           let log_sum = for_range (length sv) (\<lambda>i log_sum. log_sum + ln \<bar>sv ! i\<bar>) 0
           in and_then (inv (diag_mat sv)) (\<lambda>s_inv.
                let K_inv = matmul (matmul (mat_T vt) s_inv) (mat_T u);
                    val = mat_add [[log_sum]] (matmul (matmul [yv] K_inv) (mat_T [yv]))
                in Inr (item val 0)))"

section \<open>The advection-diffusion notebook\<close>

text \<open>
  Source: \<^verbatim>\<open>src/advection_diffusion.ipynb\<close>; \<^verbatim>\<open>src/unnamed/part_002\<close> has the same
  kernels, the same \<^verbatim>\<open>K\<close> and the same \<^verbatim>\<open>K_inv_and_det\<close>.  Both set \<^verbatim>\<open>s = 1e-7\<close>.
\<close>

definition s_ad :: real where
  "s_ad = 1 / 10 ^ 7"

definition kuu_sym_ad :: expr where
  "kuu_sym_ad =
     Mul (Sym Ssigma)
       (Exp (Sub (Sub (Mul (Div (Num (- 1)) (Mul (Num 2) (Sym Sl_x))) (Pow (Sub (Sym Sx_i) (Sym Sx_j)) 2))
                      (Mul (Div (Num 1) (Mul (Num 2) (Sym Sl_y))) (Pow (Sub (Sym Sy_i) (Sym Sy_j)) 2)))
                 (Mul (Div (Num 1) (Mul (Num 2) (Sym Sl_t))) (Pow (Sub (Sym St_i) (Sym St_j)) 2))))"

definition kuu_fn_ad :: "real \<Rightarrow> real \<Rightarrow> real \<Rightarrow> real \<Rightarrow> real \<Rightarrow> real \<Rightarrow> real \<Rightarrow> real \<Rightarrow> real \<Rightarrow> real \<Rightarrow> real" where
  "kuu_fn_ad xi xj yi yj ti tj sigma l_x l_y l_t =
     lambdify [Sx_i, Sx_j, Sy_i, Sy_j, St_i, St_j, Ssigma, Sl_x, Sl_y, Sl_t] kuu_sym_ad
       [xi, xj, yi, yj, ti, tj, sigma, l_x, l_y, l_t]"

definition kuu_ad :: "vec \<Rightarrow> vec \<Rightarrow> vec \<Rightarrow> real \<Rightarrow> real \<Rightarrow> real \<Rightarrow> real \<Rightarrow> mat" where
  "kuu_ad x y t sigma l_x l_y l_t =
     for_range (length x) (\<lambda>i. for_range (length x) (\<lambda>j k.
        set_entry k i j
          (kuu_fn_ad (x ! i) (x ! j) (y ! i) (y ! j) (t ! i) (t ! j) sigma l_x l_y l_t)))
       (zeros (length x) (length x))"

definition kff_sym_ad :: expr where
  "kff_sym_ad =
     (Add (Sub (Sub (Sub (Sub (Sub (Add (Add (Add (Add (Sub (Add (Add (Add (Add (Sub (Add (Add (Add (Add (Sub (Add (Add (Add (Mul (Pow (Sym Sa) 2) (diffs kuu_sym_ad [Sx_i, Sx_j]))
       (Mul (Mul (Sym Sa) (Sym Sb)) (diffs kuu_sym_ad [Sx_i, Sy_j])))
       (Mul (Mul (Sym Sa) (Sym Sc)) (diffs kuu_sym_ad [Sx_i, Sx_j, Sx_j])))
       (Mul (Mul (Sym Sa) (Sym Sd)) (diffs kuu_sym_ad [Sx_i, Sy_j, Sy_j])))
       (Mul (Sym Sa) (diffs kuu_sym_ad [Sx_i, St_j])))
       (Mul (Mul (Sym Sb) (Sym Sa)) (diffs kuu_sym_ad [Sy_i, Sx_j])))
       (Mul (Pow (Sym Sb) 2) (diffs kuu_sym_ad [Sy_i, Sy_j])))
       (Mul (Mul (Sym Sb) (Sym Sc)) (diffs kuu_sym_ad [Sy_i, Sx_j, Sx_j])))
       (Mul (Mul (Sym Sb) (Sym Sd)) (diffs kuu_sym_ad [Sy_i, Sy_j, Sy_j])))
       (Mul (Sym Sb) (diffs kuu_sym_ad [Sy_i, St_j])))
       (Mul (Mul (Sym Sc) (Sym Sa)) (diffs kuu_sym_ad [Sx_i, Sx_i, Sx_j])))
       (Mul (Mul (Sym Sc) (Sym Sb)) (diffs kuu_sym_ad [Sx_i, Sx_i, Sy_j])))
       (Mul (Pow (Sym Sc) 2) (diffs kuu_sym_ad [Sx_i, Sx_i, Sx_j, Sx_j])))
       (Mul (Mul (Sym Sc) (Sym Sd)) (diffs kuu_sym_ad [Sx_i, Sx_i, Sy_j, Sy_j])))
       (Mul (Sym Sc) (diffs kuu_sym_ad [Sx_i, Sx_i, St_j])))
       (Mul (Mul (Sym Sd) (Sym Sa)) (diffs kuu_sym_ad [Sy_i, Sy_i, Sx_j])))
       (Mul (Mul (Sym Sd) (Sym Sb)) (diffs kuu_sym_ad [Sy_i, Sy_i, Sy_j])))
       (Mul (Mul (Sym Sd) (Sym Sc)) (diffs kuu_sym_ad [Sy_i, Sy_i, Sx_j, Sx_j])))
       (Mul (Pow (Sym Sd) 2) (diffs kuu_sym_ad [Sy_i, Sy_i, Sy_j, Sy_j])))
       (Mul (Sym Sd) (diffs kuu_sym_ad [Sy_i, Sy_i, St_j])))
       (Mul (Sym Sa) (diffs kuu_sym_ad [St_i, Sx_j])))
       (Mul (Sym Sb) (diffs kuu_sym_ad [St_i, Sy_j])))
       (Mul (Sym Sc) (diffs kuu_sym_ad [St_i, Sx_j, Sx_j])))
       (Mul (Sym Sd) (diffs kuu_sym_ad [St_i, Sy_j, Sy_j])))
       (diffs kuu_sym_ad [St_i, St_j]))"

definition kff_fn_ad :: "real \<Rightarrow> real \<Rightarrow> real \<Rightarrow> real \<Rightarrow> real \<Rightarrow> real \<Rightarrow> real \<Rightarrow> real \<Rightarrow> real \<Rightarrow> real \<Rightarrow> real \<Rightarrow> real \<Rightarrow> real \<Rightarrow> real \<Rightarrow> real" where
  "kff_fn_ad xi xj yi yj ti tj sigma l_x l_y l_t a b c d =
     lambdify [Sx_i, Sx_j, Sy_i, Sy_j, St_i, St_j, Ssigma, Sl_x, Sl_y, Sl_t, Sa, Sb, Sc, Sd] kff_sym_ad
       [xi, xj, yi, yj, ti, tj, sigma, l_x, l_y, l_t, a, b, c, d]"

definition kff_ad :: "vec \<Rightarrow> vec \<Rightarrow> vec \<Rightarrow> real \<Rightarrow> real \<Rightarrow> real \<Rightarrow> real \<Rightarrow> real \<Rightarrow> real \<Rightarrow> real \<Rightarrow> real \<Rightarrow> mat" where
  "kff_ad x y t sigma l_x l_y l_t a b c d =
     for_range (length x) (\<lambda>i. for_range (length x) (\<lambda>j k.
        set_entry k i j
          (kff_fn_ad (x ! i) (x ! j) (y ! i) (y ! j) (t ! i) (t ! j) sigma l_x l_y l_t a b c d)))
       (zeros (length x) (length x))"

definition kfu_sym_ad :: expr where
  "kfu_sym_ad =
     (Sub (Add (Add (Add (Mul (Sym Sa) (diffs kuu_sym_ad [Sx_i]))
       (Mul (Sym Sb) (diffs kuu_sym_ad [Sy_i])))
       (Mul (Sym Sc) (diffs kuu_sym_ad [Sx_i, Sx_i])))
       (Mul (Sym Sd) (diffs kuu_sym_ad [Sy_i, Sy_i])))
       (diffs kuu_sym_ad [St_i]))"

definition kfu_fn_ad :: "real \<Rightarrow> real \<Rightarrow> real \<Rightarrow> real \<Rightarrow> real \<Rightarrow> real \<Rightarrow> real \<Rightarrow> real \<Rightarrow> real \<Rightarrow> real \<Rightarrow> real \<Rightarrow> real \<Rightarrow> real \<Rightarrow> real \<Rightarrow> real" where
  "kfu_fn_ad xi xj yi yj ti tj sigma l_x l_y l_t a b c d =
     lambdify [Sx_i, Sx_j, Sy_i, Sy_j, St_i, St_j, Ssigma, Sl_x, Sl_y, Sl_t, Sa, Sb, Sc, Sd] kfu_sym_ad
       [xi, xj, yi, yj, ti, tj, sigma, l_x, l_y, l_t, a, b, c, d]"

definition kfu_ad :: "vec \<Rightarrow> vec \<Rightarrow> vec \<Rightarrow> real \<Rightarrow> real \<Rightarrow> real \<Rightarrow> real \<Rightarrow> real \<Rightarrow> real \<Rightarrow> real \<Rightarrow> real \<Rightarrow> mat" where
  "kfu_ad x y t sigma l_x l_y l_t a b c d =
     for_range (length x) (\<lambda>i. for_range (length x) (\<lambda>j k.
        set_entry k i j
          (kfu_fn_ad (x ! i) (x ! j) (y ! i) (y ! j) (t ! i) (t ! j) sigma l_x l_y l_t a b c d)))
       (zeros (length x) (length x))"

definition kuf_ad ::
  "vec \<Rightarrow> vec \<Rightarrow> vec \<Rightarrow> real \<Rightarrow> real \<Rightarrow> real \<Rightarrow> real \<Rightarrow> real \<Rightarrow> real \<Rightarrow> real \<Rightarrow> real \<Rightarrow> mat" where
  "kuf_ad x y t sigma l_x l_y l_t a b c d = mat_T (kfu_ad x y t sigma l_x l_y l_t a b c d)"

definition K_ad ::
  "nat \<Rightarrow> vec \<Rightarrow> vec \<Rightarrow> vec \<Rightarrow> real \<Rightarrow> real \<Rightarrow> real \<Rightarrow> real \<Rightarrow> real \<Rightarrow> real \<Rightarrow> real \<Rightarrow> real \<Rightarrow> real
     \<Rightarrow> mat" where
  "K_ad n x y t sigma l_x l_y l_t a b c d s =
     block (mat_add (kuu_ad x y t sigma l_x l_y l_t) (smul s (eye n)))
           (kuf_ad x y t sigma l_x l_y l_t a b c d)
           (kfu_ad x y t sigma l_x l_y l_t a b c d)
           (mat_add (kff_ad x y t sigma l_x l_y l_t a b c d) (smul s (eye n)))"

text \<open>
  \<^verbatim>\<open>K_inv_and_det\<close>: inverse and \<^verbatim>\<open>log_sum\<close>, by Cholesky in the \<^verbatim>\<open>try\<close> block and by
  SVD in the \<^verbatim>\<open>except\<close> block.  \<open>chol_path\<close> and \<open>svd_path\<close> are the two blocks on the
  matrix that \<^verbatim>\<open>K(...)\<close> returns.
\<close>

definition chol_path :: "nat \<Rightarrow> mat \<Rightarrow> linalg_error + mat \<times> real" where
  "chol_path n K =
     and_then (cholesky K) (\<lambda>L.
     and_then (solve_triangular L (eye (2 * n))) (\<lambda>L_inv.
       let K_inv = matmul (mat_T L_inv) L_inv;
           log_sum = for_range (2 * n) (\<lambda>i log_sum. log_sum + ln \<bar>L ! i ! i\<bar>) 0
       in Inr (K_inv, log_sum)))"

definition svd_path :: "svd_fn \<Rightarrow> mat \<Rightarrow> linalg_error + mat \<times> real" where
  "svd_path svd K =
     (case svd K of (u, s_mat, vt) \<Rightarrow>
        and_then (inv (diag_mat s_mat)) (\<lambda>s_inv.
          let K_inv = matmul (matmul (mat_T vt) s_inv) (mat_T u);
              log_sum = for_range (length s_mat) (\<lambda>i log_sum. log_sum + ln (s_mat ! i)) 0
          in Inr (K_inv, log_sum)))"

definition K_inv_and_det_ad ::
  "svd_fn \<Rightarrow> nat \<Rightarrow> vec \<Rightarrow> vec \<Rightarrow> vec \<Rightarrow> real \<Rightarrow> real \<Rightarrow> real \<Rightarrow> real \<Rightarrow> real \<Rightarrow> real \<Rightarrow> real \<Rightarrow> real
     \<Rightarrow> real \<Rightarrow> linalg_error + mat \<times> real" where
  "K_inv_and_det_ad svd n x y t sigma l_x l_y l_t a b c d s =
     try_except (chol_path n (K_ad n x y t sigma l_x l_y l_t a b c d s))
                (svd_path svd (K_ad n x y t sigma l_x l_y l_t a b c d s))"

definition nlml_ad ::
  "svd_fn \<Rightarrow> nat \<Rightarrow> vec \<Rightarrow> vec \<Rightarrow> vec \<Rightarrow> vec \<Rightarrow> vec \<Rightarrow> real \<Rightarrow> real list \<Rightarrow> linalg_error + real" where
  "nlml_ad svd n x y t y_u y_f s params =
     (let sigma_exp = exp (params ! 0);
          l_x_exp = exp (params ! 1);
          l_y_exp = exp (params ! 2);
          l_t_exp = exp (params ! 3);
          y_con = y_u @ y_f
      in and_then (K_inv_and_det_ad svd n x y t sigma_exp l_x_exp l_y_exp l_t_exp
                     (params ! 4) (params ! 5) (params ! 6) (params ! 7) s)
           (\<lambda>(A, b). Inr (b + vdot (vecmat y_con A) y_con)))"

section \<open>The Mat\'ern notebook: the block objective\<close>

text \<open>
  \<^verbatim>\<open>nlml\<close> of \<^verbatim>\<open>src/2D-Matern.ipynb\<close> inverts \<open>A\<close> and the Schur complement \<open>KA\<close> with the
  same \<^verbatim>\<open>try\<close>/\<^verbatim>\<open>except\<close> block, which here also yields the log-determinant;
  \<^verbatim>\<open>nlml\<close> of \<^verbatim>\<open>src/3D_example.ipynb\<close> has the same body on its own kernels.
\<close>

definition chol_or_svd_inv_logdet :: "svd_fn \<Rightarrow> nat \<Rightarrow> mat \<Rightarrow> linalg_error + mat \<times> real" where
  "chol_or_svd_inv_logdet svd n A =
     try_except
       (and_then (cholesky A) (\<lambda>L.
        and_then (solve_triangular L (eye n)) (\<lambda>L_inv.
          Inr (matmul (mat_T L_inv) L_inv,
               2 * sum_list (map (\<lambda>a. ln \<bar>a\<bar>) (diag_of L))))))
       (case svd A of (u, s_mat, vt) \<Rightarrow>
        and_then (inv (diag_mat s_mat)) (\<lambda>s_inv.
          Inr (matmul (matmul (mat_T vt) s_inv) (mat_T u), sum_list (map ln s_mat))))"

definition nlml_Matern ::
  "svd_fn \<Rightarrow> nat \<Rightarrow> vec \<Rightarrow> vec \<Rightarrow> vec \<Rightarrow> vec \<Rightarrow> real \<Rightarrow> real list \<Rightarrow> linalg_error + real" where
  "nlml_Matern svd n x y y_u y_f s params =
     (let sigma_exp = exp (params ! 0);
          l_x_exp = exp (params ! 1);
          l_y_exp = exp (params ! 2);
          A = mat_add (kuu_Matern x y sigma_exp l_x_exp l_y_exp) (smul s (eye n));
          B = mat_T (kfu_Matern x y sigma_exp l_x_exp l_y_exp (params ! 3));
          C = mat_add (kff_Matern x y sigma_exp l_x_exp l_y_exp (params ! 3)) (smul s (eye n))
      in and_then (chol_or_svd_inv_logdet svd n A) (\<lambda>(A_inv, logdet_A).
           let KA = mat_sub C (matmul (matmul (mat_T B) A_inv) B)
           in and_then (chol_or_svd_inv_logdet svd n KA) (\<lambda>(KA_inv, logdet_KA).
                let T = matmul (matmul A_inv B) KA_inv;
                    yKy = vdot (vecmat y_u (mat_add A_inv (matmul (matmul T (mat_T B)) A_inv))) y_u
                          - vdot (vecmat (vscale 2 y_u) T) y_f
                          + vdot (vecmat y_f KA_inv) y_f
                in Inr (yKy + logdet_A + logdet_KA))))"

section \<open>Singular value decompositions of the example matrices\<close>

text \<open>The matrix \<open>4 I\<close> of size 2 has \<open>u = vt = I\<close> and both singular values 4.\<close>

definition svd_4I :: svd_fn where
  "svd_4I M = (eye 2, [4, 4], eye 2)"

text \<open>
  A diagonal matrix \<open>diag(d)\<close> whose entries do not grow in magnitude down the diagonal
  has \<open>u = I\<close>, the magnitudes \<open>|d\<^sub>i|\<close> as singular values and the signs of the \<open>d\<^sub>i\<close> on
  the diagonal of \<open>vt\<close>.
\<close>

definition svd_diag :: svd_fn where
  "svd_diag M =
     (eye (length M), map (\<lambda>a. \<bar>a\<bar>) (diag_of M),
      mk_mat (length M) (length M) (\<lambda>i j. if i = j then (if M ! i ! i < 0 then - 1 else 1) else 0))"


section \<open>Notions used in the proofs\<close>

text \<open>
  The operations on square matrices of a known dimension \<open>n\<close>; on \<open>n \<times> n\<close> arrays they
  agree with \<^verbatim>\<open>@\<close>, \<^verbatim>\<open>+\<close>, \<^verbatim>\<open>-\<close> and \<^verbatim>\<open>.T\<close>.
\<close>

definition mm :: "nat \<Rightarrow> mat \<Rightarrow> mat \<Rightarrow> mat" where
  "mm n A B = mk_mat n n (\<lambda>i j. \<Sum>k<n. A ! i ! k * B ! k ! j)"

definition ma :: "nat \<Rightarrow> mat \<Rightarrow> mat \<Rightarrow> mat" where
  "ma n A B = mk_mat n n (\<lambda>i j. A ! i ! j + B ! i ! j)"

definition ms :: "nat \<Rightarrow> mat \<Rightarrow> mat \<Rightarrow> mat" where
  "ms n A B = mk_mat n n (\<lambda>i j. A ! i ! j - B ! i ! j)"

definition mng :: "nat \<Rightarrow> mat \<Rightarrow> mat" where
  "mng n A = mk_mat n n (\<lambda>i j. - (A ! i ! j))"

definition mt :: "nat \<Rightarrow> mat \<Rightarrow> mat" where
  "mt n A = mk_mat n n (\<lambda>i j. A ! j ! i)"

text \<open>
  Lower-triangular matrices.
\<close>

definition lower_tri :: "nat \<Rightarrow> mat \<Rightarrow> bool" where
  "lower_tri n L = (\<forall>i<n. \<forall>j<n. i < j \<longrightarrow> L ! i ! j = 0)"

text \<open>
  The function with the entries of \<^verbatim>\<open>np.block([[A, B], [C, D]])\<close>, \<open>A\<close> of size \<open>n\<close>.
\<close>

definition block_fn ::
  "nat \<Rightarrow> (nat \<Rightarrow> nat \<Rightarrow> real) \<Rightarrow> (nat \<Rightarrow> nat \<Rightarrow> real) \<Rightarrow> (nat \<Rightarrow> nat \<Rightarrow> real)
     \<Rightarrow> (nat \<Rightarrow> nat \<Rightarrow> real) \<Rightarrow> nat \<Rightarrow> nat \<Rightarrow> real" where
  "block_fn n A B C D = (\<lambda>i j.
     if i < n then (if j < n then A i j else B i (j - n))
     else (if j < n then C (i - n) j else D (i - n) (j - n)))"

text \<open>
  The inverse by cofactors, entry by entry, of a matrix given as a function.
\<close>

definition adj_inv :: "nat \<Rightarrow> (nat \<Rightarrow> nat \<Rightarrow> real) \<Rightarrow> nat \<Rightarrow> nat \<Rightarrow> real" where
  "adj_inv n M = (\<lambda>i j.
     (- 1) ^ (j + i) * det_fn (n - 1) (\<lambda>a b. M (if a < j then a else Suc a) (if b < i then b else Suc b))
     / det_fn n M)"


section \<open>Basic facts about arrays and loops\<close>

lemma length_mk_mat [simp]: "length (mk_mat r c f) = r"
  by (simp add: mk_mat_def)

lemma mk_mat_nth [simp]: "i < r \<Longrightarrow> mk_mat r c f ! i = map (f i) [0..<c]"
  by (simp add: mk_mat_def)

lemma mk_mat_entry: "i < r \<Longrightarrow> j < c \<Longrightarrow> mk_mat r c f ! i ! j = f i j"
  by simp

lemma is_mat_mk_mat [simp]: "is_mat r c (mk_mat r c f)"
  by (simp add: is_mat_def mk_mat_def list_all_iff)

lemma is_mat_zeros [simp]: "is_mat r c (zeros r c)"
  by (simp add: is_mat_def zeros_def list_all_iff)

lemma is_mat_length: "is_mat r c M \<Longrightarrow> length M = r"
  by (simp add: is_mat_def)

lemma is_mat_row: "is_mat r c M \<Longrightarrow> i < r \<Longrightarrow> length (M ! i) = c"
  by (simp add: is_mat_def list_all_length)

lemma is_mat_eq_mk_mat: "is_mat r c M \<Longrightarrow> M = mk_mat r c (\<lambda>i j. M ! i ! j)"
  by (auto simp: is_mat_def list_all_length mk_mat_def intro!: nth_equalityI)

lemma mat_eqI:
  assumes "is_mat r c A" "is_mat r c B"
    and "\<And>i j. i < r \<Longrightarrow> j < c \<Longrightarrow> A ! i ! j = B ! i ! j"
  shows "A = B"
proof (rule nth_equalityI)
  show "length A = length B"
    using assms(1,2) by (simp add: is_mat_def)
next
  fix i assume "i < length A"
  then have i: "i < r" using assms(1) by (simp add: is_mat_def)
  show "A ! i = B ! i"
  proof (rule nth_equalityI)
    show "length (A ! i) = length (B ! i)"
      using is_mat_row[OF assms(1) i] is_mat_row[OF assms(2) i] by simp
  next
    fix j assume "j < length (A ! i)"
    then have "j < c" using is_mat_row[OF assms(1) i] by simp
    then show "A ! i ! j = B ! i ! j" using assms(3) i by simp
  qed
qed

lemma inner_loop:
  assumes "i < length k" "m \<le> length (k ! i)"
  shows "for_range m (\<lambda>j k. set_entry k i j (g j)) k
         = k[i := map g [0..<m] @ drop m (k ! i)]"
  using assms(2)
proof (induction m)
  case 0
  then show ?case by (simp add: for_range_def)
next
  case (Suc m)
  then have m: "m < length (k ! i)" by simp
  have "for_range (Suc m) (\<lambda>j k. set_entry k i j (g j)) k
        = set_entry (for_range m (\<lambda>j k. set_entry k i j (g j)) k) i m (g m)"
    by (simp add: for_range_def)
  also have "\<dots> = set_entry (k[i := map g [0..<m] @ drop m (k ! i)]) i m (g m)"
    using Suc by simp
  also have "\<dots> = k[i := (map g [0..<m] @ drop m (k ! i))[m := g m]]"
    using assms(1) by (simp add: set_entry_def)
  also have "(map g [0..<m] @ drop m (k ! i))[m := g m]
             = map g [0..<Suc m] @ drop (Suc m) (k ! i)"
    using m by (simp add: list_update_append upd_conv_take_nth_drop)
  finally show ?case .
qed

lemma outer_loop:
  assumes "is_mat r c k" "n \<le> r"
  shows "for_range n (\<lambda>i. for_range c (\<lambda>j k. set_entry k i j (g i j))) k
         = map (\<lambda>i. map (g i) [0..<c]) [0..<n] @ drop n k"
  using assms(2)
proof (induction n)
  case 0
  then show ?case by (simp add: for_range_def)
next
  case (Suc n)
  let ?k = "map (\<lambda>i. map (g i) [0..<c]) [0..<n] @ drop n k"
  have len: "length k = r" using assms(1) by (simp add: is_mat_def)
  have n: "n < length k" using Suc.prems len by simp
  have row: "?k ! n = k ! n"
    using n by (simp add: nth_append)
  have rowlen: "length (k ! n) = c"
    using is_mat_row[OF assms(1)] Suc.prems by simp
  have "for_range (Suc n) (\<lambda>i. for_range c (\<lambda>j k. set_entry k i j (g i j))) k
        = for_range c (\<lambda>j k. set_entry k n j (g n j))
            (for_range n (\<lambda>i. for_range c (\<lambda>j k. set_entry k i j (g i j))) k)"
    by (simp add: for_range_def)
  also have "\<dots> = for_range c (\<lambda>j k. set_entry k n j (g n j)) ?k"
    using Suc by simp
  also have "\<dots> = ?k[n := map (g n) [0..<c] @ drop c (?k ! n)]"
    using n rowlen row by (intro inner_loop) simp_all
  also have "\<dots> = ?k[n := map (g n) [0..<c]]"
    using row rowlen by simp
  also have "\<dots> = map (\<lambda>i. map (g i) [0..<c]) [0..<Suc n] @ drop (Suc n) k"
    using n by (simp add: list_update_append upd_conv_take_nth_drop)
  finally show ?case .
qed

lemma fill_loop:
  "for_range n (\<lambda>i. for_range n (\<lambda>j k. set_entry k i j (g i j))) (zeros n n) = mk_mat n n g"
  using outer_loop[where r = n and c = n and k = "zeros n n" and n = n and g = g]
  by (simp add: mk_mat_def zeros_def is_mat_def list_all_iff)

lemma kff_Matern_eq:
  "kff_Matern x y sigma l_x l_y phi = mk_mat (length x) (length x) (\<lambda>i j.
     if i = j
     then kff_fn_Matern (x ! i) (x ! j + corr_nan) (y ! i) (y ! j + corr_nan) sigma l_x l_y phi
     else kff_fn_Matern (x ! i) (x ! j) (y ! i) (y ! j) sigma l_x l_y phi)"
  unfolding kff_Matern_def if_distrib[of "set_entry _ _ _", symmetric]
  by (rule fill_loop)

lemma kfu_Matern_eq:
  "kfu_Matern x y sigma l_x l_y phi = mk_mat (length x) (length x) (\<lambda>i j.
     if i = j
     then kfu_fn_Matern (x ! i) (x ! j + corr_nan) (y ! i) (y ! j + corr_nan) sigma l_x l_y phi
     else kfu_fn_Matern (x ! i) (x ! j) (y ! i) (y ! j) sigma l_x l_y phi)"
  unfolding kfu_Matern_def if_distrib[of "set_entry _ _ _", symmetric]
  by (rule fill_loop)

lemmas mat_defs = mk_mat_def nrows_def ncols_def mat_T_def matmul_def mat_add_def mat_sub_def
  mat_neg_def smul_def vdot_def vecmat_def matvec_def block_def diag_mat_def diag_of_def
  trace_def eye_def zeros_def vscale_def

lemma and_then_simps [simp]:
  "and_then (Inl e) f = Inl e" "and_then (Inr v) f = f v"
  by (simp_all add: and_then_def)

lemma try_except_simps [simp]:
  "try_except (Inl e) h = h" "try_except (Inr v) h = Inr v"
  by (simp_all add: try_except_def)

lemma for_range_sum: "for_range n (\<lambda>i acc. acc + f i) a = a + (\<Sum>i<n. f i)"
  by (induction n) (simp_all add: for_range_def add.assoc)

lemma det_2x2: "det [[a, b], [c, d]] = a * d - b * c"
  by (simp add: det_def minor_fn_def)

lemma inv_diag2: "a \<noteq> 0 \<Longrightarrow> d \<noteq> 0 \<Longrightarrow> inv [[a, 0], [0, d]] = Inr [[1 / a, 0], [0, 1 / d]]"
  by (simp add: inv_def det_2x2 cofactor_def mk_mat_def eval_nat_numeral)

subsection \<open>The kernels as matrices of kernel values\<close>

lemma kuu_ad_eq: "kuu_ad x y t sigma l_x l_y l_t = mk_mat (length x) (length x)
   (\<lambda>i j. kuu_fn_ad (x ! i) (x ! j) (y ! i) (y ! j) (t ! i) (t ! j) sigma l_x l_y l_t)"
  unfolding kuu_ad_def by (rule fill_loop)

lemma kff_ad_eq: "kff_ad x y t sigma l_x l_y l_t a b c d = mk_mat (length x) (length x)
   (\<lambda>i j. kff_fn_ad (x ! i) (x ! j) (y ! i) (y ! j) (t ! i) (t ! j) sigma l_x l_y l_t a b c d)"
  unfolding kff_ad_def by (rule fill_loop)

lemma kfu_ad_eq: "kfu_ad x y t sigma l_x l_y l_t a b c d = mk_mat (length x) (length x)
   (\<lambda>i j. kfu_fn_ad (x ! i) (x ! j) (y ! i) (y ! j) (t ! i) (t ! j) sigma l_x l_y l_t a b c d)"
  unfolding kfu_ad_def by (rule fill_loop)

lemma kuu_st_eq: "kuu_st x y sigma l_x l_y = mk_mat (length x) (length x)
   (\<lambda>i j. kuu_fn_st (x ! i) (x ! j) (y ! i) (y ! j) sigma l_x l_y)"
  unfolding kuu_st_def by (rule fill_loop)

lemma kff_st_eq: "kff_st x y sigma l_x l_y phi = mk_mat (length x) (length x)
   (\<lambda>i j. kff_fn_st (x ! i) (x ! j) (y ! i) (y ! j) sigma l_x l_y phi)"
  unfolding kff_st_def by (rule fill_loop)

lemma kfu_st_eq: "kfu_st x y sigma l_x l_y phi = mk_mat (length x) (length x)
   (\<lambda>i j. kfu_fn_st (x ! i) (x ! j) (y ! i) (y ! j) sigma l_x l_y phi)"
  unfolding kfu_st_def by (rule fill_loop)

lemma kuu_dm_eq: "kuu_dm x y l_x l_y = mk_mat (length x) (length x)
   (\<lambda>i j. kuu_fn_dm (x ! i) (x ! j) (y ! i) (y ! j) l_x l_y)"
  unfolding kuu_dm_def by (rule fill_loop)

lemma kff_dm_eq: "kff_dm x y l_x l_y phi = mk_mat (length x) (length x)
   (\<lambda>i j. kff_fn_dm (x ! i) (x ! j) (y ! i) (y ! j) l_x l_y phi)"
  unfolding kff_dm_def by (rule fill_loop)

lemma kfu_dm_eq: "kfu_dm x y l_x l_y phi = mk_mat (length x) (length x)
   (\<lambda>i j. kfu_fn_dm (x ! i) (x ! j) (y ! i) (y ! j) l_x l_y phi)"
  unfolding kfu_dm_def by (rule fill_loop)

lemma kuu_Matern_eq: "kuu_Matern x y sigma l_x l_y = mk_mat (length x) (length x)
   (\<lambda>i j. kuu_fn_Matern (x ! i) (x ! j) (y ! i) (y ! j) sigma l_x l_y)"
  unfolding kuu_Matern_def by (rule fill_loop)

subsection \<open>Kernel values at coinciding points\<close>

lemma kuu_ad_val: "kuu_fn_ad 0 0 0 0 0 0 3 1 1 1 = 3"
  by (simp add: kuu_fn_ad_def lambdify_def kuu_sym_ad_def)

lemma kff_ad_val: "kff_fn_ad 0 0 0 0 0 0 3 1 1 1 0 0 0 0 = 3"
  apply (simp add: kff_fn_ad_def lambdify_def kff_sym_ad_def)
  apply (simp add: kuu_sym_ad_def diffs_def)
  done

lemma kfu_ad_val: "kfu_fn_ad 0 0 0 0 0 0 3 1 1 1 0 0 0 0 = 0"
  apply (simp add: kfu_fn_ad_def lambdify_def kfu_sym_ad_def)
  apply (simp add: kuu_sym_ad_def diffs_def)
  done

lemma K_ad_val: "K_ad 1 [0] [0] [0] 3 1 1 1 0 0 0 0 1 = [[4, 0], [0, 4]]"
  by (simp add: K_ad_def kuf_ad_def kuu_ad_eq kff_ad_eq kfu_ad_eq kuu_ad_val kff_ad_val
      kfu_ad_val mat_defs)

lemma chol_4I: "cholesky [[4, 0], [0, 4]] = Inr [[2, 0], [0, 2]]"
  by (simp add: mat_defs Let_def)

lemma solve_2I: "solve_triangular [[2, 0], [0, 2]] (eye (2 * 1)) = Inr [[1 / 2, 0], [0, 1 / 2]]"
  by (simp add: solve_triangular_def mat_defs eval_nat_numeral)

lemma ln_16: "ln (16::real) = 4 * ln 2"
proof -
  have "(16::real) = 2 ^ 4" by simp
  then show ?thesis by (simp only: ln_realpow)
qed

lemma kuu_st_val: "kuu_fn_st 0 0 0 0 1 1 1 = 1"
  by (simp add: kuu_fn_st_def lambdify_def kuu_sym_st_def)

lemma kfu_st_val: "kfu_fn_st 0 0 0 0 1 1 1 1 = 0"
  apply (simp add: kfu_fn_st_def lambdify_def kfu_sym_st_def)
  apply (simp add: kuu_sym_st_def diffs_def)
  done

lemma kff_st_val: "kff_fn_st 0 0 0 0 1 1 1 1 = 3"
  apply (simp add: kff_fn_st_def lambdify_def kff_sym_st_def)
  apply (simp add: kuu_sym_st_def diffs_def)
  done

lemma K_st_val:
  "K_st [0, 0, 0, 1] [0] [0] (1 / 10 ^ 7) = [[1 + 1 / 10 ^ 7, 0], [0, 3 + 1 / 10 ^ 7]]"
  by (simp add: K_st_def kuf_st_def kuu_st_eq kff_st_eq kfu_st_eq kuu_st_val kff_st_val
      kfu_st_val mat_defs)

lemma nlml_st_value:
  assumes "inv (K_st params x y s) = Inr K_inv"
  shows "nlml_st params x y y1 y2 s =
           Inr (sgn (det (K_st params x y s))
                + matmul (matmul [y1 @ y2] K_inv) (mat_T [y1 @ y2]) ! 0 ! 0)"
  using assms by (simp add: nlml_st_def Let_def slogdet_def tuple_plus_matrix_def item_def)

lemma chol_path_value:
  assumes "cholesky K = Inr L" "solve_triangular L (eye (2 * n)) = Inr L_inv"
  shows "chol_path n K = Inr (matmul (mat_T L_inv) L_inv, \<Sum>i<2 * n. ln \<bar>L ! i ! i\<bar>)"
  using assms by (simp add: chol_path_def Let_def for_range_sum)

subsection \<open>Determinants of diagonal matrices, and the examples\<close>


lemma det_fn_cong:
  "(\<And>i j. i < n \<Longrightarrow> j < n \<Longrightarrow> A i j = B i j) \<Longrightarrow> det_fn n A = det_fn n B"
proof (induction n arbitrary: A B)
  case 0
  then show ?case by simp
next
  case (Suc n)
  have "det_fn n (minor_fn A i) = det_fn n (minor_fn B i)" if "i < Suc n" for i
    by (rule Suc.IH) (use that Suc.prems in \<open>auto simp: minor_fn_def\<close>)
  then show ?case
    using Suc.prems by (auto intro!: sum.cong)
qed

lemma det_fn_diag:
  "det_fn (length v) (\<lambda>i j. if i = j then v ! i else 0) = prod_list v"
proof (induction v)
  case Nil
  then show ?case by simp
next
  case (Cons a w)
  let ?D = "\<lambda>i j. if i = j then (a # w) ! i else 0"
  have m: "det_fn (length w) (minor_fn ?D 0) = prod_list w"
    unfolding Cons.IH[symmetric]
    by (rule det_fn_cong) (simp add: minor_fn_def)
  have "det_fn (length (a # w)) ?D
        = (\<Sum>i<Suc (length w). (- 1) ^ i * ?D i 0 * det_fn (length w) (minor_fn ?D i))"
    by simp
  also have "\<dots> = (- 1) ^ 0 * ?D 0 0 * det_fn (length w) (minor_fn ?D 0)"
    by (subst sum.lessThan_Suc_shift) simp
  finally show ?case using m by simp
qed

lemma det_diag_mat: "det (diag_mat v) = prod_list v"
  unfolding det_def diag_mat_def length_mk_mat det_fn_diag[symmetric]
  by (rule det_fn_cong) simp

lemma inv_diag_zero: "0 \<in> set v \<Longrightarrow> inv (diag_mat v) = Inl SingularMatrix"
  by (simp add: inv_def det_diag_mat prod_list_zero_iff)


lemma kuu_ad_zero: "kuu_fn_ad 0 0 0 0 0 0 sigma 1 1 1 = sigma"
  by (simp add: kuu_fn_ad_def lambdify_def kuu_sym_ad_def)

lemma kff_ad_zero: "kff_fn_ad 0 0 0 0 0 0 sigma 1 1 1 0 0 0 0 = sigma"
  apply (simp add: kff_fn_ad_def lambdify_def kff_sym_ad_def)
  apply (simp add: kuu_sym_ad_def diffs_def)
  done

lemma kfu_ad_zero: "kfu_fn_ad 0 0 0 0 0 0 sigma 1 1 1 0 0 0 0 = 0"
  apply (simp add: kfu_fn_ad_def lambdify_def kfu_sym_ad_def)
  apply (simp add: kuu_sym_ad_def diffs_def)
  done


lemma kuu_Matern_zero: "kuu_fn_Matern 0 0 0 0 1 1 1 = 1"
  by (simp add: kuu_fn_Matern_def lambdify_def kuu_sym_Matern_def r_l_def)


subsection \<open>Entries of sums, products and blocks\<close>


lemma nrows_sq: "is_mat n m A \<Longrightarrow> nrows A = n"
  by (simp add: nrows_def is_mat_def)

lemma ncols_sq: "is_mat n n A \<Longrightarrow> ncols A = n"
  by (cases A) (auto simp: ncols_def is_mat_def)

lemma mat_add_eq: "is_mat n n A \<Longrightarrow> mat_add A B = mk_mat n n (\<lambda>i j. A ! i ! j + B ! i ! j)"
  by (simp add: mat_add_def nrows_sq ncols_sq)

lemma mat_sub_eq: "is_mat n n A \<Longrightarrow> mat_sub A B = mk_mat n n (\<lambda>i j. A ! i ! j - B ! i ! j)"
  by (simp add: mat_sub_def nrows_sq ncols_sq)

lemma mat_neg_eq: "is_mat n n A \<Longrightarrow> mat_neg A = mk_mat n n (\<lambda>i j. - (A ! i ! j))"
  by (simp add: mat_neg_def nrows_sq ncols_sq)

lemma smul_eq: "is_mat n n A \<Longrightarrow> smul c A = mk_mat n n (\<lambda>i j. c * A ! i ! j)"
  by (simp add: smul_def nrows_sq ncols_sq)

lemma mat_T_eq: "is_mat n n A \<Longrightarrow> mat_T A = mk_mat n n (\<lambda>i j. A ! j ! i)"
  by (simp add: mat_T_def nrows_sq ncols_sq)

lemma matmul_eq:
  "is_mat n n A \<Longrightarrow> is_mat n n B \<Longrightarrow> matmul A B = mk_mat n n (\<lambda>i j. \<Sum>k<n. A ! i ! k * B ! k ! j)"
  by (simp add: matmul_def nrows_sq ncols_sq)

lemma is_mat_eye [simp]: "is_mat n n (eye n)"
  by (simp add: eye_def)

lemma eye_entry: "i < n \<Longrightarrow> j < n \<Longrightarrow> eye n ! i ! j = (if i = j then 1 else 0)"
  by (simp add: eye_def)

lemma is_mat_block:
  assumes "is_mat n m a" "is_mat n p b" "is_mat q m c" "is_mat q p d"
  shows "is_mat (n + q) (m + p) (block a b c d)"
  using assms by (auto simp: is_mat_def block_def list_all_iff set_zip)

lemma block_entry:
  assumes "is_mat n m a" "is_mat n p b" "is_mat q m c" "is_mat q p d" "i < n + q" "j < m + p"
  shows "block a b c d ! i ! j =
           (if i < n then (if j < m then a ! i ! j else b ! i ! (j - m))
            else (if j < m then c ! (i - n) ! j else d ! (i - n) ! (j - m)))"
proof (cases "i < n")
  case True
  then have "block a b c d ! i = a ! i @ b ! i"
    using assms(1,2) by (simp add: block_def nth_append is_mat_def)
  moreover have "length (a ! i) = m"
    using is_mat_row[OF assms(1) True] .
  ultimately show ?thesis using True by (simp add: nth_append)
next
  case False
  then have i: "i - n < q" using assms(5) by simp
  have "block a b c d ! i = c ! (i - n) @ d ! (i - n)"
    using assms(1-4) False i by (simp add: block_def nth_append is_mat_def)
  moreover have "length (c ! (i - n)) = m"
    using is_mat_row[OF assms(3) i] .
  ultimately show ?thesis using False by (simp add: nth_append)
qed

lemma is_mat_kuu_dm [simp]: "is_mat (length x) (length x) (kuu_dm x y l_x l_y)"
  by (simp add: kuu_dm_eq)
lemma is_mat_kff_dm [simp]: "is_mat (length x) (length x) (kff_dm x y l_x l_y phi)"
  by (simp add: kff_dm_eq)
lemma is_mat_kfu_dm [simp]: "is_mat (length x) (length x) (kfu_dm x y l_x l_y phi)"
  by (simp add: kfu_dm_eq)
lemma is_mat_kuf_dm [simp]: "is_mat (length x) (length x) (kuf_dm x y l_x l_y phi)"
  by (simp add: kuf_dm_def mat_T_eq[OF is_mat_kfu_dm])

lemma add_noise_entry:
  assumes "is_mat n n A" "i < n" "j < n"
  shows "mat_add A (smul s (eye n)) ! i ! j = A ! i ! j + (if i = j then s else 0)"
  using assms by (simp add: mat_add_eq[OF assms(1)] smul_eq[OF is_mat_eye] eye_entry)

lemma is_mat_add_noise: "is_mat n n A \<Longrightarrow> is_mat n n (mat_add A (smul s (eye n)))"
  using mat_add_eq[of n A] by simp


subsection \<open>Closed forms of the derivatives of the squared-exponential kernel\<close>

lemma eval_kuu_sym_dm:
  "eval kuu_sym_dm env
   = exp (- ((env Sx_i - env Sx_j)\<^sup>2 / (2 * env Sl_x)) - (env Sy_i - env Sy_j)\<^sup>2 / (2 * env Sl_y))"
  by (simp add: kuu_sym_dm_def)

lemma d_xi_dm:
  "eval (diffs kuu_sym_dm [Sx_i]) env
   = - ((env Sx_i - env Sx_j) / env Sl_x)
     * exp (- ((env Sx_i - env Sx_j)\<^sup>2 / (2 * env Sl_x)) - (env Sy_i - env Sy_j)\<^sup>2 / (2 * env Sl_y))"
  apply (simp add: diffs_def kuu_sym_dm_def)
  apply (cases "env Sl_x = 0"; cases "env Sl_y = 0"; simp add: field_simps)
  done

lemma d_xj_dm:
  "eval (diffs kuu_sym_dm [Sx_j]) env
   = (env Sx_i - env Sx_j) / env Sl_x
     * exp (- ((env Sx_i - env Sx_j)\<^sup>2 / (2 * env Sl_x)) - (env Sy_i - env Sy_j)\<^sup>2 / (2 * env Sl_y))"
  apply (simp add: diffs_def kuu_sym_dm_def)
  apply (cases "env Sl_x = 0"; cases "env Sl_y = 0"; simp add: field_simps)
  done

lemma d_yiyi_dm:
  "eval (diffs kuu_sym_dm [Sy_i, Sy_i]) env
   = ((env Sy_i - env Sy_j)\<^sup>2 / (env Sl_y)\<^sup>2 - 1 / env Sl_y)
     * exp (- ((env Sx_i - env Sx_j)\<^sup>2 / (2 * env Sl_x)) - (env Sy_i - env Sy_j)\<^sup>2 / (2 * env Sl_y))"
  apply (simp add: diffs_def kuu_sym_dm_def)
  apply (cases "env Sl_x = 0"; cases "env Sl_y = 0"; simp add: field_simps)
     apply algebra+
  done

lemma d_yjyj_dm:
  "eval (diffs kuu_sym_dm [Sy_j, Sy_j]) env
   = ((env Sy_i - env Sy_j)\<^sup>2 / (env Sl_y)\<^sup>2 - 1 / env Sl_y)
     * exp (- ((env Sx_i - env Sx_j)\<^sup>2 / (2 * env Sl_x)) - (env Sy_i - env Sy_j)\<^sup>2 / (2 * env Sl_y))"
  apply (simp add: diffs_def kuu_sym_dm_def)
  apply (cases "env Sl_x = 0"; cases "env Sl_y = 0"; simp add: field_simps)
     apply algebra+
  done

lemma d_xixj_dm:
  "eval (diffs kuu_sym_dm [Sx_i, Sx_j]) env
   = (1 / env Sl_x - (env Sx_i - env Sx_j)\<^sup>2 / (env Sl_x)\<^sup>2)
     * exp (- ((env Sx_i - env Sx_j)\<^sup>2 / (2 * env Sl_x)) - (env Sy_i - env Sy_j)\<^sup>2 / (2 * env Sl_y))"
  apply (simp add: diffs_def kuu_sym_dm_def)
  apply (cases "env Sl_x = 0"; cases "env Sl_y = 0"; simp add: field_simps)
     apply algebra+
  done

lemma d_yiyixj_dm:
  "eval (diffs kuu_sym_dm [Sy_i, Sy_i, Sx_j]) env
   = ((env Sy_i - env Sy_j)\<^sup>2 / (env Sl_y)\<^sup>2 - 1 / env Sl_y) * ((env Sx_i - env Sx_j) / env Sl_x)
     * exp (- ((env Sx_i - env Sx_j)\<^sup>2 / (2 * env Sl_x)) - (env Sy_i - env Sy_j)\<^sup>2 / (2 * env Sl_y))"
  apply (simp add: diffs_def kuu_sym_dm_def)
  apply (cases "env Sl_x = 0"; cases "env Sl_y = 0"; simp add: field_simps)
     apply algebra+
  done

lemma d_xiyjyj_dm:
  "eval (diffs kuu_sym_dm [Sx_i, Sy_j, Sy_j]) env
   = - (((env Sy_i - env Sy_j)\<^sup>2 / (env Sl_y)\<^sup>2 - 1 / env Sl_y) * ((env Sx_i - env Sx_j) / env Sl_x))
     * exp (- ((env Sx_i - env Sx_j)\<^sup>2 / (2 * env Sl_x)) - (env Sy_i - env Sy_j)\<^sup>2 / (2 * env Sl_y))"
  apply (simp add: diffs_def kuu_sym_dm_def)
  apply (cases "env Sl_x = 0"; cases "env Sl_y = 0"; simp add: field_simps)
     apply algebra+
  done

lemma d_yiyiyjyj_dm:
  "eval (diffs kuu_sym_dm [Sy_i, Sy_i, Sy_j, Sy_j]) env
   = (3 / (env Sl_y)\<^sup>2 - 6 * (env Sy_i - env Sy_j)\<^sup>2 / (env Sl_y) ^ 3
      + (env Sy_i - env Sy_j) ^ 4 / (env Sl_y) ^ 4)
     * exp (- ((env Sx_i - env Sx_j)\<^sup>2 / (2 * env Sl_x)) - (env Sy_i - env Sy_j)\<^sup>2 / (2 * env Sl_y))"
  apply (simp add: diffs_def kuu_sym_dm_def)
  apply (cases "env Sl_x = 0"; cases "env Sl_y = 0"; simp add: field_simps)
     apply algebra+
  done

lemma kuu_fn_dm_closed:
  "kuu_fn_dm xi xj yi yj l_x l_y = exp (- ((xi - xj)\<^sup>2 / (2 * l_x)) - (yi - yj)\<^sup>2 / (2 * l_y))"
  by (simp add: kuu_fn_dm_def lambdify_def eval_kuu_sym_dm)

lemma kfu_fn_dm_closed:
  "kfu_fn_dm xi xj yi yj l_x l_y phi
   = (phi - (xi - xj) / l_x + ((yi - yj)\<^sup>2 / l_y\<^sup>2 - 1 / l_y))
     * exp (- ((xi - xj)\<^sup>2 / (2 * l_x)) - (yi - yj)\<^sup>2 / (2 * l_y))"
  by (simp add: kfu_fn_dm_def lambdify_def kfu_sym_dm_def eval_kuu_sym_dm d_xi_dm d_yiyi_dm
      algebra_simps)

lemma kff_fn_dm_closed:
  "kff_fn_dm xi xj yi yj l_x l_y phi
   = (phi\<^sup>2 + 2 * phi * ((yi - yj)\<^sup>2 / l_y\<^sup>2 - 1 / l_y) + (1 / l_x - (xi - xj)\<^sup>2 / l_x\<^sup>2)
      + (3 / l_y\<^sup>2 - 6 * (yi - yj)\<^sup>2 / l_y ^ 3 + (yi - yj) ^ 4 / l_y ^ 4))
     * exp (- ((xi - xj)\<^sup>2 / (2 * l_x)) - (yi - yj)\<^sup>2 / (2 * l_y))"
  by (simp add: kff_fn_dm_def lambdify_def kff_sym_dm_def eval_kuu_sym_dm d_xi_dm d_xj_dm
      d_yiyi_dm d_yjyj_dm d_xixj_dm d_yiyixj_dm d_xiyjyj_dm d_yiyiyjyj_dm algebra_simps)

lemma kuu_fn_dm_sym: "kuu_fn_dm xj xi yj yi l_x l_y = kuu_fn_dm xi xj yi yj l_x l_y"
  by (simp add: kuu_fn_dm_closed power2_commute[of xj xi] power2_commute[of yj yi])

lemma kff_fn_dm_sym: "kff_fn_dm xj xi yj yi l_x l_y phi = kff_fn_dm xi xj yi yj l_x l_y phi"
proof -
  have "(yj - yi) ^ 4 = (yi - yj) ^ 4"
    by algebra
  then show ?thesis
    by (simp add: kff_fn_dm_closed power2_commute[of xj xi] power2_commute[of yj yi])
qed

subsection \<open>The joint matrix entry by entry\<close>


lemma K_dm_entry:
  assumes "length x = n" "i < 2 * n" "j < 2 * n"
  shows "K_dm n x y s l_x l_y phi ! i ! j =
           (if i < n \<and> j < n then kuu_dm x y l_x l_y ! i ! j + (if i = j then s else 0)
            else if i < n then kuf_dm x y l_x l_y phi ! i ! (j - n)
            else if j < n then kfu_dm x y l_x l_y phi ! (i - n) ! j
            else kff_dm x y l_x l_y phi ! (i - n) ! (j - n) + (if i = j then s else 0))"
proof -
  have A: "is_mat n n (mat_add (kuu_dm x y l_x l_y) (smul s (eye n)))"
    using assms(1) is_mat_add_noise[OF is_mat_kuu_dm] by auto
  have D: "is_mat n n (mat_add (kff_dm x y l_x l_y phi) (smul s (eye n)))"
    using assms(1) is_mat_add_noise[OF is_mat_kff_dm] by auto
  have B: "is_mat n n (kuf_dm x y l_x l_y phi)" and C: "is_mat n n (kfu_dm x y l_x l_y phi)"
    using assms(1) is_mat_kuf_dm is_mat_kfu_dm by auto
  have uu: "is_mat n n (kuu_dm x y l_x l_y)" and ff: "is_mat n n (kff_dm x y l_x l_y phi)"
    using assms(1) is_mat_kuu_dm is_mat_kff_dm by auto
  show ?thesis
    unfolding K_dm_def
    using assms(2,3)
    by (subst block_entry[OF A B C D])
       (auto simp: add_noise_entry[OF uu] add_noise_entry[OF ff])
qed

lemma is_mat_K_dm: "length x = n \<Longrightarrow> is_mat (2 * n) (2 * n) (K_dm n x y s l_x l_y phi)"
proof -
  assume n: "length x = n"
  have "is_mat (n + n) (n + n) (K_dm n x y s l_x l_y phi)"
    unfolding K_dm_def
    by (rule is_mat_block)
       (use n is_mat_add_noise[OF is_mat_kuu_dm] is_mat_add_noise[OF is_mat_kff_dm]
          is_mat_kuf_dm is_mat_kfu_dm in auto)
  then show ?thesis by (simp add: mult_2)
qed

lemma K_ad_entry:
  assumes "length x = n" "i < 2 * n" "j < 2 * n"
  shows "K_ad n x y t sigma l_x l_y l_t a b c d s ! i ! j =
           (if i < n \<and> j < n
            then kuu_ad x y t sigma l_x l_y l_t ! i ! j + (if i = j then s else 0)
            else if i < n then kuf_ad x y t sigma l_x l_y l_t a b c d ! i ! (j - n)
            else if j < n then kfu_ad x y t sigma l_x l_y l_t a b c d ! (i - n) ! j
            else kff_ad x y t sigma l_x l_y l_t a b c d ! (i - n) ! (j - n)
                 + (if i = j then s else 0))"
proof -
  have uu: "is_mat n n (kuu_ad x y t sigma l_x l_y l_t)"
    and ff: "is_mat n n (kff_ad x y t sigma l_x l_y l_t a b c d)"
    and C: "is_mat n n (kfu_ad x y t sigma l_x l_y l_t a b c d)"
    using assms(1) by (auto simp: kuu_ad_eq kff_ad_eq kfu_ad_eq)
  have B: "is_mat n n (kuf_ad x y t sigma l_x l_y l_t a b c d)"
    unfolding kuf_ad_def mat_T_eq[OF C] by simp
  show ?thesis
    unfolding K_ad_def
    using assms(2,3)
    by (subst block_entry[OF is_mat_add_noise[OF uu] B C is_mat_add_noise[OF ff]])
       (auto simp: add_noise_entry[OF uu] add_noise_entry[OF ff])
qed

lemma kuu_dm_sym: "mat_T (kuu_dm x y l_x l_y) = kuu_dm x y l_x l_y"
  unfolding mat_T_eq[OF is_mat_kuu_dm]
  by (rule mat_eqI[of "length x" "length x"]) (simp_all add: kuu_dm_eq kuu_fn_dm_sym)

lemma kff_dm_sym: "mat_T (kff_dm x y l_x l_y phi) = kff_dm x y l_x l_y phi"
  unfolding mat_T_eq[OF is_mat_kff_dm]
  by (rule mat_eqI[of "length x" "length x"]) (simp_all add: kff_dm_eq kff_fn_dm_sym)

lemma K_dm_sym:
  assumes "length x = n"
  shows "mat_T (K_dm n x y s l_x l_y phi) = K_dm n x y s l_x l_y phi"
proof -
  note K = is_mat_K_dm[OF assms, of y s l_x l_y phi]
  have kuf: "kuf_dm x y l_x l_y phi ! i ! j = kfu_dm x y l_x l_y phi ! j ! i"
    if "i < n" "j < n" for i j
    using that assms by (simp add: kuf_dm_def mat_T_eq[OF is_mat_kfu_dm])
  have uu: "kuu_dm x y l_x l_y ! i ! j = kuu_dm x y l_x l_y ! j ! i" if "i < n" "j < n" for i j
    using that assms by (simp add: kuu_dm_eq kuu_fn_dm_sym)
  have ff: "kff_dm x y l_x l_y phi ! i ! j = kff_dm x y l_x l_y phi ! j ! i"
    if "i < n" "j < n" for i j
    using that assms by (simp add: kff_dm_eq kff_fn_dm_sym)
  show ?thesis
    unfolding mat_T_eq[OF K]
  proof (rule mat_eqI[OF _ K])
    show "is_mat (2 * n) (2 * n) (mk_mat (2 * n) (2 * n) (\<lambda>i j. K_dm n x y s l_x l_y phi ! j ! i))"
      by simp
  next
    fix i j assume ij: "i < 2 * n" "j < 2 * n"
    consider "i < n" "j < n" | "i < n" "n \<le> j" | "n \<le> i" "j < n" | "n \<le> i" "n \<le> j"
      by linarith
    then show "mk_mat (2 * n) (2 * n) (\<lambda>i j. K_dm n x y s l_x l_y phi ! j ! i) ! i ! j
               = K_dm n x y s l_x l_y phi ! i ! j"
    proof cases
      case 1
      then show ?thesis using ij uu[of i j]
        by (simp add: K_dm_entry[OF assms])
    next
      case 2
      then show ?thesis using ij kuf[of i "j - n"]
        by (simp add: K_dm_entry[OF assms])
    next
      case 3
      then show ?thesis using ij kuf[of j "i - n"]
        by (simp add: K_dm_entry[OF assms])
    next
      case 4
      then show ?thesis using ij ff[of "i - n" "j - n"]
        by (auto simp: K_dm_entry[OF assms])
    qed
  qed
qed


subsection \<open>Matrix algebra at a fixed dimension\<close>

text \<open>Operations at a fixed dimension.\<close>

lemma is_mat_ops [simp]:
  "is_mat n n (mm n A B)" "is_mat n n (ma n A B)" "is_mat n n (ms n A B)"
  "is_mat n n (mng n A)" "is_mat n n (mt n A)"
  by (simp_all add: mm_def ma_def ms_def mng_def mt_def)

lemma entry_ops:
  assumes "i < n" "j < n"
  shows "mm n A B ! i ! j = (\<Sum>k<n. A ! i ! k * B ! k ! j)"
    and "ma n A B ! i ! j = A ! i ! j + B ! i ! j"
    and "ms n A B ! i ! j = A ! i ! j - B ! i ! j"
    and "mng n A ! i ! j = - (A ! i ! j)"
    and "mt n A ! i ! j = A ! j ! i"
  using assms by (simp_all add: mm_def ma_def ms_def mng_def mt_def)

lemma to_fixed:
  assumes "is_mat n n A"
  shows "is_mat n n B \<Longrightarrow> matmul A B = mm n A B"
    and "mat_add A B = ma n A B" and "mat_sub A B = ms n A B"
    and "mat_neg A = mng n A" and "mat_T A = mt n A"
  using assms
  by (simp_all add: matmul_eq mat_add_eq mat_sub_eq mat_neg_eq mat_T_eq mm_def ma_def ms_def
      mng_def mt_def)

lemma mk_mat_cong:
  "(\<And>i j. i < r \<Longrightarrow> j < c \<Longrightarrow> f i j = g i j) \<Longrightarrow> mk_mat r c f = mk_mat r c g"
  by (simp add: mk_mat_def)

lemma mm_assoc: "mm n (mm n A B) C = mm n A (mm n B C)"
proof -
  have "(\<Sum>k<n. (\<Sum>l<n. A ! i ! l * B ! l ! k) * C ! k ! j)
        = (\<Sum>l<n. A ! i ! l * (\<Sum>k<n. B ! l ! k * C ! k ! j))" for i j
  proof -
    have "(\<Sum>k<n. (\<Sum>l<n. A ! i ! l * B ! l ! k) * C ! k ! j)
          = (\<Sum>k<n. \<Sum>l<n. A ! i ! l * (B ! l ! k * C ! k ! j))"
      by (simp add: sum_distrib_right mult.assoc)
    also have "\<dots> = (\<Sum>l<n. \<Sum>k<n. A ! i ! l * (B ! l ! k * C ! k ! j))"
      by (rule sum.swap)
    finally show ?thesis by (simp add: sum_distrib_left)
  qed
  then show ?thesis
    unfolding mm_def[of n "mm n A B"] mm_def[of n A "mm n B C"]
    by (intro mk_mat_cong) (simp add: entry_ops)
qed

lemma mm_distrib_left: "mm n A (ma n B C) = ma n (mm n A B) (mm n A C)"
  unfolding mm_def[of n A "ma n B C"] ma_def[of n "mm n A B"]
  by (intro mk_mat_cong) (simp add: entry_ops algebra_simps sum.distrib)

lemma mm_distrib_right: "mm n (ma n A B) C = ma n (mm n A C) (mm n B C)"
  unfolding mm_def[of n "ma n A B"] ma_def[of n "mm n A C"]
  by (intro mk_mat_cong) (simp add: entry_ops algebra_simps sum.distrib)

lemma mm_diff_left: "mm n A (ms n B C) = ms n (mm n A B) (mm n A C)"
  unfolding mm_def[of n A "ms n B C"] ms_def[of n "mm n A B"]
  by (intro mk_mat_cong) (simp add: entry_ops algebra_simps sum_subtractf)

lemma mm_diff_right: "mm n (ms n A B) C = ms n (mm n A C) (mm n B C)"
  unfolding mm_def[of n "ms n A B"] ms_def[of n "mm n A C"]
  by (intro mk_mat_cong) (simp add: entry_ops algebra_simps sum_subtractf)

lemma mm_neg_left: "mm n (mng n A) B = mng n (mm n A B)"
  unfolding mm_def[of n "mng n A"] mng_def[of n "mm n A B"]
  by (intro mk_mat_cong) (simp add: entry_ops sum_negf)

lemma mm_neg_right: "mm n A (mng n B) = mng n (mm n A B)"
  unfolding mm_def[of n A "mng n B"] mng_def[of n "mm n A B"]
  by (intro mk_mat_cong) (simp add: entry_ops sum_negf)

lemma mm_eye_left: "is_mat n n A \<Longrightarrow> mm n (eye n) A = A"
  by (rule mat_eqI[of n n]) (simp_all add: entry_ops eye_entry if_distrib[of "\<lambda>x. x * _"] sum.delta' cong: if_cong)

lemma mm_eye_right: "is_mat n n A \<Longrightarrow> mm n A (eye n) = A"
  by (rule mat_eqI[of n n]) (simp_all add: entry_ops eye_entry if_distrib[of "\<lambda>x. _ * x"] sum.delta cong: if_cong)

lemma mt_mm: "mt n (mm n A B) = mm n (mt n B) (mt n A)"
  unfolding mt_def[of n "mm n A B"] mm_def[of n "mt n B"]
  by (intro mk_mat_cong) (simp add: entry_ops mult.commute)

lemma mt_mt: "is_mat n n A \<Longrightarrow> mt n (mt n A) = A"
  by (rule mat_eqI[of n n]) (simp_all add: entry_ops)

lemma mt_eye [simp]: "mt n (eye n) = eye n"
  by (rule mat_eqI[of n n]) (auto simp: entry_ops eye_entry)

subsection \<open>Products, identity and transpose of block matrices\<close>

lemma sum_split_blocks:
  fixes g :: "nat \<Rightarrow> real"
  shows "(\<Sum>k<n + m. g k) = (\<Sum>k<n. g k) + (\<Sum>k<m. g (n + k))"
  by (induction m) (simp_all add: add.assoc)

lemma is_mat_zeros_sq [simp]: "is_mat n n (zeros n n)"
  by simp

lemma zeros_entry: "i < r \<Longrightarrow> j < c \<Longrightarrow> zeros r c ! i ! j = 0"
  by (simp add: zeros_def)

lemma block_entry_sq:
  assumes "is_mat n n a" "is_mat n n b" "is_mat n n c" "is_mat n n d" "i < 2 * n" "j < 2 * n"
  shows "block a b c d ! i ! j =
           (if i < n then (if j < n then a ! i ! j else b ! i ! (j - n))
            else (if j < n then c ! (i - n) ! j else d ! (i - n) ! (j - n)))"
  using block_entry[OF assms(1-4), of i j] assms(5,6) by simp

lemma is_mat_block_sq:
  assumes "is_mat n n a" "is_mat n n b" "is_mat n n c" "is_mat n n d"
  shows "is_mat (2 * n) (2 * n) (block a b c d)"
  using is_mat_block[OF assms] by (simp add: mult_2)

lemma mm_block:
  assumes "is_mat n n A" "is_mat n n B" "is_mat n n C" "is_mat n n D"
    and "is_mat n n E" "is_mat n n F" "is_mat n n G" "is_mat n n H"
  shows "mm (2 * n) (block A B C D) (block E F G H)
         = block (ma n (mm n A E) (mm n B G)) (ma n (mm n A F) (mm n B H))
                 (ma n (mm n C E) (mm n D G)) (ma n (mm n C F) (mm n D H))"
proof (rule mat_eqI[of "2 * n" "2 * n"])
  show "is_mat (2 * n) (2 * n) (mm (2 * n) (block A B C D) (block E F G H))"
    by simp
  show "is_mat (2 * n) (2 * n)
          (block (ma n (mm n A E) (mm n B G)) (ma n (mm n A F) (mm n B H))
                 (ma n (mm n C E) (mm n D G)) (ma n (mm n C F) (mm n D H)))"
    by (rule is_mat_block_sq) simp_all
next
  fix i j assume ij: "i < 2 * n" "j < 2 * n"
  note L = block_entry_sq[OF assms(1-4)]
  note R = block_entry_sq[OF assms(5-8)]
  have split: "(\<Sum>k<2 * n. g k) = (\<Sum>k<n. g k) + (\<Sum>k<n. g (n + k))" for g :: "nat \<Rightarrow> real"
    using sum_split_blocks[of g n n] by (simp add: mult_2)
  have "mm (2 * n) (block A B C D) (block E F G H) ! i ! j
        = (\<Sum>k<n. block A B C D ! i ! k * block E F G H ! k ! j)
          + (\<Sum>k<n. block A B C D ! i ! (n + k) * block E F G H ! (n + k) ! j)"
    using ij by (simp add: entry_ops split)
  also have "\<dots> = block (ma n (mm n A E) (mm n B G)) (ma n (mm n A F) (mm n B H))
                 (ma n (mm n C E) (mm n D G)) (ma n (mm n C F) (mm n D H)) ! i ! j"
    using ij
    by (subst block_entry_sq[where n = n and i = i and j = j])
       (auto simp: entry_ops L R)
  finally show "mm (2 * n) (block A B C D) (block E F G H) ! i ! j
        = block (ma n (mm n A E) (mm n B G)) (ma n (mm n A F) (mm n B H))
                 (ma n (mm n C E) (mm n D G)) (ma n (mm n C F) (mm n D H)) ! i ! j" .
qed

lemma eye_block: "eye (2 * n) = block (eye n) (zeros n n) (zeros n n) (eye n)"
proof (rule mat_eqI[of "2 * n" "2 * n"])
  show "is_mat (2 * n) (2 * n) (block (eye n) (zeros n n) (zeros n n) (eye n))"
    by (rule is_mat_block_sq) simp_all
next
  fix i j assume "i < 2 * n" "j < 2 * n"
  then show "eye (2 * n) ! i ! j = block (eye n) (zeros n n) (zeros n n) (eye n) ! i ! j"
    by (subst block_entry_sq[where n = n]) (auto simp: eye_entry zeros_entry)
qed simp

lemma mt_block:
  assumes "is_mat n n A" "is_mat n n B" "is_mat n n C" "is_mat n n D"
  shows "mt (2 * n) (block A B C D) = block (mt n A) (mt n C) (mt n B) (mt n D)"
proof (rule mat_eqI[of "2 * n" "2 * n"])
  show "is_mat (2 * n) (2 * n) (block (mt n A) (mt n C) (mt n B) (mt n D))"
    by (rule is_mat_block_sq) simp_all
next
  fix i j assume "i < 2 * n" "j < 2 * n"
  then show "mt (2 * n) (block A B C D) ! i ! j
             = block (mt n A) (mt n C) (mt n B) (mt n D) ! i ! j"
    by (subst block_entry_sq[where n = n and i = i and j = j])
       (auto simp: entry_ops block_entry_sq[OF assms])
qed simp

subsection \<open>The inverse of a symmetric block matrix\<close>

lemma mt_ma: "mt n (ma n A B) = ma n (mt n A) (mt n B)"
  unfolding mt_def[of n "ma n A B"] ma_def[of n "mt n A"]
  by (intro mk_mat_cong) (simp add: entry_ops)

lemma mt_ms: "mt n (ms n A B) = ms n (mt n A) (mt n B)"
  unfolding mt_def[of n "ms n A B"] ms_def[of n "mt n A"]
  by (intro mk_mat_cong) (simp add: entry_ops)

lemma mt_mng: "mt n (mng n A) = mng n (mt n A)"
  unfolding mt_def[of n "mng n A"] mng_def[of n "mt n A"]
  by (intro mk_mat_cong) (simp add: entry_ops)

text \<open>An inverse of a symmetric matrix is symmetric; inverses are unique.\<close>

lemma inverse_unique:
  assumes "is_mat n n X" "is_mat n n Y" "mm n X A = eye n" "mm n A Y = eye n"
  shows "X = Y"
proof -
  have "X = mm n X (mm n A Y)" using assms by (simp add: mm_eye_right)
  also have "\<dots> = mm n (mm n X A) Y" by (simp add: mm_assoc)
  also have "\<dots> = Y" using assms by (simp add: mm_eye_left)
  finally show ?thesis .
qed

lemma inverse_symmetric:
  assumes "is_mat n n A" "is_mat n n Ai" "mt n A = A" "mm n A Ai = eye n" "mm n Ai A = eye n"
  shows "mt n Ai = Ai"
proof (rule inverse_unique[of n _ _ A])
  have "mm n (mt n Ai) A = mm n (mt n Ai) (mt n A)" using assms(3) by simp
  also have "\<dots> = mt n (mm n A Ai)" by (simp add: mt_mm)
  also have "\<dots> = eye n" using assms(4) by simp
  finally show "mm n (mt n Ai) A = eye n" .
qed (use assms in simp_all)

lemma block_inverse_right:
  assumes A: "is_mat n n A" and B: "is_mat n n B" and C: "is_mat n n C"
    and Ai: "is_mat n n Ai" and Si: "is_mat n n Si"
    and AAi: "mm n A Ai = eye n"
    and SSi: "mm n (ms n C (mm n (mm n (mt n B) Ai) B)) Si = eye n"
    and symAi: "mt n Ai = Ai" and symSi: "mt n Si = Si"
    and T: "T = mm n (mm n Ai B) Si"
  shows "mm (2 * n) (block A B (mt n B) C)
           (block (ma n Ai (mm n (mm n T (mt n B)) Ai)) (mng n T) (mng n (mt n T)) Si)
         = eye (2 * n)"
proof -
  define W where "W = mm n B Si"
  define V where "V = mm n (mt n B) Ai"
  have T': "T = mm n Ai W"
    by (simp add: T W_def mm_assoc)
  have Tt: "mt n T = mm n Si V"
    by (simp add: T mt_mm symAi symSi V_def mm_assoc)
  have AT: "mm n A T = W"
    unfolding T' mm_assoc[symmetric] AAi by (simp add: mm_eye_left W_def)
  have BtT: "mm n (mt n B) T = mm n (mm n V B) Si"
    by (simp add: T V_def mm_assoc)
  have SSi': "ms n (mm n C Si) (mm n (mm n V B) Si) = eye n"
    using SSi by (simp add: mm_diff_right V_def)
  have P: "mm n (mm n T (mt n B)) Ai = mm n T V"
    by (simp add: V_def mm_assoc)
  have 1: "ma n (mm n A (ma n Ai (mm n (mm n T (mt n B)) Ai))) (mm n B (mng n (mt n T))) = eye n"
  proof -
    have a: "mm n A (ma n Ai (mm n (mm n T (mt n B)) Ai)) = ma n (eye n) (mm n W V)"
      unfolding P mm_distrib_left AAi mm_assoc[symmetric] AT ..
    have b: "mm n B (mng n (mt n T)) = mng n (mm n W V)"
      unfolding Tt mm_neg_right W_def mm_assoc ..
    show ?thesis
      unfolding a b by (rule mat_eqI[of n n]) (simp_all add: entry_ops)
  qed
  have 2: "ma n (mm n A (mng n T)) (mm n B Si) = zeros n n"
    unfolding mm_neg_right AT W_def
    by (rule mat_eqI[of n n]) (simp_all add: entry_ops zeros_entry)
  have 3: "ma n (mm n (mt n B) (ma n Ai (mm n (mm n T (mt n B)) Ai))) (mm n C (mng n (mt n T)))
           = zeros n n"
  proof -
    have a: "mm n (mt n B) (ma n Ai (mm n (mm n T (mt n B)) Ai))
             = ma n V (mm n (mm n (mm n V B) Si) V)"
      unfolding P mm_distrib_left mm_assoc[symmetric] BtT V_def[symmetric] ..
    have b: "mm n C (mng n (mt n T)) = mng n (mm n (mm n C Si) V)"
      unfolding Tt mm_neg_right mm_assoc ..
    have c: "mm n (ms n (mm n C Si) (mm n (mm n V B) Si)) V = V"
      unfolding SSi' by (simp add: mm_eye_left V_def)
    have d: "ms n (mm n (mm n C Si) V) (mm n (mm n (mm n V B) Si) V) = V"
      using c by (simp add: mm_diff_right)
    have e: "mm n (mm n C Si) V ! i ! j - mm n (mm n (mm n V B) Si) V ! i ! j = V ! i ! j"
      if "i < n" "j < n" for i j
      using arg_cong[OF d, of "\<lambda>M. M ! i ! j"] that by (simp add: entry_ops)
    show ?thesis
      unfolding a b
      by (rule mat_eqI[of n n]) (use e in \<open>simp_all add: entry_ops zeros_entry algebra_simps\<close>)
  qed
  have 4: "ma n (mm n (mt n B) (mng n T)) (mm n C Si) = eye n"
  proof -
    have e: "mm n C Si ! i ! j - mm n (mm n V B) Si ! i ! j = eye n ! i ! j"
      if "i < n" "j < n" for i j
      using arg_cong[OF SSi', of "\<lambda>M. M ! i ! j"] that by (simp add: entry_ops)
    show ?thesis
      unfolding mm_neg_right BtT
      by (rule mat_eqI[of n n]) (use e in \<open>simp_all add: entry_ops algebra_simps\<close>)
  qed
  show ?thesis
    unfolding eye_block
    by (subst mm_block) (use A B C Ai Si in \<open>simp_all add: 1 2 3 4\<close>)
qed

lemma block_inverse:
  assumes A: "is_mat n n A" and B: "is_mat n n B" and C: "is_mat n n C"
    and Ai: "is_mat n n Ai" and Si: "is_mat n n Si"
    and symA: "mt n A = A" and symC: "mt n C = C"
    and AAi: "mm n A Ai = eye n" and AiA: "mm n Ai A = eye n"
    and SSi: "mm n (ms n C (mm n (mm n (mt n B) Ai) B)) Si = eye n"
    and SiS: "mm n Si (ms n C (mm n (mm n (mt n B) Ai) B)) = eye n"
    and T: "T = mm n (mm n Ai B) Si"
    and K: "K = block A B (mt n B) C"
    and Kinv: "Kinv = block (ma n Ai (mm n (mm n T (mt n B)) Ai)) (mng n T) (mng n (mt n T)) Si"
  shows "mm (2 * n) K Kinv = eye (2 * n)" and "mm (2 * n) Kinv K = eye (2 * n)"
    and "mt (2 * n) K = K" and "mt (2 * n) Kinv = Kinv"
proof -
  let ?S = "ms n C (mm n (mm n (mt n B) Ai) B)"
  have symAi: "mt n Ai = Ai"
    by (rule inverse_symmetric[OF A Ai symA AAi AiA])
  have symS: "mt n ?S = ?S"
    using B by (simp add: mt_ms mt_mm symC symAi mt_mt mm_assoc)
  have symSi: "mt n Si = Si"
    by (rule inverse_symmetric[OF _ Si symS SSi SiS]) simp
  show r: "mm (2 * n) K Kinv = eye (2 * n)"
    unfolding K Kinv by (rule block_inverse_right[OF A B C Ai Si AAi SSi symAi symSi T])
  show symK: "mt (2 * n) K = K"
    unfolding K using A B C by (simp add: mt_block symA symC mt_mt)
  have Tt: "mt n T = mm n Si (mm n (mt n B) Ai)"
    by (simp add: T mt_mm symAi symSi mm_assoc)
  have "mt n (ma n Ai (mm n (mm n T (mt n B)) Ai)) = ma n Ai (mm n (mm n T (mt n B)) Ai)"
    using B by (simp add: mt_ma mt_mm symAi mt_mt Tt) (simp add: T mm_assoc)
  then show symKinv: "mt (2 * n) Kinv = Kinv"
    unfolding Kinv using Si by (simp add: mt_block mt_mng mt_mt symSi T)
  have "mm (2 * n) Kinv K = mm (2 * n) (mt (2 * n) Kinv) (mt (2 * n) K)"
    by (simp add: symK symKinv)
  also have "\<dots> = mt (2 * n) (mm (2 * n) K Kinv)"
    by (simp add: mt_mm)
  also have "\<dots> = eye (2 * n)"
    by (simp add: r)
  finally show "mm (2 * n) Kinv K = eye (2 * n)" .
qed

subsection \<open>The Cholesky factor\<close>

declare cholesky.simps [simp del]

text \<open>Cholesky: the factor is lower triangular with positive diagonal and reproduces the
  lower triangle of the argument.\<close>

lemma cholesky_correct:
  "is_mat n n M \<Longrightarrow> cholesky M = Inr L \<Longrightarrow>
   is_mat n n L \<and> lower_tri n L \<and> (\<forall>i<n. 0 < L ! i ! i) \<and>
   (\<forall>i<n. \<forall>j\<le>i. (\<Sum>k<n. L ! i ! k * L ! j ! k) = M ! i ! j)"
proof (induction n arbitrary: M L)
  case 0
  then show ?case by (simp add: is_mat_def cholesky.simps lower_tri_def)
next
  case (Suc m)
  from Suc.prems(1) obtain r rs where M: "M = r # rs" and rs: "length rs = m"
    by (cases M) (auto simp: is_mat_def)
  have rlen: "length r = Suc m" and rslen: "\<And>i. i < m \<Longrightarrow> length (rs ! i) = Suc m"
    using Suc.prems(1) rs by (auto simp: M is_mat_def list_all_length)
  define l11 where "l11 = sqrt (hd r)"
  define l where "l = map (\<lambda>row. hd row / l11) rs"
  define A' where "A' = mk_mat m m (\<lambda>i j. rs ! i ! Suc j - l ! i * l ! j)"
  have pos: "0 < hd r"
    using Suc.prems(2) by (auto simp: M cholesky.simps split: if_splits)
  obtain L' where L': "cholesky A' = Inr L'"
    and L: "L = (l11 # replicate m 0) # map2 (#) l L'"
    using Suc.prems(2) pos
    by (auto simp: M cholesky.simps Let_def rs l11_def l_def A'_def split: sum.splits)
  have IH: "is_mat m m L'" "lower_tri m L'" "\<And>i. i < m \<Longrightarrow> 0 < L' ! i ! i"
    "\<And>i j. i < m \<Longrightarrow> j \<le> i \<Longrightarrow> (\<Sum>k<m. L' ! i ! k * L' ! j ! k) = A' ! i ! j"
    using Suc.IH[of A' L'] L' by (auto simp: A'_def)
  have L'len: "length L' = m" "\<And>i. i < m \<Longrightarrow> length (L' ! i) = m"
    using IH(1) by (auto simp: is_mat_def list_all_length)
  have llen: "length l = m" by (simp add: l_def rs)
  have l11pos: "0 < l11" using pos by (simp add: l11_def)
  have l11sq: "l11 * l11 = hd r" using pos by (simp add: l11_def)
  have hdr: "hd r = r ! 0" using rlen by (cases r) auto
  have hdrs: "hd (rs ! i) = rs ! i ! 0" if "i < m" for i
    using rslen[OF that] by (cases "rs ! i") auto
  have li: "l ! i = rs ! i ! 0 / l11" if "i < m" for i
    using that by (simp add: l_def rs hdrs)
  have L0: "L ! 0 ! 0 = l11" "\<And>j. j < m \<Longrightarrow> L ! 0 ! Suc j = 0"
    by (simp_all add: L)
  have Ls: "L ! Suc i ! 0 = l ! i" "\<And>j. L ! Suc i ! Suc j = L' ! i ! j" if "i < m" for i
    using that by (simp_all add: L llen L'len)
  have isL: "is_mat (Suc m) (Suc m) L"
    by (auto simp: L is_mat_def list_all_length llen L'len nth_Cons split: nat.splits)
  have tri: "lower_tri (Suc m) L"
    unfolding lower_tri_def
  proof (intro allI impI)
    fix i j assume ij: "i < Suc m" "j < Suc m" "i < j"
    then obtain j' where j': "j = Suc j'" "j' < m" by (cases j) auto
    show "L ! i ! j = 0"
    proof (cases i)
      case 0
      then show ?thesis using L0(2)[OF j'(2)] j' by simp
    next
      case (Suc i')
      then have "i' < m" "i' < j'" using ij j' by auto
      then show ?thesis
        using IH(2) j' Suc Ls(2)[of i' j'] by (simp add: lower_tri_def)
    qed
  qed
  have diag: "0 < L ! i ! i" if "i < Suc m" for i
  proof (cases i)
    case 0
    then show ?thesis using L0(1) l11pos by simp
  next
    case (Suc i')
    then show ?thesis using that IH(3)[of i'] Ls(2)[of i' i'] by simp
  qed
  have prod: "(\<Sum>k<Suc m. L ! i ! k * L ! j ! k) = M ! i ! j" if "i < Suc m" "j \<le> i" for i j
  proof -
    have sp: "(\<Sum>k<Suc m. L ! i ! k * L ! j ! k)
              = L ! i ! 0 * L ! j ! 0 + (\<Sum>k<m. L ! i ! Suc k * L ! j ! Suc k)"
      by (rule sum.lessThan_Suc_shift)
    show ?thesis
    proof (cases i)
      case 0
      then have "j = 0" using that by simp
      then show ?thesis
        unfolding sp using 0 L0 l11sq hdr by (simp add: M)
    next
      case (Suc i')
      then have i': "i' < m" using that by simp
      show ?thesis
      proof (cases j)
        case 0
        then show ?thesis
          unfolding sp using Suc i' L0 Ls[OF i'] li[OF i'] l11pos by (simp add: M)
      next
        case (Suc j')
        then have j': "j' < m" "j' \<le> i'" using that \<open>i = Suc i'\<close> by auto
        have "(\<Sum>k<m. L ! i ! Suc k * L ! j ! Suc k) = A' ! i' ! j'"
          using IH(4)[OF i' j'(2)] Ls(2)[OF i'] Ls(2)[OF j'(1)] Suc \<open>i = Suc i'\<close> by simp
        also have "\<dots> = rs ! i' ! Suc j' - l ! i' * l ! j'"
          using i' j' by (simp add: A'_def)
        finally show ?thesis
          unfolding sp using Suc \<open>i = Suc i'\<close> Ls(1)[OF i'] Ls(1)[OF j'(1)] by (simp add: M)
      qed
    qed
  qed
  show ?case using isL tri diag prod by blast
qed

lemma cholesky_product:
  assumes "is_mat n n M" "mt n M = M" "cholesky M = Inr L"
  shows "mm n L (mt n L) = M"
proof (rule mat_eqI[of n n])
  note c = cholesky_correct[OF assms(1,3)]
  fix i j assume ij: "i < n" "j < n"
  have sym: "M ! i ! j = M ! j ! i"
    using arg_cong[OF assms(2), of "\<lambda>M. M ! i ! j"] ij by (simp add: entry_ops)
  have e: "mm n L (mt n L) ! a ! b = (\<Sum>k<n. L ! a ! k * L ! b ! k)" if "a < n" "b < n" for a b
    using that by (simp add: entry_ops)
  show "mm n L (mt n L) ! i ! j = M ! i ! j"
  proof (cases "j \<le> i")
    case True
    then show ?thesis using c ij e by simp
  next
    case False
    then have "i \<le> j" by simp
    then have "(\<Sum>k<n. L ! j ! k * L ! i ! k) = M ! j ! i" using c ij by simp
    then show ?thesis using sym e[OF ij] by (simp add: mult.commute)
  qed
qed (use assms in simp_all)

subsection \<open>Forward substitution and the inverse of the Cholesky path\<close>

text \<open>Forward substitution solves \<open>L X = B\<close> for the lower triangle of \<open>L\<close>.\<close>

lemma forward_subst_correct:
  assumes L: "is_mat n n L" and d: "\<And>i. i < n \<Longrightarrow> L ! i ! i \<noteq> 0" and c: "ncols B = n"
  shows "ls = drop i L \<Longrightarrow> i \<le> n \<Longrightarrow> length X = i \<Longrightarrow>
         (\<And>k. k < i \<Longrightarrow> length (X ! k) = n) \<Longrightarrow>
         (\<And>a j. a < i \<Longrightarrow> j < n \<Longrightarrow> (\<Sum>k<Suc a. L ! a ! k * X ! k ! j) = B ! a ! j) \<Longrightarrow>
         \<exists>X'. forward_subst ls B i X = Inr X' \<and> is_mat n n X' \<and>
              (\<forall>a<n. \<forall>j<n. (\<Sum>k<Suc a. L ! a ! k * X' ! k ! j) = B ! a ! j)"
proof (induction ls arbitrary: i X)
  case Nil
  then have "i = n" using L by (simp add: is_mat_def)
  then show ?case
    using Nil by (auto simp: is_mat_def list_all_length)
next
  case (Cons l ls)
  have len: "length L = n" using L by (simp add: is_mat_def)
  have i: "i < n" using Cons.prems(1,2) len
    by (metis drop_all le_neq_implies_less list.distinct(1) order_refl)
  have l: "l = L ! i" and ls: "ls = drop (Suc i) L"
    using Cons.prems(1) i len
    by (metis Cons_nth_drop_Suc list.inject)+
  let ?row = "map (\<lambda>j. (B ! i ! j - (\<Sum>k<i. l ! k * X ! k ! j)) / l ! i) [0..<ncols B]"
  let ?X = "X @ [?row]"
  have nz: "l ! i \<noteq> 0" using d[OF i] l by simp
  have step: "forward_subst (l # ls) B i X = forward_subst ls B (Suc i) ?X"
    using nz by simp
  have X1: "?X ! k = X ! k" if "k < i" for k
    using that Cons.prems(3) by (simp add: nth_append)
  have X2: "?X ! i = ?row"
    using Cons.prems(3) by (simp add: nth_append)
  have "\<exists>X'. forward_subst ls B (Suc i) ?X = Inr X' \<and> is_mat n n X' \<and>
              (\<forall>a<n. \<forall>j<n. (\<Sum>k<Suc a. L ! a ! k * X' ! k ! j) = B ! a ! j)"
  proof (rule Cons.IH[OF ls])
    show "Suc i \<le> n" using i by simp
    show "length ?X = Suc i" using Cons.prems(3) by simp
    show "length (?X ! k) = n" if "k < Suc i" for k
      using that Cons.prems(4) X1 X2 c by (cases "k = i") auto
    show "(\<Sum>k<Suc a. L ! a ! k * ?X ! k ! j) = B ! a ! j" if "a < Suc i" "j < n" for a j
    proof (cases "a = i")
      case False
      then have a: "a < i" using that by simp
      have "(\<Sum>k<Suc a. L ! a ! k * ?X ! k ! j) = (\<Sum>k<Suc a. L ! a ! k * X ! k ! j)"
        by (rule sum.cong[OF refl]) (use a X1 in auto)
      then show ?thesis using Cons.prems(5)[OF a that(2)] by simp
    next
      case True
      have "(\<Sum>k<i. L ! i ! k * ?X ! k ! j) = (\<Sum>k<i. l ! k * X ! k ! j)"
        by (rule sum.cong[OF refl]) (use X1 l in auto)
      moreover have "?X ! i ! j = (B ! i ! j - (\<Sum>k<i. l ! k * X ! k ! j)) / l ! i"
        unfolding X2 using that(2) c by simp
      ultimately show ?thesis
        using True nz l by simp
    qed
  qed
  then show ?case unfolding step .
qed

lemma solve_triangular_correct:
  assumes "is_mat n n L" "lower_tri n L" "\<And>i. i < n \<Longrightarrow> L ! i ! i \<noteq> 0" "is_mat n n B"
  shows "\<exists>X. solve_triangular L B = Inr X \<and> is_mat n n X \<and> mm n L X = B"
proof -
  have "\<exists>X'. forward_subst (drop 0 L) B 0 [] = Inr X' \<and> is_mat n n X' \<and>
              (\<forall>a<n. \<forall>j<n. (\<Sum>k<Suc a. L ! a ! k * X' ! k ! j) = B ! a ! j)"
    by (rule forward_subst_correct[OF assms(1) assms(3)])
       (use assms(4) in \<open>simp_all add: ncols_sq\<close>)
  then obtain X where X: "solve_triangular L B = Inr X" "is_mat n n X"
    and e: "\<And>a j. a < n \<Longrightarrow> j < n \<Longrightarrow> (\<Sum>k<Suc a. L ! a ! k * X ! k ! j) = B ! a ! j"
    by (auto simp: solve_triangular_def)
  have "mm n L X = B"
  proof (rule mat_eqI[of n n])
    fix i j assume ij: "i < n" "j < n"
    have "(\<Sum>k<n. L ! i ! k * X ! k ! j) = (\<Sum>k<Suc i. L ! i ! k * X ! k ! j)"
      by (rule sum.mono_neutral_right)
         (use ij assms(2) in \<open>auto simp: lower_tri_def not_less_eq\<close>)
    then show "mm n L X ! i ! j = B ! i ! j"
      using ij e by (simp add: entry_ops)
  qed (use assms(4) in simp_all)
  with X show ?thesis by blast
qed

text \<open>A lower-triangular matrix with non-zero diagonal is injective.\<close>

lemma lower_tri_injective:
  assumes L: "lower_tri n L" and d: "\<And>i. i < n \<Longrightarrow> L ! i ! i \<noteq> 0"
    and Z: "\<And>i j. i < n \<Longrightarrow> j < n \<Longrightarrow> (\<Sum>k<n. L ! i ! k * Z ! k ! j) = 0"
  shows "i < n \<Longrightarrow> j < n \<Longrightarrow> Z ! i ! j = 0"
proof (induction i rule: less_induct)
  case (less i)
  have "(\<Sum>k<n. L ! i ! k * Z ! k ! j) = (\<Sum>k\<in>{i}. L ! i ! k * Z ! k ! j)"
  proof (rule sum.mono_neutral_right)
    show "\<forall>k\<in>{..<n} - {i}. L ! i ! k * Z ! k ! j = 0"
    proof
      fix k assume k: "k \<in> {..<n} - {i}"
      show "L ! i ! k * Z ! k ! j = 0"
      proof (cases "k < i")
        case True
        then show ?thesis using less.IH[of k] less.prems k by simp
      next
        case False
        then have "i < k" using k by auto
        then show ?thesis using L less.prems k by (simp add: lower_tri_def)
      qed
    qed
  qed (use less.prems in auto)
  then have "L ! i ! i * Z ! i ! j = 0"
    using Z[OF less.prems] by simp
  then show ?case using d[OF less.prems(1)] by simp
qed

lemma triangular_left_inverse:
  assumes L: "is_mat n n L" "lower_tri n L" "\<And>i. i < n \<Longrightarrow> L ! i ! i \<noteq> 0"
    and X: "is_mat n n X" "mm n L X = eye n"
  shows "mm n X L = eye n"
proof -
  let ?Z = "ms n (mm n X L) (eye n)"
  have "mm n L ?Z = ms n (mm n (mm n L X) L) (mm n L (eye n))"
    by (simp add: mm_diff_left mm_assoc)
  also have "\<dots> = ms n L L"
    using L(1) by (simp add: X(2) mm_eye_left mm_eye_right)
  finally have z: "mm n L ?Z = ms n L L" .
  have "(\<Sum>k<n. L ! i ! k * ?Z ! k ! j) = 0" if "i < n" "j < n" for i j
    using arg_cong[OF z, of "\<lambda>M. M ! i ! j"] that by (simp add: entry_ops)
  then have "?Z ! i ! j = 0" if "i < n" "j < n" for i j
    using lower_tri_injective[OF L(2,3), of ?Z i j] that by blast
  then show ?thesis
    by (intro mat_eqI[of n n]) (simp_all add: entry_ops)
qed

text \<open>The inverse that the Cholesky path computes.\<close>

lemma chol_inv_correct:
  assumes A: "is_mat n n A" "mt n A = A" and c: "cholesky A = Inr L"
  shows "\<exists>X. solve_triangular L (eye n) = Inr X \<and> is_mat n n X \<and>
             mm n A (mm n (mt n X) X) = eye n \<and> mm n (mm n (mt n X) X) A = eye n"
proof -
  note cc = cholesky_correct[OF A(1) c]
  have L: "is_mat n n L" "lower_tri n L" "\<And>i. i < n \<Longrightarrow> L ! i ! i \<noteq> 0"
    using cc by auto
  have LLt: "mm n L (mt n L) = A"
    by (rule cholesky_product[OF A c])
  obtain X where X: "solve_triangular L (eye n) = Inr X" "is_mat n n X" "mm n L X = eye n"
    using solve_triangular_correct[OF L is_mat_eye] by blast
  have XL: "mm n X L = eye n"
    by (rule triangular_left_inverse[OF L X(2,3)])
  have LtXt: "mm n (mt n L) (mt n X) = eye n"
    using arg_cong[OF XL, of "mt n"] by (simp add: mt_mm)
  have XtLt: "mm n (mt n X) (mt n L) = eye n"
    using arg_cong[OF X(3), of "mt n"] by (simp add: mt_mm)
  have 1: "mm n A (mm n (mt n X) X) = eye n"
  proof -
    have "mm n A (mm n (mt n X) X) = mm n L (mm n (mm n (mt n L) (mt n X)) X)"
      unfolding LLt[symmetric] by (simp add: mm_assoc)
    also have "\<dots> = eye n"
      using X by (simp add: LtXt mm_eye_left)
    finally show ?thesis .
  qed
  have 2: "mm n (mm n (mt n X) X) A = eye n"
  proof -
    have "mm n (mm n (mt n X) X) A = mm n (mt n X) (mm n (mm n X L) (mt n L))"
      unfolding LLt[symmetric] by (simp add: mm_assoc)
    also have "\<dots> = eye n"
      by (simp add: XL mm_eye_left XtLt)
    finally show ?thesis .
  qed
  from X 1 2 show ?thesis by blast
qed

lemma cholesky_path_inverse:
  assumes A: "is_mat n n A" "mat_T A = A" and c: "cholesky A = Inr L"
  shows "\<exists>X. solve_triangular L (eye n) = Inr X \<and> is_mat n n (matmul (mat_T X) X) \<and>
             mat_T (matmul (mat_T X) X) = matmul (mat_T X) X \<and>
             matmul A (matmul (mat_T X) X) = eye n \<and> matmul (matmul (mat_T X) X) A = eye n \<and>
             matmul L (mat_T L) = A"
proof -
  note tf = to_fixed[where n = n]
  have s: "mt n A = A" using A by (simp add: tf)
  obtain X where X: "solve_triangular L (eye n) = Inr X" "is_mat n n X"
    "mm n A (mm n (mt n X) X) = eye n" "mm n (mm n (mt n X) X) A = eye n"
    using chol_inv_correct[OF A(1) s c] by blast
  have e: "matmul (mat_T X) X = mm n (mt n X) X"
    using X(2) by (simp add: tf)
  have L: "is_mat n n L" using cholesky_correct[OF A(1) c] by simp
  have "matmul L (mat_T L) = A"
    using L cholesky_product[OF A(1) s c] by (simp add: tf)
  moreover have "mat_T (mm n (mt n X) X) = mm n (mt n X) X"
    using X(2) by (simp add: tf mt_mm mt_mt)
  ultimately show ?thesis
    using X A(1) unfolding e by (auto simp: tf)
qed

lemma chol_or_svd_inv_cholesky:
  assumes "cholesky A = Inr L" "solve_triangular L (eye n) = Inr X"
  shows "chol_or_svd_inv svd n A = Inr (matmul (mat_T X) X)"
  using assms by (simp add: chol_or_svd_inv_def)

subsection \<open>Row operations on determinants\<close>

lemma minor_fn_upd_same: "minor_fn (M(r := w)) r = minor_fn M r"
  by (auto simp: minor_fn_def fun_eq_iff)

lemma minor_fn_upd_other:
  "i \<noteq> r \<Longrightarrow> minor_fn (M(r := w)) i
     = (minor_fn M i)((if r < i then r else r - 1) := (\<lambda>c. w (Suc c)))"
  by (auto simp: minor_fn_def fun_eq_iff)

lemma det_fn_row_linear:
  "r < n \<Longrightarrow>
   det_fn n (M(r := (\<lambda>j. a * u j + b * v j)))
   = a * det_fn n (M(r := u)) + b * det_fn n (M(r := v))"
proof (induction n arbitrary: M r u v)
  case 0
  then show ?case by simp
next
  case (Suc n)
  let ?w = "\<lambda>j. a * u j + b * v j"
  have tm: "(- 1) ^ i * (M(r := ?w)) i 0 * det_fn n (minor_fn (M(r := ?w)) i)
      = a * ((- 1) ^ i * (M(r := u)) i 0 * det_fn n (minor_fn (M(r := u)) i))
        + b * ((- 1) ^ i * (M(r := v)) i 0 * det_fn n (minor_fn (M(r := v)) i))"
    if i: "i < Suc n" for i
  proof (cases "i = r")
    case True
    then show ?thesis
      by (simp add: minor_fn_upd_same algebra_simps)
  next
    case False
    let ?r = "if r < i then r else r - 1"
    have r': "?r < n" using Suc.prems i False by auto
    have "det_fn n ((minor_fn M i)(?r := (\<lambda>c. ?w (Suc c))))
          = a * det_fn n ((minor_fn M i)(?r := (\<lambda>c. u (Suc c))))
            + b * det_fn n ((minor_fn M i)(?r := (\<lambda>c. v (Suc c))))"
      by (rule Suc.IH[OF r'])
    then show ?thesis
      using False by (simp add: minor_fn_upd_other algebra_simps)
  qed
  have "det_fn (Suc n) (M(r := ?w))
        = (\<Sum>i<Suc n. a * ((- 1) ^ i * (M(r := u)) i 0 * det_fn n (minor_fn (M(r := u)) i))
            + b * ((- 1) ^ i * (M(r := v)) i 0 * det_fn n (minor_fn (M(r := v)) i)))"
    unfolding det_fn.simps by (rule sum.cong[OF refl]) (use tm in blast)
  also have "\<dots> = a * det_fn (Suc n) (M(r := u)) + b * det_fn (Suc n) (M(r := v))"
    unfolding det_fn.simps by (simp only: sum.distrib sum_distrib_left)
  finally show ?case .
qed

lemma det_fn_adjacent_equal:
  "Suc r < n \<Longrightarrow> (\<And>j. j < n \<Longrightarrow> M r j = M (Suc r) j) \<Longrightarrow> det_fn n M = 0"
proof (induction n arbitrary: M r)
  case 0
  then show ?case by simp
next
  case (Suc n)
  have other: "det_fn n (minor_fn M i) = 0" if i: "i < Suc n" "i \<noteq> r" "i \<noteq> Suc r" for i
  proof (cases "i < r")
    case True
    then have "r - 1 < n" "Suc (r - 1) < n" using Suc.prems(1) by auto
    show ?thesis
    proof (rule Suc.IH[of "r - 1"])
      show "Suc (r - 1) < n" using True Suc.prems(1) by auto
      fix j assume "j < n"
      then show "minor_fn M i (r - 1) j = minor_fn M i (Suc (r - 1)) j"
        using True Suc.prems(2)[of "Suc j"] by (auto simp: minor_fn_def)
    qed
  next
    case False
    then have ir: "Suc r < i" using i by auto
    show ?thesis
    proof (rule Suc.IH[of r])
      show "Suc r < n" using ir i by auto
      fix j assume "j < n"
      then show "minor_fn M i r j = minor_fn M i (Suc r) j"
        using ir Suc.prems(2)[of "Suc j"] by (auto simp: minor_fn_def)
    qed
  qed
  have eqm: "det_fn n (minor_fn M r) = det_fn n (minor_fn M (Suc r))"
  proof (rule det_fn_cong)
    fix i j assume "i < n" "j < n"
    then have "M r (Suc j) = M (Suc r) (Suc j)"
      using Suc.prems(2)[of "Suc j"] by simp
    then show "minor_fn M r i j = minor_fn M (Suc r) i j"
      by (cases "i < r"; cases "i = r") (auto simp: minor_fn_def)
  qed
  let ?f = "\<lambda>i. (- 1) ^ i * M i 0 * det_fn n (minor_fn M i)"
  have "(\<Sum>i<Suc n. ?f i) = (\<Sum>i\<in>{r, Suc r}. ?f i)"
    by (rule sum.mono_neutral_right) (use Suc.prems(1) other in auto)
  also have "\<dots> = 0"
    using eqm Suc.prems(2)[of 0] by simp
  finally show ?case by simp
qed

lemma det_fn_adjacent_swap:
  assumes "Suc r < n"
  shows "det_fn n (M(r := M (Suc r), Suc r := M r)) = - det_fn n M"
proof -
  let ?a = "M r" and ?b = "M (Suc r)"
  let ?s = "\<lambda>j. 1 * ?a j + 1 * ?b j"
  let ?N = "\<lambda>u v. M(r := u, Suc r := v)"
  have r: "r < n" using assms by simp
  have eq0: "det_fn n (?N u u) = 0" for u
    by (rule det_fn_adjacent_equal[OF assms]) simp
  have sw: "?N u v = (M(Suc r := v))(r := u)" for u v
    by (rule fun_upd_twist) simp
  have 1: "det_fn n (?N ?s ?s) = det_fn n (?N ?s ?a) + det_fn n (?N ?s ?b)"
    using det_fn_row_linear[OF assms, of "M(r := ?s)" 1 ?a 1 ?b] by simp
  have 2: "det_fn n (?N ?s ?a) = det_fn n (?N ?a ?a) + det_fn n (?N ?b ?a)"
    unfolding sw using det_fn_row_linear[OF r, of "M(Suc r := ?a)" 1 ?a 1 ?b] by simp
  have 3: "det_fn n (?N ?s ?b) = det_fn n (?N ?a ?b) + det_fn n (?N ?b ?b)"
    unfolding sw using det_fn_row_linear[OF r, of "M(Suc r := ?b)" 1 ?a 1 ?b] by simp
  have 4: "?N ?a ?b = M"
    by (simp add: fun_eq_iff)
  show ?thesis
    using 1 2 3 eq0[of ?s] eq0[of ?a] eq0[of ?b] unfolding 4 by simp
qed

lemma det_fn_equal_rows:
  "r < q \<Longrightarrow> q < n \<Longrightarrow> M r = M q \<Longrightarrow> det_fn n M = 0"
proof (induction "q - r" arbitrary: q M)
  case 0
  then show ?case by simp
next
  case (Suc d)
  show ?case
  proof (cases "q = Suc r")
    case True
    show ?thesis
      by (rule det_fn_adjacent_equal[of r]) (use True Suc.prems in auto)
  next
    case False
    then obtain p where p: "q = Suc p" "r < p" using Suc.prems(1) by (cases q) auto
    let ?M = "M(p := M (Suc p), Suc p := M p)"
    have "det_fn n ?M = 0"
    proof (rule Suc.hyps(1)[of p])
      show "d = p - r" using Suc.hyps(2) p by simp
      show "r < p" by (rule p)
      show "p < n" using Suc.prems(2) p by simp
      show "?M r = ?M p" using p Suc.prems(3) by simp
    qed
    moreover have "det_fn n ?M = - det_fn n M"
      by (rule det_fn_adjacent_swap) (use Suc.prems(2) p in simp)
    ultimately show ?thesis by simp
  qed
qed

lemma det_fn_equal_rows':
  "r \<noteq> q \<Longrightarrow> r < n \<Longrightarrow> q < n \<Longrightarrow> M r = M q \<Longrightarrow> det_fn n M = 0"
  using det_fn_equal_rows[of r q n M] det_fn_equal_rows[of q r n M]
  by (cases "r < q") auto

lemma det_fn_add_row_combination:
  assumes "finite S" "r \<notin> S" "r < n" "\<And>q. q \<in> S \<Longrightarrow> q < n"
  shows "det_fn n (M(r := (\<lambda>j. M r j + (\<Sum>q\<in>S. c q * M q j)))) = det_fn n M"
  using assms(1,2,4)
proof (induction S)
  case empty
  then show ?case by simp
next
  case (insert q S)
  let ?w = "\<lambda>j. M r j + (\<Sum>q\<in>S. c q * M q j)"
  have q: "q \<noteq> r" "q < n" using insert.prems by auto
  have "(\<lambda>j. M r j + (\<Sum>q\<in>insert q S. c q * M q j)) = (\<lambda>j. 1 * ?w j + c q * M q j)"
    using insert.hyps by (simp add: fun_eq_iff)
  then have "det_fn n (M(r := (\<lambda>j. M r j + (\<Sum>q\<in>insert q S. c q * M q j))))
             = 1 * det_fn n (M(r := ?w)) + c q * det_fn n (M(r := M q))"
    by (simp only: det_fn_row_linear[OF assms(3)])
  moreover have "det_fn n (M(r := ?w)) = det_fn n M"
    by (rule insert.IH) (use insert.prems in auto)
  moreover have "det_fn n (M(r := M q)) = 0"
    by (rule det_fn_equal_rows'[of r q]) (use q assms(3) in auto)
  ultimately show ?case by (simp only: mult_1 mult_zero_right add_0_right)
qed

text \<open>Adding combinations of the first \<open>n\<close> rows to the rows below them.\<close>

lemma det_fn_eliminate_below:
  "det_fn (n + m)
     (\<lambda>i. if n \<le> i \<and> i < n + m then (\<lambda>j. M i j + (\<Sum>k<n. c i k * M k j)) else M i)
   = det_fn (n + m) M"
proof -
  let ?P = "\<lambda>t i. if n \<le> i \<and> i < n + t then (\<lambda>j. M i j + (\<Sum>k<n. c i k * M k j)) else M i"
  have "t \<le> m \<Longrightarrow> det_fn (n + m) (?P t) = det_fn (n + m) M" for t
  proof (induction t)
    case 0
    have "?P 0 = M" by (auto simp: fun_eq_iff)
    then show ?case by simp
  next
    case (Suc t)
    have step: "?P (Suc t)
        = (?P t)(n + t := (\<lambda>j. ?P t (n + t) j + (\<Sum>k\<in>{..<n}. c (n + t) k * ?P t k j)))"
      by (auto simp: fun_eq_iff)
    have "det_fn (n + m) (?P (Suc t)) = det_fn (n + m) (?P t)"
      unfolding step
      by (rule det_fn_add_row_combination) (use Suc.prems in auto)
    then show ?case using Suc by simp
  qed
  from this[of m] show ?thesis by simp
qed

text \<open>A zero block below the first \<open>n\<close> columns.\<close>

lemma det_fn_block_upper:
  assumes "\<And>i j. n \<le> i \<Longrightarrow> i < n + m \<Longrightarrow> j < n \<Longrightarrow> M i j = 0"
  shows "det_fn (n + m) M = det_fn n M * det_fn m (\<lambda>i j. M (n + i) (n + j))"
  using assms
proof (induction n arbitrary: M)
  case 0
  then show ?case by simp
next
  case (Suc n)
  let ?S = "\<lambda>i j. M (Suc n + i) (Suc n + j)"
  have minor: "det_fn (n + m) (minor_fn M i) = det_fn n (minor_fn M i) * det_fn m ?S"
    if i: "i < Suc n" for i
  proof -
    have "det_fn (n + m) (minor_fn M i)
          = det_fn n (minor_fn M i) * det_fn m (\<lambda>r c. minor_fn M i (n + r) (n + c))"
      by (rule Suc.IH) (use i Suc.prems in \<open>auto simp: minor_fn_def\<close>)
    moreover have "(\<lambda>r c. minor_fn M i (n + r) (n + c)) = ?S"
      using i by (auto simp: minor_fn_def fun_eq_iff)
    ultimately show ?thesis by simp
  qed
  let ?f = "\<lambda>i. (- 1) ^ i * M i 0 * det_fn (n + m) (minor_fn M i)"
  have "det_fn (Suc n + m) M = (\<Sum>i<Suc (n + m). ?f i)"
    by simp
  also have "\<dots> = (\<Sum>i<Suc n. ?f i)"
    by (rule sum.mono_neutral_right) (use Suc.prems in auto)
  also have "\<dots> = (\<Sum>i<Suc n. (- 1) ^ i * M i 0 * det_fn n (minor_fn M i) * det_fn m ?S)"
    by (rule sum.cong[OF refl]) (use minor in simp)
  also have "\<dots> = det_fn (Suc n) M * det_fn m ?S"
    unfolding det_fn.simps by (simp only: sum_distrib_right)
  finally show ?case .
qed

lemma det_fn_scale: "det_fn n (\<lambda>i j. c * M i j) = c ^ n * det_fn n M"
proof (induction n arbitrary: M)
  case 0
  then show ?case by simp
next
  case (Suc n)
  have "minor_fn (\<lambda>i j. c * M i j) i = (\<lambda>r k. c * minor_fn M i r k)" for i
    by (simp add: minor_fn_def)
  then have "det_fn (Suc n) (\<lambda>i j. c * M i j)
        = (\<Sum>i<Suc n. (- 1) ^ i * (c * M i 0) * (c ^ n * det_fn n (minor_fn M i)))"
    unfolding det_fn.simps using Suc.IH by simp
  also have "\<dots> = (\<Sum>i<Suc n. c ^ Suc n * ((- 1) ^ i * M i 0 * det_fn n (minor_fn M i)))"
    by (rule sum.cong[OF refl]) simp
  also have "\<dots> = c ^ Suc n * det_fn (Suc n) M"
    unfolding det_fn.simps by (simp only: sum_distrib_left)
  finally show ?case .
qed

text \<open>The determinant of a block matrix through the Schur complement.\<close>

lemma det_fn_schur:
  assumes inv: "\<And>i j. i < n \<Longrightarrow> j < n \<Longrightarrow> (\<Sum>k<n. Ai i k * A k j) = (if i = j then 1 else 0)"
  shows "det_fn (n + m) (block_fn n A B C D)
         = det_fn n A
           * det_fn m (\<lambda>i j. D i j - (\<Sum>k<n. (\<Sum>l<n. C i l * Ai l k) * B k j))"
proof -
  let ?K = "block_fn n A B C D"
  let ?c = "\<lambda>i k. - (\<Sum>l<n. C (i - n) l * Ai l k)"
  let ?K' = "\<lambda>i. if n \<le> i \<and> i < n + m then (\<lambda>j. ?K i j + (\<Sum>k<n. ?c i k * ?K k j)) else ?K i"
  let ?S = "\<lambda>i j. D i j - (\<Sum>k<n. (\<Sum>l<n. C i l * Ai l k) * B k j)"
  have CAiA: "(\<Sum>k<n. (\<Sum>l<n. C i l * Ai l k) * A k j) = C i j" if "j < n" for i j
  proof -
    have "(\<Sum>k<n. (\<Sum>l<n. C i l * Ai l k) * A k j)
          = (\<Sum>k<n. \<Sum>l<n. C i l * (Ai l k * A k j))"
      by (simp add: sum_distrib_right mult.assoc)
    also have "\<dots> = (\<Sum>l<n. \<Sum>k<n. C i l * (Ai l k * A k j))"
      by (rule sum.swap)
    also have "\<dots> = (\<Sum>l<n. C i l * (\<Sum>k<n. Ai l k * A k j))"
      by (simp add: sum_distrib_left)
    also have "\<dots> = (\<Sum>l<n. C i l * (if l = j then 1 else 0))"
      by (rule sum.cong[OF refl]) (use inv that in simp)
    also have "\<dots> = (\<Sum>l<n. if l = j then C i l else 0)"
      by (rule sum.cong[OF refl]) simp
    also have "\<dots> = C i j"
      using that by (simp add: sum.delta)
    finally show ?thesis .
  qed
  have 1: "det_fn (n + m) ?K' = det_fn (n + m) ?K"
    by (rule det_fn_eliminate_below)
  have low: "?K' i j = 0" if "n \<le> i" "i < n + m" "j < n" for i j
    using that CAiA[of j "i - n"] by (simp add: block_fn_def sum_negf sum_distrib_left)
  have 2: "det_fn (n + m) ?K' = det_fn n ?K' * det_fn m (\<lambda>i j. ?K' (n + i) (n + j))"
    by (rule det_fn_block_upper) (use low in blast)
  have 3: "det_fn n ?K' = det_fn n A"
    by (rule det_fn_cong) (simp add: block_fn_def)
  have 4: "det_fn m (\<lambda>i j. ?K' (n + i) (n + j)) = det_fn m ?S"
    by (rule det_fn_cong) (simp add: block_fn_def sum_negf algebra_simps)
  show ?thesis using 1 2 3 4 by simp
qed

subsection \<open>Determinants of scaled matrices and of block matrices\<close>

text \<open>The determinant of a scaled matrix and of a block matrix.\<close>

lemma det_smul:
  assumes "is_mat n n M"
  shows "det (smul c M) = c ^ n * det M"
proof -
  have "det (smul c M) = det_fn n (\<lambda>i j. c * M ! i ! j)"
    unfolding det_def smul_eq[OF assms]
    by (simp add: det_fn_cong[of n "\<lambda>i j. mk_mat n n (\<lambda>i j. c * M ! i ! j) ! i ! j" "\<lambda>i j. c * M ! i ! j"])
  also have "\<dots> = c ^ n * det_fn n (\<lambda>i j. M ! i ! j)"
    by (rule det_fn_scale)
  finally show ?thesis
    using assms by (simp add: det_def is_mat_def)
qed

lemma det_block_schur:
  assumes A: "is_mat n n A" and B: "is_mat n n B" and C: "is_mat n n C" and D: "is_mat n n D"
    and Ai: "is_mat n n Ai" and inv: "mm n Ai A = eye n"
  shows "det (block A B C D) = det A * det (ms n D (mm n (mm n C Ai) B))"
proof -
  have len: "length (block A B C D) = n + n"
    using is_mat_block[OF A B C D] by (simp add: is_mat_def)
  have i: "(\<Sum>k<n. (\<lambda>i j. Ai ! i ! j) i k * (\<lambda>i j. A ! i ! j) k j) = (if i = j then 1 else 0)"
    if "i < n" "j < n" for i j
    using arg_cong[OF inv, of "\<lambda>M. M ! i ! j"] that by (simp add: entry_ops eye_entry)
  have "det (block A B C D)
        = det_fn (n + n) (block_fn n (\<lambda>i j. A ! i ! j) (\<lambda>i j. B ! i ! j) (\<lambda>i j. C ! i ! j) (\<lambda>i j. D ! i ! j))"
    unfolding det_def len
    by (rule det_fn_cong) (auto simp: block_entry[OF A B C D] block_fn_def)
  also have "\<dots> = det_fn n (\<lambda>i j. A ! i ! j)
                   * det_fn n (\<lambda>i j. D ! i ! j - (\<Sum>k<n. (\<Sum>l<n. C ! i ! l * Ai ! l ! k) * B ! k ! j))"
    by (rule det_fn_schur) (use i in simp)
  also have "det_fn n (\<lambda>i j. D ! i ! j - (\<Sum>k<n. (\<Sum>l<n. C ! i ! l * Ai ! l ! k) * B ! k ! j))
             = det (ms n D (mm n (mm n C Ai) B))"
  proof -
    have l: "length (ms n D (mm n (mm n C Ai) B)) = n"
      by (simp add: ms_def)
    show ?thesis
      unfolding det_def l
      by (simp add: entry_ops cong: det_fn_cong)
  qed
  finally show ?thesis
    using A by (simp add: det_def is_mat_def)
qed

subsection \<open>Invertible matrices have non-zero determinant\<close>

text \<open>An invertible matrix has a non-zero determinant.\<close>

lemma det_fn_zero_row:
  assumes "r < n"
  shows "det_fn n (M(r := (\<lambda>j. 0))) = 0"
  using det_fn_row_linear[OF assms, of M 0 "\<lambda>j. 0" 0 "\<lambda>j. 0"] by simp

lemma det_fn_row_sum:
  assumes "finite S" "r < n"
  shows "det_fn n (M(r := (\<lambda>j. \<Sum>l\<in>S. c l * v l j))) = (\<Sum>l\<in>S. c l * det_fn n (M(r := v l)))"
  using assms(1)
proof (induction S)
  case empty
  then show ?case using det_fn_zero_row[OF assms(2), of M] by (simp add: fun_upd_def)
next
  case (insert a S)
  have "det_fn n (M(r := (\<lambda>j. \<Sum>l\<in>insert a S. c l * v l j)))
        = det_fn n (M(r := (\<lambda>j. c a * v a j + 1 * (\<Sum>l\<in>S. c l * v l j))))"
    using insert.hyps by simp
  also have "\<dots> = c a * det_fn n (M(r := v a))
                   + 1 * det_fn n (M(r := (\<lambda>j. \<Sum>l\<in>S. c l * v l j)))"
    by (rule det_fn_row_linear[OF assms(2)])
  finally show ?case
    using insert.hyps insert.IH by (simp add: fun_upd_def)
qed

lemma det_fn_swap_rows:
  assumes "r \<noteq> q" "r < n" "q < n"
  shows "det_fn n (M(r := M q, q := M r)) = - det_fn n M"
proof -
  define s where "s = (\<lambda>j. 1 * M r j + 1 * M q j)"
  have e1: "det_fn n ((M(r := s))(q := s)) = 0"
    by (rule det_fn_equal_rows'[OF assms]) (use assms(1) in simp)
  have e2: "det_fn n ((M(r := s))(q := s))
            = 1 * det_fn n ((M(r := s))(q := M r)) + 1 * det_fn n ((M(r := s))(q := M q))"
    unfolding s_def by (rule det_fn_row_linear[OF assms(3)])
  have e3: "det_fn n ((M(q := M r))(r := s))
            = 1 * det_fn n ((M(q := M r))(r := M r)) + 1 * det_fn n ((M(q := M r))(r := M q))"
    unfolding s_def by (rule det_fn_row_linear[OF assms(2)])
  have e4: "det_fn n ((M(q := M q))(r := s))
            = 1 * det_fn n ((M(q := M q))(r := M r)) + 1 * det_fn n ((M(q := M q))(r := M q))"
    unfolding s_def by (rule det_fn_row_linear[OF assms(2)])
  have t1: "(M(r := s))(q := M r) = (M(q := M r))(r := s)"
    and t2: "(M(r := s))(q := M q) = (M(q := M q))(r := s)"
    and t3: "(M(q := M r))(r := M q) = M(r := M q, q := M r)"
    and t4: "(M(q := M q))(r := M r) = M"
    using assms(1) by (auto simp: fun_eq_iff)
  have z1: "det_fn n ((M(q := M r))(r := M r)) = 0"
    by (rule det_fn_equal_rows'[OF assms]) (use assms(1) in simp)
  have z2: "det_fn n ((M(q := M q))(r := M q)) = 0"
    by (rule det_fn_equal_rows'[OF assms]) (use assms(1) in simp)
  show ?thesis
    using e1 e2 e3 e4 z1 z2 unfolding t1 t2 t3 t4 by simp
qed

lemma det_fn_rows_of_singular:
  assumes d0: "det_fn n A = 0"
  shows "(\<And>i. i < n \<Longrightarrow> f i < n) \<Longrightarrow> (\<And>i. k \<le> i \<Longrightarrow> i < n \<Longrightarrow> f i = i)
         \<Longrightarrow> det_fn n (\<lambda>i. A (f i)) = 0"
proof (induction k arbitrary: f)
  case 0
  have "det_fn n (\<lambda>i. A (f i)) = det_fn n A"
    by (rule det_fn_cong) (use 0 in simp)
  then show ?case using d0 by simp
next
  case (Suc k)
  show ?case
  proof (cases "k < n \<and> f k \<noteq> k")
    case False
    show ?thesis
    proof (rule Suc.IH)
      fix i assume "k \<le> i" "i < n"
      then show "f i = i" using False Suc.prems(2)[of i] by (cases "i = k") auto
    qed (use Suc.prems in auto)
  next
    case True
    then have k: "k < n" "f k \<noteq> k" by auto
    show ?thesis
    proof (cases "inj_on f {..<n}")
      case False
      then obtain a b where ab: "a < n" "b < n" "a \<noteq> b" "f a = f b"
        by (auto simp: inj_on_def)
      show ?thesis
        by (rule det_fn_equal_rows'[OF ab(3) ab(1,2)]) (simp add: ab(4))
    next
      case inj: True
      have into: "f i \<le> k" if "i \<le> k" for i
      proof (rule ccontr)
        assume "\<not> f i \<le> k"
        then have "k < f i" by simp
        moreover have "f i < n" using Suc.prems(1) that k by simp
        ultimately have "f (f i) = f i" using Suc.prems(2)[of "f i"] by simp
        then have "f i = i" using inj \<open>f i < n\<close> that k by (auto simp: inj_on_def)
        then show False using \<open>k < f i\<close> that by simp
      qed
      have "f ` {..k} = {..k}"
      proof (rule endo_inj_surj)
        show "inj_on f {..k}" using inj k by (auto simp: inj_on_def)
      qed (use into in auto)
      then obtain j where j: "j \<le> k" "f j = k"
        by (metis atMost_iff imageE order_refl)
      then have jk: "j < k" using k by (cases "j = k") auto
      let ?g = "f(j := f k, k := k)"
      have "det_fn n (\<lambda>i. A (?g i)) = 0"
      proof (rule Suc.IH)
        fix i assume "i < n"
        then show "?g i < n" using Suc.prems(1) k by auto
      next
        fix i assume "k \<le> i" "i < n"
        then show "?g i = i" using Suc.prems(2)[of i] jk by auto
      qed
      moreover have "(\<lambda>i. A (?g i)) = (\<lambda>i. A (f i))(j := A (f k), k := A (f j))"
        using j by (auto simp: fun_eq_iff)
      moreover have "det_fn n ((\<lambda>i. A (f i))(j := A (f k), k := A (f j))) = - det_fn n (\<lambda>i. A (f i))"
        using det_fn_swap_rows[of j k n "\<lambda>i. A (f i)"] jk k by simp
      ultimately show ?thesis by simp
    qed
  qed
qed

lemma det_fn_combinations_of_singular:
  assumes d0: "det_fn n A = 0"
  shows "k \<le> n \<Longrightarrow> (\<And>i. i < n \<Longrightarrow> f i < n)
         \<Longrightarrow> det_fn n (\<lambda>i. if i < k then (\<lambda>j. \<Sum>l<n. X i l * A l j) else A (f i)) = 0"
proof (induction k arbitrary: f)
  case 0
  show ?case
    using det_fn_rows_of_singular[OF d0, of f n] 0 by simp
next
  case (Suc k)
  let ?M = "\<lambda>f i. if i < k then (\<lambda>j. \<Sum>l<n. X i l * A l j) else A (f i)"
  have "(\<lambda>i. if i < Suc k then (\<lambda>j. \<Sum>l<n. X i l * A l j) else A (f i))
        = (?M f)(k := (\<lambda>j. \<Sum>l\<in>{..<n}. X k l * A l j))"
    by (auto simp: fun_eq_iff)
  moreover have "det_fn n ((?M f)(k := (\<lambda>j. \<Sum>l\<in>{..<n}. X k l * A l j)))
                 = (\<Sum>l\<in>{..<n}. X k l * det_fn n ((?M f)(k := A l)))"
    by (rule det_fn_row_sum) (use Suc.prems in auto)
  moreover have "det_fn n ((?M f)(k := A l)) = 0" if "l < n" for l
  proof -
    have "(?M f)(k := A l) = ?M (f(k := l))"
      by (auto simp: fun_eq_iff)
    moreover have "det_fn n (?M (f(k := l))) = 0"
      by (rule Suc.IH) (use Suc.prems that in auto)
    ultimately show ?thesis by simp
  qed
  ultimately show ?case by simp
qed

lemma det_fn_eye: "det_fn n (\<lambda>i j. if i = j then 1 else 0) = 1"
  using det_fn_diag[of "replicate n 1"]
    det_fn_cong[of n "\<lambda>i j. if i = j then replicate n 1 ! i else 0" "\<lambda>i j. if i = j then 1 else 0"]
  by simp

lemma det_fn_left_inverse:
  assumes "\<And>i j. i < n \<Longrightarrow> j < n \<Longrightarrow> (\<Sum>l<n. X i l * A l j) = (if i = j then 1 else 0)"
  shows "det_fn n A \<noteq> 0"
proof
  assume d0: "det_fn n A = 0"
  have "det_fn n (\<lambda>i. if i < n then (\<lambda>j. \<Sum>l<n. X i l * A l j) else A (id i)) = 0"
    by (rule det_fn_combinations_of_singular[OF d0]) simp_all
  moreover have "det_fn n (\<lambda>i. if i < n then (\<lambda>j. \<Sum>l<n. X i l * A l j) else A (id i))
                 = det_fn n (\<lambda>i j. if i = j then 1 else 0)"
    by (rule det_fn_cong) (use assms in simp)
  ultimately show False using det_fn_eye[of n] by simp
qed

lemma det_nonzero:
  assumes "is_mat n n A" "mm n X A = eye n"
  shows "det A \<noteq> 0"
proof -
  have "det_fn n (\<lambda>i j. A ! i ! j) \<noteq> 0"
  proof (rule det_fn_left_inverse[of n "\<lambda>i j. X ! i ! j"])
    fix i j assume "i < n" "j < n"
    then show "(\<Sum>l<n. X ! i ! l * A ! l ! j) = (if i = j then 1 else 0)"
      using arg_cong[OF assms(2), of "\<lambda>M. M ! i ! j"] by (simp add: entry_ops eye_entry)
  qed
  then show ?thesis using assms(1) by (simp add: det_def is_mat_def)
qed

subsection \<open>Quadratic forms and the assembly of the block solver\<close>

text \<open>Quadratic forms.\<close>

lemma length_vecmat: "is_mat n n M \<Longrightarrow> length (vecmat v M) = n"
  by (simp add: vecmat_def ncols_sq)

lemma vecmat_entry:
  "is_mat n n M \<Longrightarrow> j < n \<Longrightarrow> vecmat v M ! j = (\<Sum>k<length v. v ! k * M ! k ! j)"
  by (simp add: vecmat_def ncols_sq)

lemma quad_form:
  assumes "is_mat n n M" "length v = n"
  shows "vdot (vecmat v M) w = (\<Sum>j<n. \<Sum>k<n. v ! k * M ! k ! j * w ! j)"
  unfolding vdot_def length_vecmat[OF assms(1)]
  by (rule sum.cong[OF refl]) (simp add: vecmat_entry[OF assms(1)] assms(2) sum_distrib_right)

lemma quad_block:
  assumes P: "is_mat n n P" and Q: "is_mat n n Q" and R: "is_mat n n R" and S: "is_mat n n S"
    and u: "length u = n" and f: "length f = n"
  shows "vdot (vecmat (u @ f) (block P Q R S)) (u @ f)
         = vdot (vecmat u P) u + vdot (vecmat u Q) f + vdot (vecmat f R) u + vdot (vecmat f S) f"
proof -
  have K: "is_mat (n + n) (n + n) (block P Q R S)"
    by (rule is_mat_block[OF P Q R S])
  have len: "length (u @ f) = n + n" using u f by simp
  have e1: "(u @ f) ! k = u ! k" "(u @ f) ! (n + k) = f ! k" if "k < n" for k
    using that u by (simp_all add: nth_append)
  have b: "block P Q R S ! k ! j = P ! k ! j" "block P Q R S ! k ! (n + j) = Q ! k ! j"
    "block P Q R S ! (n + k) ! j = R ! k ! j" "block P Q R S ! (n + k) ! (n + j) = S ! k ! j"
    if "k < n" "j < n" for k j
    using that by (simp_all add: block_entry[OF P Q R S])
  have "vdot (vecmat (u @ f) (block P Q R S)) (u @ f)
        = (\<Sum>j<n + n. \<Sum>k<n + n. (u @ f) ! k * block P Q R S ! k ! j * (u @ f) ! j)"
    by (rule quad_form[OF K len])
  also have "\<dots> = (\<Sum>j<n. \<Sum>k<n. u ! k * P ! k ! j * u ! j)
                   + (\<Sum>j<n. \<Sum>k<n. f ! k * R ! k ! j * u ! j)
                   + ((\<Sum>j<n. \<Sum>k<n. u ! k * Q ! k ! j * f ! j)
                   + (\<Sum>j<n. \<Sum>k<n. f ! k * S ! k ! j * f ! j))"
    by (simp add: sum_split_blocks e1 b sum.distrib)
  finally show ?thesis
    by (simp add: quad_form[OF P u] quad_form[OF Q u] quad_form[OF R f] quad_form[OF S f])
qed

lemma quad_neg:
  assumes "is_mat n n T" "length u = n"
  shows "vdot (vecmat u (mng n T)) f = - vdot (vecmat u T) f"
  by (simp add: quad_form[OF is_mat_ops(4) assms(2)] quad_form[OF assms] entry_ops sum_negf)

lemma quad_neg_T:
  assumes "is_mat n n T" "length u = n" "length f = n"
  shows "vdot (vecmat f (mng n (mt n T))) u = - vdot (vecmat u T) f"
proof -
  have "vdot (vecmat f (mng n (mt n T))) u = - (\<Sum>j<n. \<Sum>k<n. f ! k * T ! j ! k * u ! j)"
    by (simp add: quad_form[OF is_mat_ops(4) assms(3)] entry_ops sum_negf)
  also have "(\<Sum>j<n. \<Sum>k<n. f ! k * T ! j ! k * u ! j) = (\<Sum>k<n. \<Sum>j<n. f ! k * T ! j ! k * u ! j)"
    by (rule sum.swap)
  also have "\<dots> = vdot (vecmat u T) f"
    by (simp add: quad_form[OF assms(1,2)] mult_ac)
  finally show ?thesis .
qed

lemma quad_vscale:
  assumes "is_mat n n T" "length u = n"
  shows "vdot (vecmat (vscale c u) T) f = c * vdot (vecmat u T) f"
proof -
  have l: "length (vscale c u) = n" using assms(2) by (simp add: vscale_def)
  have e: "vscale c u ! k = c * u ! k" if "k < n" for k
    using that assms(2) by (simp add: vscale_def)
  show ?thesis
    by (simp add: quad_form[OF assms(1) l] quad_form[OF assms] e sum_distrib_left mult_ac)
qed

text \<open>
  The assembly step shared by the block routines: from inverses of \<open>A\<close> and of the Schur
  complement to the inverse, the determinant and the quadratic form of the joint matrix.
\<close>

lemma block_solver:
  assumes A: "is_mat n n A" and B: "is_mat n n B" and C: "is_mat n n C"
    and Ai: "is_mat n n A_inv" and Si: "is_mat n n KA_inv"
    and symA: "mat_T A = A" and symC: "mat_T C = C"
    and AAi: "matmul A A_inv = eye n" and AiA: "matmul A_inv A = eye n"
    and KA: "KA = mat_sub C (matmul (matmul (mat_T B) A_inv) B)"
    and SSi: "matmul KA KA_inv = eye n" and SiS: "matmul KA_inv KA = eye n"
    and T: "T = matmul (matmul A_inv B) KA_inv"
    and K: "K = block A B (mat_T B) C"
    and Kinv: "K_inv = block (mat_add A_inv (matmul (matmul T (mat_T B)) A_inv)) (mat_neg T)
                             (mat_neg (mat_T T)) KA_inv"
  shows "is_mat (2 * n) (2 * n) K" "is_mat (2 * n) (2 * n) K_inv"
    and "matmul K K_inv = eye (2 * n)" "matmul K_inv K = eye (2 * n)"
    and "mat_T K = K"
    and "det K = det A * det KA"
    and "det A \<noteq> 0" "det KA \<noteq> 0"
    and "length u = n \<Longrightarrow> length f = n \<Longrightarrow>
         vdot (vecmat (u @ f) K_inv) (u @ f)
         = vdot (vecmat u (mat_add A_inv (matmul (matmul T (mat_T B)) A_inv))) u
           - vdot (vecmat (vscale 2 u) T) f + vdot (vecmat f KA_inv) f"
proof -
  note tf = to_fixed[where n = n]
  have Bt: "mat_T B = mt n B" using B by (simp add: tf)
  have KA': "KA = ms n C (mm n (mm n (mt n B) A_inv) B)"
    unfolding KA using A B C Ai by (simp add: tf)
  have KAm: "is_mat n n KA" unfolding KA' by simp
  have T': "T = mm n (mm n A_inv B) KA_inv"
    unfolding T using B Ai Si by (simp add: tf)
  have Tm: "is_mat n n T" unfolding T' by simp
  have K': "K = block A B (mt n B) C" using K Bt by simp
  have Kinv': "K_inv = block (ma n A_inv (mm n (mm n T (mt n B)) A_inv)) (mng n T)
                             (mng n (mt n T)) KA_inv"
    unfolding Kinv using B Ai Tm by (simp add: tf)
  have f1: "mm n A A_inv = eye n" "mm n A_inv A = eye n"
    using AAi AiA A Ai by (simp_all add: tf)
  have f2: "mm n (ms n C (mm n (mm n (mt n B) A_inv) B)) KA_inv = eye n"
    "mm n KA_inv (ms n C (mm n (mm n (mt n B) A_inv) B)) = eye n"
    using SSi SiS KAm Si unfolding KA'[symmetric] by (simp_all add: tf)
  have s: "mt n A = A" "mt n C = C" using symA symC A C by (simp_all add: tf)
  note bi = block_inverse[OF A B C Ai Si s f1 f2 T' K' Kinv']
  show Km: "is_mat (2 * n) (2 * n) K"
    unfolding K' by (rule is_mat_block_sq) (use A B C in simp_all)
  show Kim: "is_mat (2 * n) (2 * n) K_inv"
    unfolding Kinv' by (rule is_mat_block_sq) (use Si in simp_all)
  show "matmul K K_inv = eye (2 * n)" "matmul K_inv K = eye (2 * n)" "mat_T K = K"
    using bi Km Kim by (simp_all add: to_fixed[where n = "2 * n"])
  have "det (block A B (mt n B) C) = det A * det (ms n C (mm n (mm n (mt n B) A_inv) B))"
    by (rule det_block_schur[OF A B _ C Ai f1(2)]) simp
  then show "det K = det A * det KA"
    unfolding K' KA' .
  show "det A \<noteq> 0" by (rule det_nonzero[OF A f1(2)])
  show "det KA \<noteq> 0"
    by (rule det_nonzero[OF KAm]) (use f2(2) KA' in simp)
  show "vdot (vecmat (u @ f) K_inv) (u @ f)
         = vdot (vecmat u (mat_add A_inv (matmul (matmul T (mat_T B)) A_inv))) u
           - vdot (vecmat (vscale 2 u) T) f + vdot (vecmat f KA_inv) f"
    if u: "length u = n" and f: "length f = n"
  proof -
    have P: "mat_add A_inv (matmul (matmul T (mat_T B)) A_inv)
             = ma n A_inv (mm n (mm n T (mt n B)) A_inv)"
      using B Ai Tm by (simp add: tf)
    show ?thesis
      unfolding P Kinv'
      by (subst quad_block[OF _ _ _ Si u f])
         (simp_all add: quad_neg[OF Tm u] quad_neg_T[OF Tm u f] quad_vscale[OF Tm u])
  qed
qed

subsection \<open>Symbolic differentiation is differentiation\<close>

lemma if_upd_triv: "(\<lambda>a. if a = v then env v else env a) = env"
  by auto

lemma diff_sound:
  "defined e env \<Longrightarrow>
   ((\<lambda>t. eval e (\<lambda>a. if a = v then t else env a)) has_real_derivative eval (diff e v) env)
     (at (env v))"
proof (induction e)
  case (Num c)
  then show ?case by simp
next
  case (Sym s)
  then show ?case by (cases "s = v") simp_all
next
  case (Add e f)
  then show ?case by (auto intro!: derivative_eq_intros simp: if_upd_triv)
next
  case (Sub e f)
  then show ?case by (auto intro!: derivative_eq_intros simp: if_upd_triv)
next
  case (Mul e f)
  then show ?case by (auto intro!: derivative_eq_intros simp: if_upd_triv)
next
  case (Div e f)
  then have d: "((\<lambda>t. eval e (\<lambda>a. if a = v then t else env a)) has_real_derivative eval (diff e v) env) (at (env v))"
    "((\<lambda>t. eval f (\<lambda>a. if a = v then t else env a)) has_real_derivative eval (diff f v) env) (at (env v))"
    and nz: "eval f env \<noteq> 0"
    by simp_all
  have nz': "eval f (\<lambda>a. if a = v then env v else env a) \<noteq> 0"
    using nz by (simp add: if_upd_triv)
  show ?case
    using DERIV_divide[OF d nz'] by (simp add: power2_eq_square if_upd_triv)
next
  case (Pow e n)
  then have d: "((\<lambda>t. eval e (\<lambda>a. if a = v then t else env a)) has_real_derivative eval (diff e v) env) (at (env v))"
    by simp
  show ?case
    using DERIV_power[OF d, of n] by (simp add: mult_ac if_upd_triv)
next
  case (Exp e)
  then show ?case by (auto intro!: derivative_eq_intros simp: if_upd_triv)
next
  case (Sqrt e)
  then have d: "((\<lambda>t. eval e (\<lambda>a. if a = v then t else env a)) has_real_derivative eval (diff e v) env) (at (env v))"
    and pos: "0 < eval e env"
    by simp_all
  have s: "(sqrt has_real_derivative inverse (sqrt (eval e (\<lambda>a. if a = v then env v else env a))) / 2)
             (at (eval e (\<lambda>a. if a = v then env v else env a)))"
    by (rule DERIV_real_sqrt) (use pos in \<open>simp add: if_upd_triv\<close>)
  show ?case
    using DERIV_chain2[OF s d] by (simp add: field_simps if_upd_triv)
qed

subsection \<open>Expansion of a determinant along a row\<close>

text \<open>Expansion of a determinant along a row, and the adjugate.\<close>

lemma sum_skip:
  fixes g :: "nat \<Rightarrow> real"
  assumes "r \<le> m"
  shows "(\<Sum>i\<in>{..<Suc m} - {r}. g i) = (\<Sum>a<m. g (if a < r then a else Suc a))"
  by (rule sum.reindex_bij_witness[where i = "\<lambda>a. if a < r then a else Suc a"
        and j = "\<lambda>i. if i < r then i else i - 1"])
     (use assms in \<open>auto split: if_splits\<close>)

lemma det_fn_unit_row:
  "r < Suc m \<Longrightarrow> c < Suc m \<Longrightarrow>
   det_fn (Suc m) (M(r := (\<lambda>j. if j = c then 1 else 0)))
   = (- 1) ^ (r + c) * det_fn m (\<lambda>a b. M (if a < r then a else Suc a) (if b < c then b else Suc b))"
proof (induction m arbitrary: M r c)
  case 0
  then show ?case by simp
next
  case (Suc m)
  let ?e = "\<lambda>c j. if j = c then 1 else (0::real)"
  let ?N = "M(r := ?e c)"
  have r': "(if r < i then r else r - 1) < Suc m" if "i < Suc (Suc m)" "i \<noteq> r" for i
    using that Suc.prems by auto
  have expand: "det_fn (Suc (Suc m)) ?N
        = (\<Sum>i<Suc (Suc m). (- 1) ^ i * ?N i 0 * det_fn (Suc m) (minor_fn ?N i))"
    by simp
  show ?case
  proof (cases c)
    case 0
    have z: "(- 1) ^ i * ?N i 0 * det_fn (Suc m) (minor_fn ?N i) = 0"
      if "i \<in> {..<Suc (Suc m)} - {r}" for i
    proof -
      have "minor_fn ?N i = (minor_fn M i)((if r < i then r else r - 1) := (\<lambda>j. 0))"
        using that 0 by (subst minor_fn_upd_other) auto
      then have "det_fn (Suc m) (minor_fn ?N i) = 0"
        using det_fn_zero_row[OF r'[of i]] that by (simp del: det_fn.simps)
      then show ?thesis by (simp del: det_fn.simps)
    qed
    have "det_fn (Suc (Suc m)) ?N
          = (- 1) ^ r * ?N r 0 * det_fn (Suc m) (minor_fn ?N r)
            + (\<Sum>i\<in>{..<Suc (Suc m)} - {r}. (- 1) ^ i * ?N i 0 * det_fn (Suc m) (minor_fn ?N i))"
      unfolding expand by (rule sum.remove) (use Suc.prems in auto)
    also have "(\<Sum>i\<in>{..<Suc (Suc m)} - {r}. (- 1) ^ i * ?N i 0 * det_fn (Suc m) (minor_fn ?N i)) = 0"
      by (rule sum.neutral) (use z in blast)
    finally have "det_fn (Suc (Suc m)) ?N = (- 1) ^ r * ?N r 0 * det_fn (Suc m) (minor_fn ?N r)"
      by (simp only: add_0_right)
    also have "minor_fn ?N r = minor_fn M r"
      by (rule minor_fn_upd_same)
    also have "minor_fn M r = (\<lambda>a b. M (if a < r then a else Suc a) (if b < c then b else Suc b))"
      using 0 by (auto simp: minor_fn_def fun_eq_iff)
    finally show ?thesis using 0 by (simp del: det_fn.simps)
  next
    case (Suc c')
    have c': "c' < Suc m" using Suc Suc.prems by simp
    have t: "(- 1) ^ i * ?N i 0 * det_fn (Suc m) (minor_fn ?N i)
             = (- 1) ^ i * M i 0 * ((- 1) ^ ((if r < i then r else r - 1) + c')
               * det_fn m (\<lambda>a b. minor_fn M i (if a < (if r < i then r else r - 1) then a else Suc a)
                                               (if b < c' then b else Suc b)))"
      if "i \<in> {..<Suc (Suc m)} - {r}" for i
    proof -
      define r' where "r' = (if r < i then r else r - 1)"
      have e: "minor_fn ?N i = (minor_fn M i)(r' := ?e c')"
        unfolding r'_def using that Suc by (subst minor_fn_upd_other) (auto simp: fun_eq_iff)
      have Ni: "?N i 0 = M i 0" using that by simp
      have "det_fn (Suc m) ((minor_fn M i)(r' := ?e c'))
            = (- 1) ^ (r' + c')
              * det_fn m (\<lambda>a b. minor_fn M i (if a < r' then a else Suc a) (if b < c' then b else Suc b))"
        by (rule Suc.IH[OF _ c']) (use r'[of i] that in \<open>simp add: r'_def\<close>)
      then show ?thesis
        unfolding e Ni by (simp only: r'_def)
    qed
    have "det_fn (Suc (Suc m)) ?N
          = (\<Sum>i\<in>{..<Suc (Suc m)} - {r}. (- 1) ^ i * ?N i 0 * det_fn (Suc m) (minor_fn ?N i))"
      unfolding expand
      by (rule sum.mono_neutral_right) (use Suc in \<open>auto simp del: det_fn.simps\<close>)
    also have "\<dots> = (\<Sum>i\<in>{..<Suc (Suc m)} - {r}. (- 1) ^ i * M i 0 * ((- 1) ^ ((if r < i then r else r - 1) + c')
               * det_fn m (\<lambda>a b. minor_fn M i (if a < (if r < i then r else r - 1) then a else Suc a)
                                               (if b < c' then b else Suc b))))"
      by (rule sum.cong[OF refl t])
    also have "\<dots> = (\<Sum>a<Suc m. (- 1) ^ (if a < r then a else Suc a) * M (if a < r then a else Suc a) 0
               * ((- 1) ^ ((if r < (if a < r then a else Suc a) then r else r - 1) + c')
               * det_fn m (\<lambda>p q. minor_fn M (if a < r then a else Suc a)
                    (if p < (if r < (if a < r then a else Suc a) then r else r - 1) then p else Suc p)
                    (if q < c' then q else Suc q))))"
      by (rule sum_skip) (use Suc.prems in simp)
    also have "\<dots> = (\<Sum>a<Suc m. (- 1) ^ (r + c) * ((- 1) ^ a * M (if a < r then a else Suc a) 0
               * det_fn m (minor_fn (\<lambda>a b. M (if a < r then a else Suc a) (if b < c then b else Suc b)) a)))"
    proof (rule sum.cong[OF refl])
      fix a assume "a \<in> {..<Suc m}"
      have m: "(\<lambda>p q. minor_fn M (if a < r then a else Suc a)
                    (if p < (if r < (if a < r then a else Suc a) then r else r - 1) then p else Suc p)
                    (if q < c' then q else Suc q))
               = minor_fn (\<lambda>a b. M (if a < r then a else Suc a) (if b < c then b else Suc b)) a"
        using Suc by (auto simp: minor_fn_def fun_eq_iff intro!: arg_cong2[where f = M])
      have s: "(- 1 :: real) ^ (if a < r then a else Suc a)
                 * (- 1) ^ ((if r < (if a < r then a else Suc a) then r else r - 1) + c')
               = (- 1) ^ (r + c) * (- 1) ^ a"
      proof (cases "a < r")
        case True
        then obtain k where k: "r = Suc k" by (cases r) auto
        show ?thesis using True Suc k by (simp add: power_add)
      next
        case False
        then show ?thesis using Suc by (simp add: power_add)
      qed
      show "(- 1) ^ (if a < r then a else Suc a) * M (if a < r then a else Suc a) 0
               * ((- 1) ^ ((if r < (if a < r then a else Suc a) then r else r - 1) + c')
               * det_fn m (\<lambda>p q. minor_fn M (if a < r then a else Suc a)
                    (if p < (if r < (if a < r then a else Suc a) then r else r - 1) then p else Suc p)
                    (if q < c' then q else Suc q)))
            = (- 1) ^ (r + c) * ((- 1) ^ a * M (if a < r then a else Suc a) 0
               * det_fn m (minor_fn (\<lambda>a b. M (if a < r then a else Suc a) (if b < c then b else Suc b)) a))"
        unfolding m using s by (simp add: mult_ac del: det_fn.simps)
    qed
    also have "\<dots> = (- 1) ^ (r + c) * (\<Sum>a<Suc m. (- 1) ^ a * M (if a < r then a else Suc a) 0
               * det_fn m (minor_fn (\<lambda>a b. M (if a < r then a else Suc a) (if b < c then b else Suc b)) a))"
      by (simp only: sum_distrib_left)
    also have "(\<Sum>a<Suc m. (- 1) ^ a * M (if a < r then a else Suc a) 0
               * det_fn m (minor_fn (\<lambda>a b. M (if a < r then a else Suc a) (if b < c then b else Suc b)) a))
             = det_fn (Suc m) (\<lambda>a b. M (if a < r then a else Suc a) (if b < c then b else Suc b))"
      unfolding det_fn.simps(2) by (rule sum.cong[OF refl]) (use Suc in simp)
    finally show ?thesis .
  qed
qed

lemma det_fn_laplace_row:
  assumes "r < Suc m"
  shows "det_fn (Suc m) M
         = (\<Sum>c<Suc m. M r c * ((- 1) ^ (r + c)
              * det_fn m (\<lambda>a b. M (if a < r then a else Suc a) (if b < c then b else Suc b))))"
proof -
  let ?e = "\<lambda>c j. if j = c then 1 else (0::real)"
  have "det_fn (Suc m) M = det_fn (Suc m) (M(r := (\<lambda>j. \<Sum>c\<in>{..<Suc m}. M r c * ?e c j)))"
  proof (rule det_fn_cong)
    fix i j assume ij: "i < Suc m" "j < Suc m"
    have "(\<Sum>c\<in>{..<Suc m}. M r c * ?e c j) = M r j"
      using ij(2) by (simp add: if_distrib[of "\<lambda>x. _ * x"] sum.delta del: sum.lessThan_Suc cong: if_cong)
    then show "M i j = (M(r := (\<lambda>j. \<Sum>c\<in>{..<Suc m}. M r c * ?e c j))) i j"
      by (simp del: sum.lessThan_Suc)
  qed
  also have "\<dots> = (\<Sum>c\<in>{..<Suc m}. M r c * det_fn (Suc m) (M(r := ?e c)))"
    by (rule det_fn_row_sum) (use assms in simp_all)
  also have "\<dots> = (\<Sum>c<Suc m. M r c * ((- 1) ^ (r + c)
              * det_fn m (\<lambda>a b. M (if a < r then a else Suc a) (if b < c then b else Suc b))))"
    by (rule sum.cong[OF refl]) (use assms in \<open>simp only: det_fn_unit_row lessThan_iff\<close>)
  finally show ?thesis .
qed

lemma det_fn_adjugate:
  assumes "i < Suc m" "j < Suc m"
  shows "(\<Sum>c<Suc m. M i c * ((- 1) ^ (j + c)
              * det_fn m (\<lambda>a b. M (if a < j then a else Suc a) (if b < c then b else Suc b))))
         = (if i = j then det_fn (Suc m) M else 0)"
proof (cases "i = j")
  case True
  then show ?thesis using det_fn_laplace_row[OF assms(2), of M]
    by (simp del: sum.lessThan_Suc det_fn.simps)
next
  case False
  let ?N = "M(j := M i)"
  have "det_fn (Suc m) ?N = 0"
    by (rule det_fn_equal_rows'[OF False assms]) (use False in simp)
  moreover have "det_fn (Suc m) ?N
         = (\<Sum>c<Suc m. ?N j c * ((- 1) ^ (j + c)
              * det_fn m (\<lambda>a b. ?N (if a < j then a else Suc a) (if b < c then b else Suc b))))"
    by (rule det_fn_laplace_row[OF assms(2)])
  moreover have "(\<lambda>a b. ?N (if a < j then a else Suc a) (if b < c then b else Suc b))
                 = (\<lambda>a b. M (if a < j then a else Suc a) (if b < c then b else Suc b))" for c
    by (auto simp: fun_eq_iff)
  ultimately show ?thesis using False by (simp del: sum.lessThan_Suc det_fn.simps)
qed

text \<open>The derivative of a determinant (Jacobi's formula).\<close>

lemma det_fn_has_derivative:
  "(\<And>i j. i < n \<Longrightarrow> j < n \<Longrightarrow> ((\<lambda>t. M t i j) has_real_derivative M' i j) (at t0)) \<Longrightarrow>
   ((\<lambda>t. det_fn n (M t)) has_real_derivative (\<Sum>r<n. det_fn n ((M t0)(r := M' r)))) (at t0)"
proof (induction n arbitrary: M M')
  case 0
  then show ?case by simp
next
  case (Suc n)
  let ?sk = "\<lambda>i a. if a < i then a else Suc a"
  have minor: "((\<lambda>t. minor_fn (M t) i a b) has_real_derivative minor_fn M' i a b) (at t0)"
    if "i < Suc n" "a < n" "b < n" for i a b
    unfolding minor_fn_def using that by (intro Suc.prems) auto
  have IH: "((\<lambda>t. det_fn n (minor_fn (M t) i)) has_real_derivative
             (\<Sum>r<n. det_fn n ((minor_fn (M t0) i)(r := minor_fn M' i r)))) (at t0)"
    if "i < Suc n" for i
    by (rule Suc.IH) (rule minor[OF that])
  have d: "((\<lambda>t. det_fn (Suc n) (M t)) has_real_derivative
         (\<Sum>i<Suc n. (- 1) ^ i * (M' i 0 * det_fn n (minor_fn (M t0) i)
             + M t0 i 0 * (\<Sum>r<n. det_fn n ((minor_fn (M t0) i)(r := minor_fn M' i r)))))) (at t0)"
    unfolding det_fn.simps(2)
    by (rule derivative_eq_intros refl Suc.prems IH | simp del: sum.lessThan_Suc | simp add: algebra_simps del: sum.lessThan_Suc)+
  have "(\<Sum>r<Suc n. det_fn (Suc n) ((M t0)(r := M' r)))
        = (\<Sum>i<Suc n. (- 1) ^ i * (M' i 0 * det_fn n (minor_fn (M t0) i)
             + M t0 i 0 * (\<Sum>r<n. det_fn n ((minor_fn (M t0) i)(r := minor_fn M' i r)))))"
  proof -
    let ?T = "\<lambda>r i. (- 1) ^ i * ((M t0)(r := M' r)) i 0 * det_fn n (minor_fn ((M t0)(r := M' r)) i)"
    have "(\<Sum>r<Suc n. det_fn (Suc n) ((M t0)(r := M' r))) = (\<Sum>r<Suc n. \<Sum>i<Suc n. ?T r i)"
      unfolding det_fn.simps(2) ..
    also have "\<dots> = (\<Sum>i<Suc n. \<Sum>r<Suc n. ?T r i)"
      by (rule sum.swap)
    also have "\<dots> = (\<Sum>i<Suc n. (- 1) ^ i * (M' i 0 * det_fn n (minor_fn (M t0) i)
             + M t0 i 0 * (\<Sum>r<n. det_fn n ((minor_fn (M t0) i)(r := minor_fn M' i r)))))"
    proof (rule sum.cong[OF refl])
      fix i assume "i \<in> {..<Suc n}"
      then have i: "i < Suc n" by simp
      have "(\<Sum>r<Suc n. ?T r i) = ?T i i + (\<Sum>r\<in>{..<Suc n} - {i}. ?T r i)"
        by (rule sum.remove) (use i in auto)
      also have "?T i i = (- 1) ^ i * (M' i 0 * det_fn n (minor_fn (M t0) i))"
        by (simp add: minor_fn_upd_same)
      also have "(\<Sum>r\<in>{..<Suc n} - {i}. ?T r i)
                 = (\<Sum>r\<in>{..<Suc n} - {i}. (- 1) ^ i * M t0 i 0
                      * det_fn n ((minor_fn (M t0) i)((if r < i then r else r - 1) := (\<lambda>c. M' r (Suc c)))))"
        by (rule sum.cong[OF refl]) (simp add: minor_fn_upd_other)
      also have "\<dots> = (\<Sum>a<n. (- 1) ^ i * M t0 i 0
                      * det_fn n ((minor_fn (M t0) i)((if ?sk i a < i then ?sk i a else ?sk i a - 1)
                            := (\<lambda>c. M' (?sk i a) (Suc c)))))"
        by (rule sum_skip) (use i in simp)
      also have "\<dots> = (\<Sum>a<n. (- 1) ^ i * M t0 i 0
                      * det_fn n ((minor_fn (M t0) i)(a := minor_fn M' i a)))"
        by (rule sum.cong[OF refl]) (auto simp: minor_fn_def)
      finally have e: "(\<Sum>r<Suc n. ?T r i)
            = (- 1) ^ i * (M' i 0 * det_fn n (minor_fn (M t0) i))
              + (\<Sum>a<n. (- 1) ^ i * M t0 i 0
                      * det_fn n ((minor_fn (M t0) i)(a := minor_fn M' i a)))" .
      have g: "s * P + (\<Sum>a<n. s * Q * D a) = s * (P + Q * (\<Sum>r<n. D r))"
        for s P Q :: real and D :: "nat \<Rightarrow> real"
        by (simp add: algebra_simps sum_distrib_left)
      show "(\<Sum>r<Suc n. ?T r i)
            = (- 1) ^ i * (M' i 0 * det_fn n (minor_fn (M t0) i)
             + M t0 i 0 * (\<Sum>r<n. det_fn n ((minor_fn (M t0) i)(r := minor_fn M' i r))))"
        unfolding e by (rule g)
    qed
    finally show ?thesis .
  qed
  with d show ?case by (simp only:)
qed

text \<open>With a left inverse of the matrix, the derivative is \<open>det M * tr(M' M\<^sup>-\<^sup>1)\<close>.\<close>

lemma det_fn_replace_row_trace:
  assumes inv: "\<And>i j. i < n \<Longrightarrow> j < n \<Longrightarrow> (\<Sum>l<n. Mi i l * M l j) = (if i = j then 1 else 0)"
  shows "(\<Sum>r<n. det_fn n (M(r := M' r))) = det_fn n M * (\<Sum>r<n. \<Sum>k<n. M' r k * Mi k r)"
proof -
  have "det_fn n (M(r := M' r)) = (\<Sum>k<n. M' r k * Mi k r) * det_fn n M" if r: "r < n" for r
  proof -
    let ?c = "\<lambda>l. \<Sum>k<n. M' r k * Mi k l"
    have "det_fn n (M(r := M' r)) = det_fn n (M(r := (\<lambda>j. \<Sum>l\<in>{..<n}. ?c l * M l j)))"
    proof (rule det_fn_cong)
      fix i j assume ij: "i < n" "j < n"
      have "(\<Sum>l<n. ?c l * M l j) = (\<Sum>l<n. \<Sum>k<n. M' r k * (Mi k l * M l j))"
        by (simp add: sum_distrib_right mult.assoc)
      also have "\<dots> = (\<Sum>k<n. \<Sum>l<n. M' r k * (Mi k l * M l j))"
        by (rule sum.swap)
      also have "\<dots> = (\<Sum>k<n. M' r k * (if k = j then 1 else 0))"
        by (rule sum.cong[OF refl]) (use inv ij in \<open>simp add: sum_distrib_left[symmetric]\<close>)
      also have "\<dots> = M' r j"
        using ij by (simp add: if_distrib[of "\<lambda>x. _ * x"] sum.delta cong: if_cong)
      finally show "(M(r := M' r)) i j = (M(r := (\<lambda>j. \<Sum>l\<in>{..<n}. ?c l * M l j))) i j"
        by simp
    qed
    also have "\<dots> = (\<Sum>l\<in>{..<n}. ?c l * det_fn n (M(r := M l)))"
      by (rule det_fn_row_sum) (use r in simp_all)
    also have "\<dots> = ?c r * det_fn n (M(r := M r)) + (\<Sum>l\<in>{..<n} - {r}. ?c l * det_fn n (M(r := M l)))"
      by (rule sum.remove) (use r in auto)
    also have "(\<Sum>l\<in>{..<n} - {r}. ?c l * det_fn n (M(r := M l))) = 0"
    proof (rule sum.neutral, rule ballI)
      fix l assume l: "l \<in> {..<n} - {r}"
      have "det_fn n (M(r := M l)) = 0"
        by (rule det_fn_equal_rows'[of r l]) (use l r in auto)
      then show "?c l * det_fn n (M(r := M l)) = 0" by simp
    qed
    finally show ?thesis by (simp only: fun_upd_triv add_0_right)
  qed
  then show ?thesis
    by (simp add: sum_distrib_left mult.commute)
qed

subsection \<open>The adjugate inverse\<close>

text \<open>The adjugate inverse as a function of a parameter.\<close>

lemma adj_inv_right:
  assumes "det_fn n M \<noteq> 0" "i < n" "j < n"
  shows "(\<Sum>c<n. M i c * adj_inv n M c j) = (if i = j then 1 else 0)"
proof -
  obtain m where n: "n = Suc m" using assms(2) by (cases n) auto
  have "(\<Sum>c<n. M i c * adj_inv n M c j)
        = (\<Sum>c<Suc m. M i c * ((- 1) ^ (j + c)
              * det_fn m (\<lambda>a b. M (if a < j then a else Suc a) (if b < c then b else Suc b))))
          / det_fn n M"
    unfolding adj_inv_def n by (simp add: sum_divide_distrib del: sum.lessThan_Suc det_fn.simps)
  also have "\<dots> = (if i = j then det_fn (Suc m) M else 0) / det_fn n M"
    using assms(2,3) unfolding n by (subst det_fn_adjugate) simp_all
  finally show ?thesis using assms(1) n by (simp del: det_fn.simps)
qed

lemma adj_inv_unique:
  assumes inv: "\<And>i j. i < n \<Longrightarrow> j < n \<Longrightarrow> (\<Sum>l<n. Mi i l * M l j) = (if i = j then 1 else 0)"
    and ij: "i < n" "j < n"
  shows "adj_inv n M i j = Mi i j"
proof -
  have nz: "det_fn n M \<noteq> 0"
    by (rule det_fn_left_inverse[of n Mi]) (rule inv)
  let ?G = "adj_inv n M"
  have "Mi i j = (\<Sum>l<n. Mi i l * (if l = j then 1 else 0))"
    using ij by (simp add: if_distrib[of "\<lambda>x. _ * x"] sum.delta cong: if_cong)
  also have "\<dots> = (\<Sum>l<n. Mi i l * (\<Sum>c<n. M l c * ?G c j))"
    by (rule sum.cong[OF refl]) (use adj_inv_right[OF nz _ ij(2)] in simp)
  also have "\<dots> = (\<Sum>l<n. \<Sum>c<n. Mi i l * M l c * ?G c j)"
    by (simp add: sum_distrib_left mult.assoc)
  also have "\<dots> = (\<Sum>c<n. \<Sum>l<n. Mi i l * M l c * ?G c j)"
    by (rule sum.swap)
  also have "\<dots> = (\<Sum>c<n. (if i = c then 1 else 0) * ?G c j)"
    by (rule sum.cong[OF refl]) (use inv[OF ij(1)] in \<open>simp add: sum_distrib_right[symmetric]\<close>)
  also have "\<dots> = ?G i j"
    using ij by (simp add: if_distrib[of "\<lambda>x. x * _"] sum.delta' cong: if_cong)
  finally show ?thesis ..
qed

lemma eventually_nhds_neq_zero:
  fixes g :: "real \<Rightarrow> real"
  assumes "(g has_real_derivative D) (at t0)" "g t0 \<noteq> 0"
  shows "eventually (\<lambda>t. g t \<noteq> 0) (nhds t0)"
proof -
  have "isCont g t0" using assms(1) by (rule DERIV_isCont)
  then have "(g \<longlongrightarrow> g t0) (at t0)" by (simp add: isCont_def)
  then have "eventually (\<lambda>t. g t \<noteq> 0) (at t0)"
    by (rule tendsto_imp_eventually_ne) (rule assms(2))
  then have "eventually (\<lambda>t. t \<noteq> t0 \<longrightarrow> g t \<noteq> 0) (nhds t0)"
    by (simp add: eventually_at_filter)
  then show ?thesis
    by (rule eventually_mono) (use assms(2) in auto)
qed

lemma adj_inv_has_derivative:
  assumes d: "\<And>i j. i < n \<Longrightarrow> j < n \<Longrightarrow> ((\<lambda>t. K t i j) has_real_derivative K' i j) (at t0)"
    and nz: "det_fn n (K t0) \<noteq> 0" and ij: "i < n" "j < n"
  shows "\<exists>D. ((\<lambda>t. adj_inv n (K t) i j) has_real_derivative D) (at t0)"
proof -
  obtain m where n: "n = Suc m" using ij(1) by (cases n) auto
  let ?sk = "\<lambda>i a. if a < i then a else Suc a"
  have c: "((\<lambda>t. det_fn m (\<lambda>a b. K t (?sk j a) (?sk i b))) has_real_derivative
            (\<Sum>r<m. det_fn m ((\<lambda>a b. K t0 (?sk j a) (?sk i b))(r := (\<lambda>b. K' (?sk j r) (?sk i b))))))
           (at t0)"
    by (rule det_fn_has_derivative[where M' = "\<lambda>a b. K' (?sk j a) (?sk i b)"])
       (rule d, simp_all add: n)
  have dd: "((\<lambda>t. det_fn n (K t)) has_real_derivative (\<Sum>r<n. det_fn n ((K t0)(r := K' r)))) (at t0)"
    by (rule det_fn_has_derivative) (rule d)
  show ?thesis
    unfolding adj_inv_def n diff_Suc_1
    using DERIV_divide[OF DERIV_cmult[OF c, of "(- 1) ^ (j + i)"] dd[unfolded n] nz[unfolded n]]
    by blast
qed

subsection \<open>Derivatives of the inverse and of the scaled determinant\<close>

lemma sum_delta_left:
  fixes g :: "nat \<Rightarrow> real"
  shows "i < n \<Longrightarrow> (\<Sum>c<n. (if i = c then 1 else 0) * g c) = g i"
  by (simp add: if_distrib[of "\<lambda>x. x * _"] sum.delta' cong: if_cong)

lemma adj_inv_derivative:
  assumes d: "\<And>i j. i < n \<Longrightarrow> j < n \<Longrightarrow> ((\<lambda>t. K t i j) has_real_derivative K' i j) (at t0)"
    and inv: "\<And>i j. i < n \<Longrightarrow> j < n \<Longrightarrow> (\<Sum>l<n. Ki i l * K t0 l j) = (if i = j then 1 else 0)"
    and ij: "i < n" "j < n"
  shows "((\<lambda>t. adj_inv n (K t) i j) has_real_derivative
          - (\<Sum>a<n. \<Sum>b<n. Ki i a * K' a b * Ki b j)) (at t0)"
proof -
  let ?G = "\<lambda>t. adj_inv n (K t)"
  have nz: "det_fn n (K t0) \<noteq> 0"
    by (rule det_fn_left_inverse[of n Ki]) (rule inv)
  have G0: "?G t0 a b = Ki a b" if "a < n" "b < n" for a b
    by (rule adj_inv_unique[OF inv that])
  define D where "D a b = (SOME D. ((\<lambda>t. ?G t a b) has_real_derivative D) (at t0))" for a b
  have D: "((\<lambda>t. ?G t a b) has_real_derivative D a b) (at t0)" if "a < n" "b < n" for a b
    unfolding D_def by (rule someI_ex) (rule adj_inv_has_derivative[OF d nz that])
  have dd: "((\<lambda>t. det_fn n (K t)) has_real_derivative (\<Sum>r<n. det_fn n ((K t0)(r := K' r)))) (at t0)"
    by (rule det_fn_has_derivative) (rule d)
  have ev: "eventually (\<lambda>t. det_fn n (K t) \<noteq> 0) (nhds t0)"
    by (rule eventually_nhds_neq_zero[OF dd nz])
  have E1: "(\<Sum>c<n. K' b c * Ki c j + K t0 b c * D c j) = 0" if b: "b < n" for b
  proof -
    have m: "((\<lambda>t. K t b c * ?G t c j) has_real_derivative
              K' b c * ?G t0 c j + K t0 b c * D c j) (at t0)" if "c < n" for c
      using DERIV_mult[OF d[OF b that] D[OF that ij(2)]] by (simp add: mult.commute)
    have 1: "((\<lambda>t. \<Sum>c<n. K t b c * ?G t c j) has_real_derivative
              (\<Sum>c<n. K' b c * ?G t0 c j + K t0 b c * D c j)) (at t0)"
      by (rule DERIV_sum) (use m in simp)
    have "eventually (\<lambda>t. (\<Sum>c<n. K t b c * ?G t c j) = (if b = j then 1 else 0)) (nhds t0)"
      by (rule eventually_mono[OF ev]) (rule adj_inv_right[OF _ b ij(2)])
    then have "((\<lambda>t. \<Sum>c<n. K t b c * ?G t c j) has_real_derivative 0) (at t0)
               \<longleftrightarrow> ((\<lambda>t. if b = j then 1 else (0::real)) has_real_derivative 0) (at t0)"
      by (intro DERIV_cong_ev refl)
    then have 2: "((\<lambda>t. \<Sum>c<n. K t b c * ?G t c j) has_real_derivative 0) (at t0)"
      by simp
    have "(\<Sum>c<n. K' b c * ?G t0 c j + K t0 b c * D c j) = 0"
      by (rule DERIV_unique[OF 1 2])
    moreover have "(\<Sum>c<n. K' b c * ?G t0 c j + K t0 b c * D c j)
                   = (\<Sum>c<n. K' b c * Ki c j + K t0 b c * D c j)"
      by (rule sum.cong[OF refl]) (use G0 ij in simp)
    ultimately show ?thesis by simp
  qed
  have "0 = (\<Sum>b<n. Ki i b * (\<Sum>c<n. K' b c * Ki c j + K t0 b c * D c j))"
    using E1 by simp
  also have "\<dots> = (\<Sum>b<n. \<Sum>c<n. Ki i b * K' b c * Ki c j) + (\<Sum>b<n. \<Sum>c<n. Ki i b * K t0 b c * D c j)"
    by (simp add: sum_distrib_left sum.distrib algebra_simps)
  also have "(\<Sum>b<n. \<Sum>c<n. Ki i b * K t0 b c * D c j) = (\<Sum>c<n. \<Sum>b<n. Ki i b * K t0 b c * D c j)"
    by (rule sum.swap)
  also have "\<dots> = (\<Sum>c<n. (if i = c then 1 else 0) * D c j)"
    by (rule sum.cong[OF refl]) (use inv[OF ij(1)] in \<open>simp add: sum_distrib_right[symmetric]\<close>)
  also have "\<dots> = D i j"
    by (rule sum_delta_left[OF ij(1)])
  finally have "D i j = - (\<Sum>a<n. \<Sum>b<n. Ki i a * K' a b * Ki b j)"
    by simp
  then show ?thesis using D[OF ij] by simp
qed

text \<open>The derivative of \<open>y\<^sup>T K\<^sup>-\<^sup>1 y\<close> and of \<open>det((y\<^sup>T K\<^sup>-\<^sup>1 y) K)\<close>.\<close>

lemma quad_adj_inv_derivative:
  assumes d: "\<And>i j. i < n \<Longrightarrow> j < n \<Longrightarrow> ((\<lambda>t. K t i j) has_real_derivative K' i j) (at t0)"
    and inv: "\<And>i j. i < n \<Longrightarrow> j < n \<Longrightarrow> (\<Sum>l<n. Ki i l * K t0 l j) = (if i = j then 1 else 0)"
    and sym: "\<And>i j. i < n \<Longrightarrow> j < n \<Longrightarrow> Ki i j = Ki j i"
    and w: "\<And>i. i < n \<Longrightarrow> w i = (\<Sum>k<n. Ki i k * y k)"
  shows "((\<lambda>t. \<Sum>j<n. \<Sum>k<n. y k * adj_inv n (K t) k j * y j) has_real_derivative
          - (\<Sum>b<n. \<Sum>a<n. w a * K' a b * w b)) (at t0)"
proof -
  have 1: "((\<lambda>t. \<Sum>j<n. \<Sum>k<n. y k * adj_inv n (K t) k j * y j) has_real_derivative
          (\<Sum>j<n. \<Sum>k<n. y k * (- (\<Sum>a<n. \<Sum>b<n. Ki k a * K' a b * Ki b j)) * y j)) (at t0)"
    by (intro DERIV_sum DERIV_cmult_right DERIV_cmult adj_inv_derivative[OF d inv]) simp_all
  have s1: "(\<Sum>a<n. \<Sum>b<n. Ki k a * K' a b * Ki b j) = (\<Sum>a<n. \<Sum>b<n. Ki a k * K' a b * Ki b j)"
    if "k < n" for k j
    by (intro sum.cong refl) (use sym[OF that] in simp)
  have "(\<Sum>j<n. \<Sum>k<n. y k * (\<Sum>a<n. \<Sum>b<n. Ki k a * K' a b * Ki b j) * y j)
        = (\<Sum>j<n. \<Sum>k<n. y k * (\<Sum>a<n. \<Sum>b<n. Ki a k * K' a b * Ki b j) * y j)"
    by (intro sum.cong refl) (simp add: s1)
  also have "\<dots> = (\<Sum>j<n. \<Sum>k<n. \<Sum>a<n. \<Sum>b<n. (Ki a k * y k) * K' a b * (Ki b j * y j))"
    by (intro sum.cong refl) (simp add: sum_distrib_left sum_distrib_right mult_ac)
  also have "\<dots> = (\<Sum>j<n. \<Sum>a<n. \<Sum>k<n. \<Sum>b<n. (Ki a k * y k) * K' a b * (Ki b j * y j))"
    by (rule sum.cong[OF refl]) (rule sum.swap)
  also have "\<dots> = (\<Sum>a<n. \<Sum>j<n. \<Sum>k<n. \<Sum>b<n. (Ki a k * y k) * K' a b * (Ki b j * y j))"
    by (rule sum.swap)
  also have "\<dots> = (\<Sum>a<n. \<Sum>j<n. \<Sum>b<n. \<Sum>k<n. (Ki a k * y k) * K' a b * (Ki b j * y j))"
    by (rule sum.cong[OF refl], rule sum.cong[OF refl], rule sum.swap)
  also have "\<dots> = (\<Sum>a<n. \<Sum>b<n. \<Sum>j<n. \<Sum>k<n. (Ki a k * y k) * K' a b * (Ki b j * y j))"
    by (rule sum.cong[OF refl]) (rule sum.swap)
  also have "\<dots> = (\<Sum>a<n. \<Sum>b<n. w a * K' a b * w b)"
  proof (rule sum.cong[OF refl], rule sum.cong[OF refl])
    fix a b assume "a \<in> {..<n}" "b \<in> {..<n}"
    then have ab: "a < n" "b < n" by simp_all
    have "(\<Sum>j<n. \<Sum>k<n. (Ki a k * y k) * K' a b * (Ki b j * y j))
          = (\<Sum>k<n. Ki a k * y k) * K' a b * (\<Sum>j<n. Ki b j * y j)"
      by (simp add: sum_distrib_left sum_distrib_right)
    then show "(\<Sum>j<n. \<Sum>k<n. (Ki a k * y k) * K' a b * (Ki b j * y j)) = w a * K' a b * w b"
      by (simp only: w[OF ab(1)] w[OF ab(2)])
  qed
  also have "\<dots> = (\<Sum>b<n. \<Sum>a<n. w a * K' a b * w b)"
    by (rule sum.swap)
  finally have "(\<Sum>j<n. \<Sum>k<n. y k * (- (\<Sum>a<n. \<Sum>b<n. Ki k a * K' a b * Ki b j)) * y j)
                = - (\<Sum>b<n. \<Sum>a<n. w a * K' a b * w b)"
    by (simp add: sum_negf)
  with 1 show ?thesis by simp
qed

lemma scaled_det_derivative:
  assumes d: "\<And>i j. i < n \<Longrightarrow> j < n \<Longrightarrow> ((\<lambda>t. K t i j) has_real_derivative K' i j) (at t0)"
    and inv: "\<And>i j. i < n \<Longrightarrow> j < n \<Longrightarrow> (\<Sum>l<n. Ki i l * K t0 l j) = (if i = j then 1 else 0)"
    and f: "(f has_real_derivative f') (at t0)"
  shows "((\<lambda>t. f t ^ n * det_fn n (K t)) has_real_derivative
          real n * f t0 ^ (n - 1) * f' * det_fn n (K t0)
          + f t0 ^ n * (det_fn n (K t0) * (\<Sum>r<n. \<Sum>k<n. K' r k * Ki k r))) (at t0)"
proof -
  have dd: "((\<lambda>t. det_fn n (K t)) has_real_derivative
             det_fn n (K t0) * (\<Sum>r<n. \<Sum>k<n. K' r k * Ki k r)) (at t0)"
  proof -
    have e: "(\<Sum>r<n. det_fn n ((K t0)(r := K' r)))
             = det_fn n (K t0) * (\<Sum>r<n. \<Sum>k<n. K' r k * Ki k r)"
      by (rule det_fn_replace_row_trace) (rule inv)
    show ?thesis
      using det_fn_has_derivative[of n K K' t0, OF d] unfolding e .
  qed
  have p: "((\<lambda>t. f t ^ n) has_real_derivative real n * (f' * f t0 ^ (n - Suc 0))) (at t0)"
    by (rule DERIV_power[OF f])
  show ?thesis
    using DERIV_mult[OF p dd] by (simp add: algebra_simps)
qed

subsection \<open>The derivative matrices entry by entry\<close>

text \<open>The derivative matrices entry by entry.\<close>

lemma four_ifs_loop:
  "for_range (2 * n) (\<lambda>i. for_range (2 * n) (\<lambda>j k0.
        let k1 = (if i < n \<and> j < n then set_entry k0 i j (a i j) else k0);
            k2 = (if i < n \<and> n \<le> j then set_entry k1 i j (b i j) else k1);
            k3 = (if n \<le> i \<and> j < n then set_entry k2 i j (c i j) else k2)
        in if n \<le> i \<and> n \<le> j then set_entry k3 i j (d i j) else k3))
       (zeros (2 * n) (2 * n))
   = mk_mat (2 * n) (2 * n)
       (\<lambda>i j. if i < n \<and> j < n then a i j else if i < n then b i j
              else if j < n then c i j else d i j)"
proof -
  have "(\<lambda>i. for_range (2 * n) (\<lambda>j k0.
        let k1 = (if i < n \<and> j < n then set_entry k0 i j (a i j) else k0);
            k2 = (if i < n \<and> n \<le> j then set_entry k1 i j (b i j) else k1);
            k3 = (if n \<le> i \<and> j < n then set_entry k2 i j (c i j) else k2)
        in if n \<le> i \<and> n \<le> j then set_entry k3 i j (d i j) else k3))
      = (\<lambda>i. for_range (2 * n) (\<lambda>j k. set_entry k i j
           (if i < n \<and> j < n then a i j else if i < n then b i j
              else if j < n then c i j else d i j)))"
    by (intro ext arg_cong[where f = "for_range (2 * n)"]) (auto simp: Let_def)
  then show ?thesis
    by (simp only: fill_loop)
qed

lemma K_l_x_dm_eq:
  "K_l_x_dm n x y l_x l_y phi = mk_mat (2 * n) (2 * n) (\<lambda>i j.
     if i < n \<and> j < n then kuu_l_x_dm (x ! i) (x ! j) (y ! i) (y ! j) l_x l_y
     else if i < n then kfu_l_x_dm (x ! (j - n)) (x ! i) (y ! (j - n)) (y ! i) l_x l_y phi
     else if j < n then kfu_l_x_dm (x ! (i - n)) (x ! j) (y ! (i - n)) (y ! j) l_x l_y phi
     else kff_l_x_dm (x ! (i - n)) (x ! (j - n)) (y ! (i - n)) (y ! (j - n)) l_x l_y phi)"
  unfolding K_l_x_dm_def by (rule four_ifs_loop)

lemma K_l_y_dm_eq:
  "K_l_y_dm n x y l_x l_y phi = mk_mat (2 * n) (2 * n) (\<lambda>i j.
     if i < n \<and> j < n then kuu_l_y_dm (x ! i) (x ! j) (y ! i) (y ! j) l_x l_y
     else if i < n then kfu_l_y_dm (x ! (j - n)) (x ! i) (y ! (j - n)) (y ! i) l_x l_y phi
     else if j < n then kfu_l_y_dm (x ! (i - n)) (x ! j) (y ! (i - n)) (y ! j) l_x l_y phi
     else kff_l_y_dm (x ! (i - n)) (x ! (j - n)) (y ! (i - n)) (y ! (j - n)) l_x l_y phi)"
  unfolding K_l_y_dm_def by (rule four_ifs_loop)

lemma K_phi_dm_eq:
  "K_phi_dm n x y l_x l_y phi = mk_mat (2 * n) (2 * n) (\<lambda>i j.
     if i < n \<and> j < n then kuu_phi_dm (x ! i) (x ! j) (y ! i) (y ! j) l_x l_y
     else if i < n then kfu_phi_dm (x ! (j - n)) (x ! i) (y ! (j - n)) (y ! i) l_x l_y phi
     else if j < n then kfu_phi_dm (x ! (i - n)) (x ! j) (y ! (i - n)) (y ! j) l_x l_y phi
     else kff_phi_dm (x ! (i - n)) (x ! (j - n)) (y ! (i - n)) (y ! (j - n)) l_x l_y phi)"
  unfolding K_phi_dm_def by (rule four_ifs_loop)

lemma K_dm_entry_fn:
  assumes "length x = n" "i < 2 * n" "j < 2 * n"
  shows "K_dm n x y s l_x l_y phi ! i ! j =
     (if i < n \<and> j < n then kuu_fn_dm (x ! i) (x ! j) (y ! i) (y ! j) l_x l_y + (if i = j then s else 0)
      else if i < n then kfu_fn_dm (x ! (j - n)) (x ! i) (y ! (j - n)) (y ! i) l_x l_y phi
      else if j < n then kfu_fn_dm (x ! (i - n)) (x ! j) (y ! (i - n)) (y ! j) l_x l_y phi
      else kff_fn_dm (x ! (i - n)) (x ! (j - n)) (y ! (i - n)) (y ! (j - n)) l_x l_y phi
           + (if i = j then s else 0))"
proof -
  have fu: "is_mat n n (kfu_dm x y l_x l_y phi)"
    using assms(1) is_mat_kfu_dm by auto
  show ?thesis
    unfolding K_dm_entry[OF assms] kuf_dm_def mat_T_eq[OF fu]
    using assms by (auto simp: kuu_dm_eq kfu_dm_eq kff_dm_eq)
qed

text \<open>Differentiating an expression that is defined gives an expression that is defined.\<close>

lemma defined_diff: "defined e env \<Longrightarrow> defined (diff e v) env"
  by (induction e) auto

lemma defined_diffs: "defined e env \<Longrightarrow> defined (diffs e vs) env"
  unfolding diffs_def by (induction vs arbitrary: e) (simp_all add: defined_diff)

lemma defined_kuu_sym_dm: "env Sl_x \<noteq> 0 \<Longrightarrow> env Sl_y \<noteq> 0 \<Longrightarrow> defined kuu_sym_dm env"
  by (simp add: kuu_sym_dm_def)

lemma defined_kfu_sym_dm: "env Sl_x \<noteq> 0 \<Longrightarrow> env Sl_y \<noteq> 0 \<Longrightarrow> defined kfu_sym_dm env"
  by (simp add: kfu_sym_dm_def defined_diffs defined_kuu_sym_dm)

lemma defined_kff_sym_dm: "env Sl_x \<noteq> 0 \<Longrightarrow> env Sl_y \<noteq> 0 \<Longrightarrow> defined kff_sym_dm env"
  by (simp add: kff_sym_dm_def defined_diffs defined_kuu_sym_dm)

text \<open>The compiled derivative kernels are the partial derivatives of the compiled kernels.\<close>

lemma map_of_zip_update:
  "distinct ks \<Longrightarrow> i < length ks \<Longrightarrow> length vs = length ks \<Longrightarrow>
   map_of (zip ks (vs[i := t])) = (map_of (zip ks vs))(ks ! i \<mapsto> t)"
proof (induction ks arbitrary: vs i)
  case Nil
  then show ?case by simp
next
  case (Cons k ks)
  then obtain v vs' where vs: "vs = v # vs'" by (cases vs) auto
  show ?case
  proof (cases i)
    case 0
    then show ?thesis using vs by (auto simp: fun_eq_iff)
  next
    case (Suc i')
    have "k \<noteq> ks ! i'" using Cons.prems Suc by auto
    then show ?thesis
      using Cons.IH[of i' vs'] Cons.prems vs Suc by (auto simp: fun_eq_iff)
  qed
qed

lemma lambdify_deriv:
  assumes "defined e (\<lambda>s. the (map_of (zip syms args) s))"
    and "distinct syms" "i < length syms" "length args = length syms"
  shows "((\<lambda>t. lambdify syms e (args[i := t])) has_real_derivative
          lambdify syms (diff e (syms ! i)) args) (at (args ! i))"
proof -
  let ?E = "\<lambda>s. the (map_of (zip syms args) s)"
  have "(\<lambda>s. the (map_of (zip syms (args[i := t])) s)) = (\<lambda>a. if a = syms ! i then t else ?E a)" for t
    unfolding map_of_zip_update[OF assms(2,3,4)] by (auto simp: fun_eq_iff)
  then have e: "(\<lambda>t. lambdify syms e (args[i := t]))
                = (\<lambda>t. eval e (\<lambda>a. if a = syms ! i then t else ?E a))"
    by (simp add: lambdify_def)
  have "map_of (zip syms args) (syms ! i) = Some (args ! i)"
    using assms(2,3,4) by (simp add: map_of_zip_nth)
  then have a: "?E (syms ! i) = args ! i" by simp
  have "((\<lambda>t. eval e (\<lambda>a. if a = syms ! i then t else ?E a)) has_real_derivative
          lambdify syms (diff e (syms ! i)) args) (at (args ! i))"
    unfolding lambdify_def using diff_sound[OF assms(1), of "syms ! i"] unfolding a .
  then show ?thesis
    unfolding e .
qed

lemma kuu_fn_dm_deriv_l_x:
  assumes "l_x \<noteq> 0" "l_y \<noteq> 0"
  shows "((\<lambda>t. kuu_fn_dm xi xj yi yj t l_y) has_real_derivative kuu_l_x_dm xi xj yi yj l_x l_y)
           (at l_x)"
  using lambdify_deriv[of kuu_sym_dm "[Sx_i, Sx_j, Sy_i, Sy_j, Sl_x, Sl_y]"
      "[xi, xj, yi, yj, l_x, l_y]" 4] assms
  by (simp add: kuu_fn_dm_def kuu_l_x_dm_def kuu_sym_l_x_dm_def defined_kuu_sym_dm)

lemma kuu_fn_dm_deriv_l_y:
  assumes "l_x \<noteq> 0" "l_y \<noteq> 0"
  shows "((\<lambda>t. kuu_fn_dm xi xj yi yj l_x t) has_real_derivative kuu_l_y_dm xi xj yi yj l_x l_y)
           (at l_y)"
  using lambdify_deriv[of kuu_sym_dm "[Sx_i, Sx_j, Sy_i, Sy_j, Sl_x, Sl_y]"
      "[xi, xj, yi, yj, l_x, l_y]" 5] assms
  by (simp add: kuu_fn_dm_def kuu_l_y_dm_def kuu_sym_l_y_dm_def defined_kuu_sym_dm)

lemma kfu_fn_dm_deriv_l_x:
  assumes "l_x \<noteq> 0" "l_y \<noteq> 0"
  shows "((\<lambda>t. kfu_fn_dm xi xj yi yj t l_y phi) has_real_derivative kfu_l_x_dm xi xj yi yj l_x l_y phi)
           (at l_x)"
  using lambdify_deriv[of kfu_sym_dm "[Sx_i, Sx_j, Sy_i, Sy_j, Sl_x, Sl_y, Sphi]"
      "[xi, xj, yi, yj, l_x, l_y, phi]" 4] assms
  by (simp add: kfu_fn_dm_def kfu_l_x_dm_def kfu_sym_l_x_dm_def defined_kfu_sym_dm)

lemma kfu_fn_dm_deriv_l_y:
  assumes "l_x \<noteq> 0" "l_y \<noteq> 0"
  shows "((\<lambda>t. kfu_fn_dm xi xj yi yj l_x t phi) has_real_derivative kfu_l_y_dm xi xj yi yj l_x l_y phi)
           (at l_y)"
  using lambdify_deriv[of kfu_sym_dm "[Sx_i, Sx_j, Sy_i, Sy_j, Sl_x, Sl_y, Sphi]"
      "[xi, xj, yi, yj, l_x, l_y, phi]" 5] assms
  by (simp add: kfu_fn_dm_def kfu_l_y_dm_def kfu_sym_l_y_dm_def defined_kfu_sym_dm)

lemma kfu_fn_dm_deriv_phi:
  assumes "l_x \<noteq> 0" "l_y \<noteq> 0"
  shows "((\<lambda>t. kfu_fn_dm xi xj yi yj l_x l_y t) has_real_derivative kfu_phi_dm xi xj yi yj l_x l_y phi)
           (at phi)"
  using lambdify_deriv[of kfu_sym_dm "[Sx_i, Sx_j, Sy_i, Sy_j, Sl_x, Sl_y, Sphi]"
      "[xi, xj, yi, yj, l_x, l_y, phi]" 6] assms
  by (simp add: kfu_fn_dm_def kfu_phi_dm_def kfu_sym_phi_dm_def defined_kfu_sym_dm)

lemma kff_fn_dm_deriv_l_x:
  assumes "l_x \<noteq> 0" "l_y \<noteq> 0"
  shows "((\<lambda>t. kff_fn_dm xi xj yi yj t l_y phi) has_real_derivative kff_l_x_dm xi xj yi yj l_x l_y phi)
           (at l_x)"
  using lambdify_deriv[of kff_sym_dm "[Sx_i, Sx_j, Sy_i, Sy_j, Sl_x, Sl_y, Sphi]"
      "[xi, xj, yi, yj, l_x, l_y, phi]" 4] assms
  by (simp add: kff_fn_dm_def kff_l_x_dm_def kff_sym_l_x_dm_def defined_kff_sym_dm)

lemma kff_fn_dm_deriv_l_y:
  assumes "l_x \<noteq> 0" "l_y \<noteq> 0"
  shows "((\<lambda>t. kff_fn_dm xi xj yi yj l_x t phi) has_real_derivative kff_l_y_dm xi xj yi yj l_x l_y phi)
           (at l_y)"
  using lambdify_deriv[of kff_sym_dm "[Sx_i, Sx_j, Sy_i, Sy_j, Sl_x, Sl_y, Sphi]"
      "[xi, xj, yi, yj, l_x, l_y, phi]" 5] assms
  by (simp add: kff_fn_dm_def kff_l_y_dm_def kff_sym_l_y_dm_def defined_kff_sym_dm)

lemma kff_fn_dm_deriv_phi:
  assumes "l_x \<noteq> 0" "l_y \<noteq> 0"
  shows "((\<lambda>t. kff_fn_dm xi xj yi yj l_x l_y t) has_real_derivative kff_phi_dm xi xj yi yj l_x l_y phi)
           (at phi)"
  using lambdify_deriv[of kff_sym_dm "[Sx_i, Sx_j, Sy_i, Sy_j, Sl_x, Sl_y, Sphi]"
      "[xi, xj, yi, yj, l_x, l_y, phi]" 6] assms
  by (simp add: kff_fn_dm_def kff_phi_dm_def kff_sym_phi_dm_def defined_kff_sym_dm)

lemma kuu_phi_dm_zero: "kuu_phi_dm xi xj yi yj l_x l_y = 0"
  by (simp add: kuu_phi_dm_def kuu_sym_phi_dm_def kuu_sym_dm_def lambdify_def)

text \<open>Hence \<^verbatim>\<open>K_l_x\<close>, \<^verbatim>\<open>K_l_y\<close> and \<^verbatim>\<open>K_phi\<close> are the entrywise derivatives of \<^verbatim>\<open>K\<close>.\<close>

lemma K_dm_deriv_l_x:
  assumes "length x = n" "i < 2 * n" "j < 2 * n" "l_x \<noteq> 0" "l_y \<noteq> 0"
  shows "((\<lambda>t. K_dm n x y s t l_y phi ! i ! j) has_real_derivative
          K_l_x_dm n x y l_x l_y phi ! i ! j) (at l_x)"
  unfolding K_dm_entry_fn[OF assms(1,2,3)] K_l_x_dm_eq mk_mat_entry[OF assms(2,3)]
  using kuu_fn_dm_deriv_l_x[OF assms(4,5)] kfu_fn_dm_deriv_l_x[OF assms(4,5)]
    kff_fn_dm_deriv_l_x[OF assms(4,5)]
  by (auto intro!: derivative_eq_intros)

lemma K_dm_deriv_l_y:
  assumes "length x = n" "i < 2 * n" "j < 2 * n" "l_x \<noteq> 0" "l_y \<noteq> 0"
  shows "((\<lambda>t. K_dm n x y s l_x t phi ! i ! j) has_real_derivative
          K_l_y_dm n x y l_x l_y phi ! i ! j) (at l_y)"
  unfolding K_dm_entry_fn[OF assms(1,2,3)] K_l_y_dm_eq mk_mat_entry[OF assms(2,3)]
  using kuu_fn_dm_deriv_l_y[OF assms(4,5)] kfu_fn_dm_deriv_l_y[OF assms(4,5)]
    kff_fn_dm_deriv_l_y[OF assms(4,5)]
  by (auto intro!: derivative_eq_intros)

lemma K_dm_deriv_phi:
  assumes "length x = n" "i < 2 * n" "j < 2 * n" "l_x \<noteq> 0" "l_y \<noteq> 0"
  shows "((\<lambda>t. K_dm n x y s l_x l_y t ! i ! j) has_real_derivative
          K_phi_dm n x y l_x l_y phi ! i ! j) (at phi)"
  unfolding K_dm_entry_fn[OF assms(1,2,3)] K_phi_dm_eq mk_mat_entry[OF assms(2,3)]
  using kfu_fn_dm_deriv_phi[OF assms(4,5)] kff_fn_dm_deriv_phi[OF assms(4,5)]
  by (auto intro!: derivative_eq_intros simp: kuu_phi_dm_zero)

subsection \<open>The derivative of the objective\<close>

text \<open>\<^verbatim>\<open>np.linalg.inv\<close> in terms of the adjugate, and the derivative of the objective.\<close>

lemma inv_adj_inv:
  assumes "is_mat N N M" "det M \<noteq> 0"
  shows "inv M = Inr (mk_mat N N (adj_inv N (\<lambda>i j. M ! i ! j)))"
proof -
  have l: "length M = N" using assms(1) by (simp add: is_mat_def)
  show ?thesis
    using assms(2) unfolding inv_def l
    by (simp add: cofactor_def adj_inv_def det_def l)
qed

lemma sum_list_upt: "sum_list (map f [0..<n]) = (\<Sum>i<n. f i)" for f :: "nat \<Rightarrow> real"
  by (induction n) simp_all

lemma trace_matmul:
  assumes "is_mat N N A" "is_mat N N B"
  shows "trace (matmul A B) = (\<Sum>i<N. \<Sum>k<N. A ! i ! k * B ! k ! i)"
proof -
  have "trace (matmul A B) = (\<Sum>i<N. mm N A B ! i ! i)"
    using assms by (simp add: trace_def diag_of_def to_fixed[where n = N] nrows_sq[OF is_mat_ops(1)] sum_list_upt)
  then show ?thesis by (simp add: entry_ops)
qed

lemma length_matvec: "is_mat N N M \<Longrightarrow> length (matvec M v) = N"
  by (simp add: matvec_def nrows_sq)

lemma matvec_entry:
  "is_mat N N M \<Longrightarrow> i < N \<Longrightarrow> matvec M v ! i = (\<Sum>k<length v. M ! i ! k * v ! k)"
  by (simp add: matvec_def nrows_sq)

lemma vdot_matvec:
  assumes "is_mat N N M" "length y = N"
  shows "vdot y (matvec M y) = vdot (vecmat y M) y"
proof -
  have "vdot y (matvec M y) = (\<Sum>i<N. \<Sum>k<N. y ! i * M ! i ! k * y ! k)"
    unfolding vdot_def assms(2)
    by (rule sum.cong[OF refl]) (simp add: matvec_entry[OF assms(1)] assms(2) sum_distrib_left mult.assoc)
  also have "\<dots> = (\<Sum>k<N. \<Sum>i<N. y ! i * M ! i ! k * y ! k)"
    by (rule sum.swap)
  finally show ?thesis by (simp add: quad_form[OF assms])
qed

lemma form_B_derivative:
  fixes Kf :: "real \<Rightarrow> mat"
  assumes m: "\<And>t. is_mat N N (Kf t)"
    and d: "\<And>i j. i < N \<Longrightarrow> j < N \<Longrightarrow>
              ((\<lambda>t. Kf t ! i ! j) has_real_derivative K1 ! i ! j) (at t0)"
    and Ki: "is_mat N N K_inv" "mm N K_inv (Kf t0) = eye N" "mt N K_inv = K_inv"
    and y: "length y = N" and K1: "is_mat N N K1"
    and nz: "vdot y (matvec K_inv y) \<noteq> 0"
  shows "inv (Kf t0) = Inr K_inv"
    and "((\<lambda>t. case inv (Kf t) of Inl e \<Rightarrow> 0
                | Inr Ki \<Rightarrow> det (smul (vdot (vecmat y Ki) y) (Kf t))) has_real_derivative
          det (smul (vdot (vecmat y K_inv) y) (Kf t0))
          * (trace (matmul K_inv K1)
             - vdot (vecmat (vscale (real N) (matvec K_inv y)) K1) (matvec K_inv y)
               / vdot y (matvec K_inv y))) (at t0)"
proof -
  let ?K = "\<lambda>t i j. Kf t ! i ! j"
  let ?G = "\<lambda>t. adj_inv N (?K t)"
  let ?w = "matvec K_inv y"
  have detf: "det (Kf t) = det_fn N (?K t)" for t
    using m[of t] by (simp add: det_def is_mat_def)
  have inv: "(\<Sum>l<N. K_inv ! i ! l * ?K t0 l j) = (if i = j then 1 else 0)" if "i < N" "j < N" for i j
    using arg_cong[OF Ki(2), of "\<lambda>M. M ! i ! j"] that by (simp add: entry_ops eye_entry)
  have sym: "K_inv ! i ! j = K_inv ! j ! i" if "i < N" "j < N" for i j
    using arg_cong[OF Ki(3), of "\<lambda>M. M ! i ! j"] that by (simp add: entry_ops)
  have nz0: "det_fn N (?K t0) \<noteq> 0"
    by (rule det_fn_left_inverse[of N "\<lambda>i j. K_inv ! i ! j"]) (rule inv)
  have G0: "mk_mat N N (?G t0) = K_inv"
    by (rule mat_eqI[of N N]) (use Ki(1) adj_inv_unique[of N "\<lambda>i j. K_inv ! i ! j" "?K t0", OF inv] in simp_all)
  show i0: "inv (Kf t0) = Inr K_inv"
    using inv_adj_inv[OF m[of t0]] nz0 G0 by (simp add: detf)
  define q where "q t = (\<Sum>j<N. \<Sum>k<N. y ! k * ?G t k j * y ! j)" for t
  have obj: "(case inv (Kf t) of Inl e \<Rightarrow> 0 | Inr Ki \<Rightarrow> det (smul (vdot (vecmat y Ki) y) (Kf t)))
             = q t ^ N * det_fn N (?K t)" if "det_fn N (?K t) \<noteq> 0" for t
  proof -
    have "inv (Kf t) = Inr (mk_mat N N (?G t))"
      by (rule inv_adj_inv[OF m]) (use that in \<open>simp add: detf\<close>)
    moreover have "vdot (vecmat y (mk_mat N N (?G t))) y = q t"
      unfolding q_def by (subst quad_form[OF _ y]) simp_all
    ultimately show ?thesis
      by (simp add: det_smul[OF m] detf)
  qed
  have dd: "((\<lambda>t. det_fn N (?K t)) has_real_derivative (\<Sum>r<N. det_fn N ((?K t0)(r := (\<lambda>j. K1 ! r ! j))))) (at t0)"
    by (rule det_fn_has_derivative[where M' = "\<lambda>i j. K1 ! i ! j"]) (rule d)
  have ev: "eventually (\<lambda>t. det_fn N (?K t) \<noteq> 0) (nhds t0)"
    by (rule eventually_nhds_neq_zero[OF dd nz0])
  have ev': "eventually (\<lambda>t. (case inv (Kf t) of Inl e \<Rightarrow> 0
                | Inr Ki \<Rightarrow> det (smul (vdot (vecmat y Ki) y) (Kf t))) = q t ^ N * det_fn N (?K t)) (nhds t0)"
    by (rule eventually_mono[OF ev]) (rule obj)
  define W where "W = (\<Sum>b<N. \<Sum>a<N. ?w ! a * K1 ! a ! b * ?w ! b)"
  define tr where "tr = (\<Sum>r<N. \<Sum>k<N. K1 ! r ! k * K_inv ! k ! r)"
  have w: "?w ! i = (\<Sum>k<N. K_inv ! i ! k * y ! k)" if "i < N" for i
    using matvec_entry[OF Ki(1) that, of y] y by simp
  have dq: "(q has_real_derivative - W) (at t0)"
    unfolding q_def[abs_def] W_def
    by (rule quad_adj_inv_derivative[where Ki = "\<lambda>i j. K_inv ! i ! j" and K' = "\<lambda>i j. K1 ! i ! j"])
       (use d inv sym w in simp_all)
  have dF: "((\<lambda>t. q t ^ N * det_fn N (?K t)) has_real_derivative
             real N * q t0 ^ (N - 1) * (- W) * det_fn N (?K t0)
             + q t0 ^ N * (det_fn N (?K t0) * tr)) (at t0)"
    unfolding tr_def
    by (rule scaled_det_derivative[where Ki = "\<lambda>i j. K_inv ! i ! j" and K' = "\<lambda>i j. K1 ! i ! j"])
       (use d inv dq in simp_all)
  have q0: "q t0 = vdot (vecmat y K_inv) y"
  proof -
    have "vdot (vecmat y (mk_mat N N (?G t0))) y = q t0"
      unfolding q_def by (subst quad_form[OF _ y]) simp_all
    then show ?thesis by (simp add: G0)
  qed
  have yw: "vdot y ?w = q t0"
    unfolding q0 by (rule vdot_matvec[OF Ki(1) y])
  have tr': "trace (matmul K_inv K1) = tr"
  proof -
    have "trace (matmul K_inv K1) = (\<Sum>i<N. \<Sum>k<N. K_inv ! i ! k * K1 ! k ! i)"
      by (rule trace_matmul[OF Ki(1) K1])
    also have "\<dots> = (\<Sum>k<N. \<Sum>i<N. K_inv ! i ! k * K1 ! k ! i)"
      by (rule sum.swap)
    finally show ?thesis by (simp add: tr_def mult.commute)
  qed
  have W': "vdot (vecmat (vscale (real N) ?w) K1) ?w = real N * W"
    unfolding W_def
    by (simp add: quad_vscale[OF K1 length_matvec[OF Ki(1)]] quad_form[OF K1 length_matvec[OF Ki(1)]])
  have q0nz: "q t0 \<noteq> 0" using nz yw by simp
  have p: "real N * q t0 ^ (N - 1) = real N * q t0 ^ N / q t0"
  proof (cases N)
    case 0
    then show ?thesis by simp
  next
    case (Suc k)
    then show ?thesis using q0nz by simp
  qed
  have val: "real N * q t0 ^ (N - 1) * (- W) * det_fn N (?K t0) + q t0 ^ N * (det_fn N (?K t0) * tr)
             = det (smul (vdot (vecmat y K_inv) y) (Kf t0))
               * (trace (matmul K_inv K1) - vdot (vecmat (vscale (real N) ?w) K1) ?w / vdot y ?w)"
    unfolding p tr' W' yw q0[symmetric] det_smul[OF m] detf
    using q0nz by (simp add: field_simps)
  show "((\<lambda>t. case inv (Kf t) of Inl e \<Rightarrow> 0
                | Inr Ki \<Rightarrow> det (smul (vdot (vecmat y Ki) y) (Kf t))) has_real_derivative
          det (smul (vdot (vecmat y K_inv) y) (Kf t0))
          * (trace (matmul K_inv K1) - vdot (vecmat (vscale (real N) ?w) K1) ?w / vdot y ?w)) (at t0)"
    using dF unfolding val
    by (subst DERIV_cong_ev[OF refl ev' refl])
qed

subsection \<open>The blocks of the determinant notebook\<close>

lemma sym_add_noise:
  assumes "is_mat n n M" "mat_T M = M"
  shows "mat_T (mat_add M (smul s (eye n))) = mat_add M (smul s (eye n))"
proof -
  note N = is_mat_add_noise[OF assms(1), of s]
  have e: "M ! j ! i = M ! i ! j" if "i < n" "j < n" for i j
    using arg_cong[OF assms(2), of "\<lambda>M. M ! i ! j"] that by (simp add: mat_T_eq[OF assms(1)])
  show ?thesis
    unfolding mat_T_eq[OF N]
    by (rule mat_eqI[OF _ N]) (auto simp: add_noise_entry[OF assms(1)] e)
qed

lemma schur_complement_sym:
  assumes B: "is_mat n n B" and C: "is_mat n n C" and Ai: "is_mat n n A_inv"
    and symC: "mat_T C = C" and symAi: "mat_T A_inv = A_inv"
  shows "is_mat n n (mat_sub C (matmul (matmul (mat_T B) A_inv) B))"
    and "mat_T (mat_sub C (matmul (matmul (mat_T B) A_inv) B))
         = mat_sub C (matmul (matmul (mat_T B) A_inv) B)"
proof -
  note tf = to_fixed[where n = n]
  have e: "mat_sub C (matmul (matmul (mat_T B) A_inv) B) = ms n C (mm n (mm n (mt n B) A_inv) B)"
    using B C Ai by (simp add: tf)
  have s: "mt n C = C" "mt n A_inv = A_inv" using symC symAi C Ai by (simp_all add: tf)
  show "is_mat n n (mat_sub C (matmul (matmul (mat_T B) A_inv) B))"
    unfolding e by simp
  have "mt n (ms n C (mm n (mm n (mt n B) A_inv) B)) = ms n C (mm n (mm n (mt n B) A_inv) B)"
    using B by (simp add: mt_ms mt_mm mt_mt s mm_assoc)
  then show "mat_T (mat_sub C (matmul (matmul (mat_T B) A_inv) B))
         = mat_sub C (matmul (matmul (mat_T B) A_inv) B)"
    unfolding e by (simp add: tf)
qed

lemma K_dm_block:
  assumes "length x = n"
  shows "K_dm n x y s l_x l_y phi
         = block (mat_add (kuu_dm x y l_x l_y) (smul s (eye n))) (mat_T (kfu_dm x y l_x l_y phi))
                 (mat_T (mat_T (kfu_dm x y l_x l_y phi)))
                 (mat_add (kff_dm x y l_x l_y phi) (smul s (eye n)))"
proof -
  have "is_mat n n (kfu_dm x y l_x l_y phi)"
    using assms is_mat_kfu_dm by auto
  then have "mat_T (mat_T (kfu_dm x y l_x l_y phi)) = kfu_dm x y l_x l_y phi"
    by (simp add: to_fixed[where n = n] mt_mt)
  then show ?thesis by (simp add: K_dm_def kuf_dm_def)
qed

lemma dm_blocks:
  assumes "length x = n"
  shows "is_mat n n (mat_add (kuu_dm x y l_x l_y) (smul s (eye n)))"
    and "is_mat n n (mat_T (kfu_dm x y l_x l_y phi))"
    and "is_mat n n (mat_add (kff_dm x y l_x l_y phi) (smul s (eye n)))"
    and "mat_T (mat_add (kuu_dm x y l_x l_y) (smul s (eye n)))
         = mat_add (kuu_dm x y l_x l_y) (smul s (eye n))"
    and "mat_T (mat_add (kff_dm x y l_x l_y phi) (smul s (eye n)))
         = mat_add (kff_dm x y l_x l_y phi) (smul s (eye n))"
proof -
  have uu: "is_mat n n (kuu_dm x y l_x l_y)" and ff: "is_mat n n (kff_dm x y l_x l_y phi)"
    and fu: "is_mat n n (kfu_dm x y l_x l_y phi)"
    using assms is_mat_kuu_dm is_mat_kff_dm is_mat_kfu_dm by auto
  show "is_mat n n (mat_add (kuu_dm x y l_x l_y) (smul s (eye n)))"
    by (rule is_mat_add_noise[OF uu])
  show "is_mat n n (mat_add (kff_dm x y l_x l_y phi) (smul s (eye n)))"
    by (rule is_mat_add_noise[OF ff])
  show "is_mat n n (mat_T (kfu_dm x y l_x l_y phi))"
    using fu by (simp add: to_fixed[where n = n])
  show "mat_T (mat_add (kuu_dm x y l_x l_y) (smul s (eye n)))
         = mat_add (kuu_dm x y l_x l_y) (smul s (eye n))"
    by (rule sym_add_noise[OF uu kuu_dm_sym])
  show "mat_T (mat_add (kff_dm x y l_x l_y phi) (smul s (eye n)))
         = mat_add (kff_dm x y l_x l_y phi) (smul s (eye n))"
    by (rule sym_add_noise[OF ff kff_dm_sym])
qed

lemma K_inv_and_det_dm_value:
  assumes "A = mat_add (kuu_dm x y l_x l_y) (smul s (eye n))"
    and "B = mat_T (kfu_dm x y l_x l_y phi)"
    and "C = mat_add (kff_dm x y l_x l_y phi) (smul s (eye n))"
    and "chol_or_svd_inv svd n A = Inr A_inv"
    and "KA = mat_sub C (matmul (matmul (mat_T B) A_inv) B)"
    and "chol_or_svd_inv svd n KA = Inr KA_inv"
    and "T = matmul (matmul A_inv B) KA_inv"
    and "K_inv = block (mat_add A_inv (matmul (matmul T (mat_T B)) A_inv)) (mat_neg T)
                       (mat_neg (mat_T T)) KA_inv"
    and "f = vdot (vecmat (y_u @ y_f) K_inv) (y_u @ y_f)"
  shows "K_inv_and_det_dm svd n x y y_u y_f s l_x l_y phi
         = Inr (K_inv, det (smul f A) * det (smul f KA))"
  using assms(4,6) unfolding assms(1,2,3,5,7,8,9)
  by (simp add: K_inv_and_det_dm_def Let_def)

lemma nlml_block_dm_value:
  assumes "A = mat_add (kuu_dm x y (exp (params ! 0)) (exp (params ! 1))) (smul s (eye n))"
    and "B = mat_T (kfu_dm x y (exp (params ! 0)) (exp (params ! 1)) (params ! 2))"
    and "C = mat_add (kff_dm x y (exp (params ! 0)) (exp (params ! 1)) (params ! 2)) (smul s (eye n))"
    and "chol_or_svd_inv svd n A = Inr A_inv"
    and "KA = mat_sub C (matmul (matmul (mat_T B) A_inv) B)"
    and "chol_or_svd_inv svd n KA = Inr KA_inv"
    and "T = matmul (matmul A_inv B) KA_inv"
    and "factor = vdot (vecmat y_u (mat_add A_inv (matmul (matmul T (mat_T B)) A_inv))) y_u
                  - vdot (vecmat (vscale 2 y_u) T) y_f + vdot (vecmat y_f KA_inv) y_f"
  shows "nlml_block_dm svd n x y y_u y_f s params
         = Inr (det (smul factor A) * det (smul factor KA))"
  using assms(4,6) unfolding assms(1,2,3,5,7,8)
  by (simp add: nlml_block_dm_def Let_def)

lemma det_smul_block:
  assumes "is_mat n n A" "is_mat n n KA" "is_mat (2 * n) (2 * n) K" "det K = det A * det KA"
  shows "det (smul f A) * det (smul f KA) = det (smul f K)"
  by (simp add: det_smul[OF assms(1)] det_smul[OF assms(2)] det_smul[OF assms(3)] assms(4)
      mult_2 power_add)

subsection \<open>A worked example of the block solver\<close>

text \<open>One sample point at the origin, \<open>l_x = l_y = 1\<close>, \<open>phi = 3\<close> and \<open>s = 3\<close>.\<close>

lemma kuu_dm_val: "kuu_dm [0] [0] 1 1 = [[1]]"
  by (simp add: kuu_dm_eq kuu_fn_dm_closed mk_mat_def)

lemma kfu_dm_val: "kfu_dm [0] [0] 1 1 3 = [[2]]"
  by (simp add: kfu_dm_eq kfu_fn_dm_closed mk_mat_def)

lemma kff_dm_val: "kff_dm [0] [0] 1 1 3 = [[7]]"
  by (simp add: kff_dm_eq kff_fn_dm_closed mk_mat_def)

lemma A_dm_val: "mat_add (kuu_dm [0] [0] 1 1) (smul 3 (eye 1)) = [[4]]"
  by (simp add: kuu_dm_val mat_defs)

lemma B_dm_val: "mat_T (kfu_dm [0] [0] 1 1 3) = [[2]]"
  by (simp add: kfu_dm_val mat_defs)

lemma C_dm_val: "mat_add (kff_dm [0] [0] 1 1 3) (smul 3 (eye 1)) = [[10]]"
  by (simp add: kff_dm_val mat_defs)

lemma K_dm_val: "K_dm 1 [0] [0] 3 1 1 3 = [[4, 2], [2, 10]]"
  unfolding K_dm_def kuf_dm_def A_dm_val C_dm_val kfu_dm_val by (simp add: mat_defs)

lemma chol_1x1_4: "cholesky [[4]] = Inr [[2]]"
  by (simp add: cholesky.simps mat_defs Let_def)

lemma chol_1x1_9: "cholesky [[9]] = Inr [[3]]"
proof -
  have "sqrt 9 = sqrt (3\<^sup>2)" by simp
  then have "sqrt 9 = 3" by (simp del: real_sqrt_abs)
  then show ?thesis by (simp add: cholesky.simps mat_defs Let_def)
qed

lemma chol_K_dm_val: "cholesky [[4, 2], [2, 10]] = Inr [[2, 0], [1, 3]]"
proof -
  have "sqrt 9 = sqrt (3\<^sup>2)" by simp
  then have "sqrt 9 = 3" by (simp del: real_sqrt_abs)
  then show ?thesis by (simp add: cholesky.simps mat_defs Let_def)
qed

lemma solve_1x1: "c \<noteq> 0 \<Longrightarrow> solve_triangular [[c]] (eye 1) = Inr [[1 / c]]"
  by (simp add: solve_triangular_def mat_defs)

lemma chol_or_svd_inv_4: "chol_or_svd_inv svd 1 [[4]] = Inr [[1 / 4]]"
  by (simp add: chol_or_svd_inv_def chol_1x1_4 solve_triangular_def mat_defs)

lemma chol_or_svd_inv_9: "chol_or_svd_inv svd 1 [[9]] = Inr [[1 / 9]]"
  by (simp add: chol_or_svd_inv_def chol_1x1_9 solve_triangular_def mat_defs)

lemma KA_dm_val: "mat_sub [[10]] (matmul (matmul (mat_T [[2]]) [[1 / 4]]) [[2]]) = [[9]]"
  by (simp add: mat_defs)

lemma T_dm_val: "matmul (matmul [[1 / 4]] [[2]]) [[1 / 9]] = [[1 / 18]]"
  by (simp add: mat_defs)

lemma K_inv_dm_val:
  "block (mat_add [[1 / 4]] (matmul (matmul [[1 / 18]] (mat_T [[2]])) [[1 / 4]])) (mat_neg [[1 / 18]])
         (mat_neg (mat_T [[1 / 18]])) [[1 / 9]]
   = [[5 / 18, - (1 / 18)], [- (1 / 18), 1 / 9]]"
  by (simp add: mat_defs)

subsection \<open>The value of the gradient\<close>

lemma is_mat_K_l_x_dm [simp]: "is_mat (2 * n) (2 * n) (K_l_x_dm n x y l_x l_y phi)"
  by (simp add: K_l_x_dm_eq)

lemma is_mat_K_l_y_dm [simp]: "is_mat (2 * n) (2 * n) (K_l_y_dm n x y l_x l_y phi)"
  by (simp add: K_l_y_dm_eq)

lemma is_mat_K_phi_dm [simp]: "is_mat (2 * n) (2 * n) (K_phi_dm n x y l_x l_y phi)"
  by (simp add: K_phi_dm_eq)

lemma grad_L_dm_value:
  assumes "K_inv_and_det_dm svd n x y y_u y_f s l_x l_y phi = Inr (K_inv, det_fK)"
    and "w = matvec K_inv (y_u @ y_f)"
  shows "grad_L_dm svd n x y y_u y_f s l_x l_y phi
         = Inr [det_fK * (trace (matmul K_inv (K_l_x_dm n x y l_x l_y phi))
                  - vdot (vecmat (vscale (2 * real n) w) (K_l_x_dm n x y l_x l_y phi)) w
                    / vdot (y_u @ y_f) w),
                det_fK * (trace (matmul K_inv (K_l_y_dm n x y l_x l_y phi))
                  - vdot (vecmat (vscale (2 * real n) w) (K_l_y_dm n x y l_x l_y phi)) w
                    / vdot (y_u @ y_f) w),
                det_fK * (trace (matmul K_inv (K_phi_dm n x y l_x l_y phi))
                  - vdot (vecmat (vscale (2 * real n) w) (K_phi_dm n x y l_x l_y phi)) w
                    / vdot (y_u @ y_f) w)]"
  unfolding grad_L_dm_def assms by (simp add: Let_def)

lemma grad_nlml_dm_value:
  assumes "grad_L_dm svd n x y y_u y_f s (exp (par ! 0)) (exp (par ! 1)) (par ! 2)
           = Inr [comp_1, comp_2, comp_3]"
  shows "grad_nlml_dm svd n x y y_u y_f s par
         = Inr [comp_1 * exp (par ! 0), comp_2 * exp (par ! 1), comp_3]"
  unfolding grad_nlml_dm_def assms
  by (simp add: Let_def mat_defs eval_nat_numeral)

text \<open>
  The derivative kernels at the sample point of the worked example, from the closed forms
  of the kernels.
\<close>

lemma kuu_l_x_dm_val: "kuu_l_x_dm 0 0 0 0 1 1 = 0"
  by (simp add: kuu_l_x_dm_def kuu_sym_l_x_dm_def kuu_sym_dm_def lambdify_def)

lemma kuu_l_y_dm_val: "kuu_l_y_dm 0 0 0 0 1 1 = 0"
  by (simp add: kuu_l_y_dm_def kuu_sym_l_y_dm_def kuu_sym_dm_def lambdify_def)

lemma kfu_l_x_dm_val: "kfu_l_x_dm 0 0 0 0 1 1 3 = 0"
proof -
  have e: "(\<lambda>t. kfu_fn_dm 0 0 0 0 t 1 3) = (\<lambda>t. 2)"
    by (simp add: kfu_fn_dm_closed fun_eq_iff)
  have "((\<lambda>t. kfu_fn_dm 0 0 0 0 t 1 3) has_real_derivative kfu_l_x_dm 0 0 0 0 1 1 3) (at 1)"
    by (rule kfu_fn_dm_deriv_l_x) simp_all
  moreover have "((\<lambda>t. 2) has_real_derivative 0) (at 1)"
    by (auto intro!: derivative_eq_intros)
  ultimately show ?thesis
    unfolding e by (rule DERIV_unique)
qed

lemma kfu_l_y_dm_val: "kfu_l_y_dm 0 0 0 0 1 1 3 = 1"
proof -
  have e: "(\<lambda>t. kfu_fn_dm 0 0 0 0 1 t 3) = (\<lambda>t. 3 - 1 / t)"
    by (simp add: kfu_fn_dm_closed fun_eq_iff)
  have "((\<lambda>t. kfu_fn_dm 0 0 0 0 1 t 3) has_real_derivative kfu_l_y_dm 0 0 0 0 1 1 3) (at 1)"
    by (rule kfu_fn_dm_deriv_l_y) simp_all
  moreover have "((\<lambda>t. 3 - 1 / t) has_real_derivative 1) (at 1)"
    by (auto intro!: derivative_eq_intros)
  ultimately show ?thesis
    unfolding e by (rule DERIV_unique)
qed

lemma kfu_phi_dm_val: "kfu_phi_dm 0 0 0 0 1 1 3 = 1"
proof -
  have e: "(\<lambda>t. kfu_fn_dm 0 0 0 0 1 1 t) = (\<lambda>t. t - 1)"
    by (simp add: kfu_fn_dm_closed fun_eq_iff)
  have "((\<lambda>t. kfu_fn_dm 0 0 0 0 1 1 t) has_real_derivative kfu_phi_dm 0 0 0 0 1 1 3) (at 3)"
    by (rule kfu_fn_dm_deriv_phi) simp_all
  moreover have "((\<lambda>t. t - 1) has_real_derivative 1) (at 3)"
    by (auto intro!: derivative_eq_intros)
  ultimately show ?thesis
    unfolding e by (rule DERIV_unique)
qed

lemma kff_l_x_dm_val: "kff_l_x_dm 0 0 0 0 1 1 3 = - 1"
proof -
  have e: "(\<lambda>t. kff_fn_dm 0 0 0 0 t 1 3) = (\<lambda>t. 6 + 1 / t)"
    by (simp add: kff_fn_dm_closed fun_eq_iff)
  have "((\<lambda>t. kff_fn_dm 0 0 0 0 t 1 3) has_real_derivative kff_l_x_dm 0 0 0 0 1 1 3) (at 1)"
    by (rule kff_fn_dm_deriv_l_x) simp_all
  moreover have "((\<lambda>t. 6 + 1 / t) has_real_derivative - 1) (at 1)"
    by (auto intro!: derivative_eq_intros)
  ultimately show ?thesis
    unfolding e by (rule DERIV_unique)
qed

lemma kff_l_y_dm_val: "kff_l_y_dm 0 0 0 0 1 1 3 = 0"
proof -
  have e: "(\<lambda>t. kff_fn_dm 0 0 0 0 1 t 3) = (\<lambda>t. 10 - 6 / t + 3 / t\<^sup>2)"
    by (simp add: kff_fn_dm_closed fun_eq_iff)
  have "((\<lambda>t. kff_fn_dm 0 0 0 0 1 t 3) has_real_derivative kff_l_y_dm 0 0 0 0 1 1 3) (at 1)"
    by (rule kff_fn_dm_deriv_l_y) simp_all
  moreover have "((\<lambda>t. 10 - 6 / t + 3 / t\<^sup>2) has_real_derivative 0) (at 1)"
    by (auto intro!: derivative_eq_intros)
  ultimately show ?thesis
    unfolding e by (rule DERIV_unique)
qed

lemma kff_phi_dm_val: "kff_phi_dm 0 0 0 0 1 1 3 = 4"
proof -
  have e: "(\<lambda>t. kff_fn_dm 0 0 0 0 1 1 t) = (\<lambda>t. t\<^sup>2 - 2 * t + 4)"
    by (simp add: kff_fn_dm_closed fun_eq_iff)
  have "((\<lambda>t. kff_fn_dm 0 0 0 0 1 1 t) has_real_derivative kff_phi_dm 0 0 0 0 1 1 3) (at 3)"
    by (rule kff_fn_dm_deriv_phi) simp_all
  moreover have "((\<lambda>t. t\<^sup>2 - 2 * t + 4) has_real_derivative 4) (at 3)"
    by (auto intro!: derivative_eq_intros)
  ultimately show ?thesis
    unfolding e by (rule DERIV_unique)
qed

lemma K_l_x_dm_val: "K_l_x_dm 1 [0] [0] 1 1 3 = [[0, 0], [0, - 1]]"
  unfolding K_l_x_dm_eq
  by (simp add: mk_mat_def eval_nat_numeral kuu_l_x_dm_val kfu_l_x_dm_val kff_l_x_dm_val)

lemma K_l_y_dm_val: "K_l_y_dm 1 [0] [0] 1 1 3 = [[0, 1], [1, 0]]"
  unfolding K_l_y_dm_eq
  by (simp add: mk_mat_def eval_nat_numeral kuu_l_y_dm_val kfu_l_y_dm_val kff_l_y_dm_val)

lemma K_phi_dm_val: "K_phi_dm 1 [0] [0] 1 1 3 = [[0, 1], [1, 4]]"
  unfolding K_phi_dm_eq
  by (simp add: mk_mat_def eval_nat_numeral kuu_phi_dm_zero kfu_phi_dm_val kff_phi_dm_val)

lemma K_inv_dm_mat: "is_mat 1 1 [[1 / 4 :: real]]" "is_mat 1 1 [[1 / 9 :: real]]"
  by (simp_all add: is_mat_def)


subsection \<open>The SVD path\<close>

text \<open>
  A left inverse of a square matrix is what \<^verbatim>\<open>np.linalg.inv\<close> returns, and a right
  inverse; the inverse of \<open>diag(s)\<close>; and the inverse that the SVD path assembles from
  a singular value decomposition without a zero singular value.
\<close>

lemma left_inverse_inv:
  assumes A: "is_mat n n A" and X: "is_mat n n X" and l: "mm n X A = eye n"
  shows "inv A = Inr X" and "mm n A X = eye n"
proof -
  let ?M = "\<lambda>i j. A ! i ! j"
  have len: "length A = n" using A by (simp add: is_mat_def)
  have li: "(\<Sum>k<n. X ! i ! k * A ! k ! j) = (if i = j then 1 else 0)" if "i < n" "j < n" for i j
    using arg_cong[OF l, of "\<lambda>M. M ! i ! j"] that by (simp add: entry_ops eye_entry)
  have d: "det A \<noteq> 0" by (rule det_nonzero[OF A l])
  have dn: "det_fn n ?M \<noteq> 0" using d by (simp add: det_def len)
  have e: "adj_inv n ?M i j = X ! i ! j" if "i < n" "j < n" for i j
    by (rule adj_inv_unique[of n "\<lambda>i j. X ! i ! j" ?M, OF _ that]) (rule li)
  have "mk_mat n n (adj_inv n ?M) = mk_mat n n (\<lambda>i j. X ! i ! j)"
    by (rule mk_mat_cong) (rule e)
  also have "\<dots> = X"
    by (rule is_mat_eq_mk_mat[OF X, symmetric])
  finally have G: "mk_mat n n (adj_inv n ?M) = X" .
  show "inv A = Inr X"
    using inv_adj_inv[OF A d] by (simp only: G)
  show "mm n A X = eye n"
    unfolding mm_def eye_def
  proof (rule mk_mat_cong)
    fix i j assume ij: "i < n" "j < n"
    have "(\<Sum>k<n. A ! i ! k * X ! k ! j) = (\<Sum>k<n. ?M i k * adj_inv n ?M k j)"
      by (rule sum.cong[OF refl]) (use e ij in simp)
    also have "\<dots> = (if i = j then 1 else 0)"
      by (rule adj_inv_right[OF dn ij])
    finally show "(\<Sum>k<n. A ! i ! k * X ! k ! j) = (if i = j then 1 else 0)" .
  qed
qed

lemma is_mat_diag_mat [simp]: "is_mat (length v) (length v) (diag_mat v)"
  by (simp add: diag_mat_def)

lemma diag_mat_entry:
  "i < length v \<Longrightarrow> j < length v \<Longrightarrow> diag_mat v ! i ! j = (if i = j then v ! i else 0)"
  by (simp add: diag_mat_def)

lemma mm_diag_left:
  assumes "length v = n"
  shows "mm n (diag_mat v) A = mk_mat n n (\<lambda>i j. v ! i * A ! i ! j)"
  unfolding mm_def
proof (rule mk_mat_cong)
  fix i j assume ij: "i < n" "j < n"
  have "(\<Sum>k<n. diag_mat v ! i ! k * A ! k ! j) = (\<Sum>k<n. if k = i then v ! i * A ! i ! j else 0)"
    by (rule sum.cong[OF refl]) (use ij assms in \<open>simp add: diag_mat_entry\<close>)
  also have "\<dots> = v ! i * A ! i ! j" using ij by (simp add: sum.delta)
  finally show "(\<Sum>k<n. diag_mat v ! i ! k * A ! k ! j) = v ! i * A ! i ! j" .
qed

lemma diag_inverse_left:
  assumes "0 \<notin> set v" "length v = n"
  shows "mm n (diag_mat (map inverse v)) (diag_mat v) = eye n"
proof -
  have nz: "v ! i \<noteq> 0" if "i < n" for i
    using assms that by (metis nth_mem)
  show ?thesis
    unfolding mm_diag_left[of "map inverse v" n, simplified, OF assms(2)] eye_def
    by (rule mk_mat_cong) (use assms(2) nz in \<open>simp add: diag_mat_entry\<close>)
qed

lemma inv_diag_mat:
  assumes "0 \<notin> set v"
  shows "inv (diag_mat v) = Inr (diag_mat (map inverse v))"
proof (rule left_inverse_inv(1)[of "length v"])
  show "is_mat (length v) (length v) (diag_mat (map inverse v))"
    using is_mat_diag_mat[of "map inverse v"] by simp
  show "mm (length v) (diag_mat (map inverse v)) (diag_mat v) = eye (length v)"
    by (rule diag_inverse_left[OF assms refl])
qed simp


lemma svd_inverse:
  assumes svd: "is_svd M (u, s, vt)" and nz: "0 \<notin> set s"
  shows "inv M = Inr (matmul (matmul (mat_T vt) (diag_mat (map inverse s))) (mat_T u))"
    and "matmul M (matmul (matmul (mat_T vt) (diag_mat (map inverse s))) (mat_T u))
           = eye (length M)"
proof -
  define n where "n = length M"
  let ?D = "diag_mat s" and ?Di = "diag_mat (map inverse s)"
  have U: "is_mat n n u" and ls: "length s = n" and V: "is_mat n n vt"
    and Meq: "matmul (matmul u ?D) vt = M"
    and uu: "matmul (mat_T u) u = eye n" and vv: "matmul vt (mat_T vt) = eye n"
    using svd by (simp_all add: is_svd_def n_def)
  have D: "is_mat n n ?D" using is_mat_diag_mat[of s] by (simp add: ls)
  have Di: "is_mat n n ?Di" using is_mat_diag_mat[of "map inverse s"] by (simp add: ls)
  have M: "M = mm n (mm n u ?D) vt"
    using Meq by (simp add: to_fixed[where n = n] U D V)
  have Mm: "is_mat n n M" by (subst M) simp
  have uu': "mm n (mt n u) u = eye n"
    using uu by (simp add: to_fixed[where n = n] U)
  have vv': "mm n vt (mt n vt) = eye n"
    using vv by (simp add: to_fixed[where n = n] V)
  have vv'': "mm n (mt n vt) vt = eye n"
    by (rule left_inverse_inv(2)[OF _ V vv']) simp
  have dd: "mm n ?Di ?D = eye n"
    by (rule diag_inverse_left[OF nz ls])
  let ?X = "mm n (mm n (mt n vt) ?Di) (mt n u)"
  have X: "matmul (matmul (mat_T vt) ?Di) (mat_T u) = ?X"
    by (simp add: to_fixed[where n = n] U D Di V)
  have "mm n ?X M = mm n (mt n vt) (mm n ?Di (mm n (mm n (mt n u) u) (mm n ?D vt)))"
    by (subst M) (simp only: mm_assoc)
  also have "\<dots> = mm n (mt n vt) (mm n (mm n ?Di ?D) vt)"
    by (simp only: uu' mm_eye_left[OF is_mat_ops(1)] mm_assoc)
  also have "\<dots> = eye n"
    by (simp only: dd mm_eye_left[OF V] vv'')
  finally have l: "mm n ?X M = eye n" .
  have Xm: "is_mat n n ?X" by simp
  show "inv M = Inr (matmul (matmul (mat_T vt) ?Di) (mat_T u))"
    unfolding X by (rule left_inverse_inv(1)[OF Mm Xm l])
  have "mm n M ?X = eye n"
    by (rule left_inverse_inv(2)[OF Mm Xm l])
  then show "matmul M (matmul (matmul (mat_T vt) ?Di) (mat_T u)) = eye (length M)"
    unfolding X by (simp add: to_fixed[where n = n] Mm n_def[symmetric])
qed


lemma cholesky_first_pivot:
  "hd r \<le> 0 \<Longrightarrow> cholesky (r # rs) = Inl NotPositiveDefinite"
  by (simp add: cholesky.simps)

lemma K_ad_origin:
  "K_ad 1 [0] [0] [0] sigma 1 1 1 0 0 0 0 s = [[sigma + s, 0], [0, sigma + s]]"
  by (simp add: K_ad_def kuf_ad_def kuu_ad_eq kff_ad_eq kfu_ad_eq kuu_ad_zero kff_ad_zero
      kfu_ad_zero mat_defs)

lemma K_dm_origin: "K_dm 1 [0] [0] s 1 1 1 = [[1 + s, 0], [0, 3 + s]]"
  by (simp add: K_dm_def kuf_dm_def kuu_dm_eq kff_dm_eq kfu_dm_eq kuu_fn_dm_closed
      kfu_fn_dm_closed kff_fn_dm_closed mat_defs)

lemma K_st_origin: "K_st [0, 0, 0, 1] [0] [0] s = [[1 + s, 0], [0, 3 + s]]"
  by (simp add: K_st_def kuf_st_def kuu_st_eq kff_st_eq kfu_st_eq kuu_st_val kff_st_val
      kfu_st_val mat_defs)

lemma A_Matern_origin:
  "mat_add (kuu_Matern [0] [0] 1 1 1) (smul s (eye 1)) = [[1 + s]]"
  by (simp add: kuu_Matern_eq kuu_Matern_zero mat_defs)

lemma svd_diag_2x2:
  "svd_diag [[a, 0], [0, d]]
   = ([[1, 0], [0, 1]], [\<bar>a\<bar>, \<bar>d\<bar>],
      [[if a < 0 then - 1 else 1, 0], [0, if d < 0 then - 1 else 1]])"
  by (simp add: svd_diag_def mat_defs eval_nat_numeral)

lemma svd_diag_1x1: "svd_diag [[a]] = ([[1]], [\<bar>a\<bar>], [[if a < 0 then - 1 else 1]])"
  by (simp add: svd_diag_def mat_defs)

lemma is_svd_diag_2x2:
  "\<bar>d\<bar> \<le> \<bar>a\<bar> \<Longrightarrow> is_svd [[a, 0], [0, d]] (svd_diag [[a, 0], [0, d]])"
  by (simp add: svd_diag_2x2 is_svd_def is_mat_def mat_defs eval_nat_numeral)

lemma svd_block:
  "and_then (inv (diag_mat s_mat)) f
   = (if 0 \<in> set s_mat then Inl SingularMatrix else f (diag_mat (map inverse s_mat)))"
  by (simp add: inv_diag_zero inv_diag_mat)

lemma item_scalar_plus: "item (mat_add [[a]] M) 0 = a + M ! 0 ! 0"
  by (simp add: item_def mat_add_def mk_mat_def nrows_def ncols_def)

section \<open>Claims\<close>

text \<open>
  C7.  In the Mat\'ern-kernel evaluator, an off-diagonal entry \<open>(i, j)\<close>, \<open>i \<noteq> j\<close>, of
  \<open>kff\<close> and of \<open>kfu\<close> is the kernel function at the exact sample coordinates; only a
  diagonal entry is evaluated with the second point shifted by \<open>corr_nan = 1e-4\<close> in both
  its x and its y coordinate.
\<close>

theorem C7_Matern_perturbation_only_on_diagonal:
  assumes "i < length x" "j < length x"
  shows "kff_Matern x y sigma l_x l_y phi ! i ! j =
           (if i = j
            then kff_fn_Matern (x ! i) (x ! i + 1 / 10 ^ 4) (y ! i) (y ! i + 1 / 10 ^ 4)
                   sigma l_x l_y phi
            else kff_fn_Matern (x ! i) (x ! j) (y ! i) (y ! j) sigma l_x l_y phi)
       \<and> kfu_Matern x y sigma l_x l_y phi ! i ! j =
           (if i = j
            then kfu_fn_Matern (x ! i) (x ! i + 1 / 10 ^ 4) (y ! i) (y ! i + 1 / 10 ^ 4)
                   sigma l_x l_y phi
            else kfu_fn_Matern (x ! i) (x ! j) (y ! i) (y ! j) sigma l_x l_y phi)"
  using assms by (simp add: kff_Matern_eq kfu_Matern_eq corr_nan_def)

theorem C7_witness:
  "(0::nat) < length [0, 1 :: real] \<and> (1::nat) < length [0, 1 :: real] \<and>
   kff_Matern [0, 1] [2, 3] 1 1 1 2 ! 0 ! 1 = kff_fn_Matern 0 1 2 3 1 1 1 2 \<and>
   kfu_Matern [0, 1] [2, 3] 1 1 1 2 ! 0 ! 1 = kfu_fn_Matern 0 1 2 3 1 1 1 2"
  using C7_Matern_perturbation_only_on_diagonal[of 0 "[0, 1]" 1 "[2, 3]" 1 1 1 2]
  by simp

text \<open>
  C1.  Claimed: on the Cholesky path the log-determinant returned for \<open>M = L L\<^sup>T\<close> is
  \<open>2 \<Sum>\<^sub>i log |L\<^sub>i\<^sub>i|\<close>, the value the SVD path returns for the same matrix.  The theorem
  evaluates \<^verbatim>\<open>K_inv_and_det\<close> of the advection-diffusion notebook at one sample point
  with \<open>K = 4 I\<close>: the Cholesky factor is \<open>2 I\<close> and the value returned is
  \<open>\<Sum>\<^sub>i log |L\<^sub>i\<^sub>i| = 2 log 2\<close>, half of \<open>2 \<Sum>\<^sub>i log |L\<^sub>i\<^sub>i| = log det K = 4 log 2\<close>, which is
  what the SVD path computes from the singular values 4, 4.
\<close>

theorem C1_cholesky_path_returns_half_the_log_determinant:
  "K_inv_and_det_ad svd 1 [0] [0] [0] 3 1 1 1 0 0 0 0 1 = Inr ([[1 / 4, 0], [0, 1 / 4]], 2 * ln 2)
   \<and> cholesky (K_ad 1 [0] [0] [0] 3 1 1 1 0 0 0 0 1) = Inr [[2, 0], [0, 2]]
   \<and> 2 * (\<Sum>i<2. ln \<bar>[[2, 0], [0, 2 :: real]] ! i ! i\<bar>) = 4 * ln 2
   \<and> ln \<bar>det (K_ad 1 [0] [0] [0] 3 1 1 1 0 0 0 0 1)\<bar> = 4 * ln 2
   \<and> is_svd (K_ad 1 [0] [0] [0] 3 1 1 1 0 0 0 0 1) (svd_4I (K_ad 1 [0] [0] [0] 3 1 1 1 0 0 0 0 1))
   \<and> svd_path svd_4I (K_ad 1 [0] [0] [0] 3 1 1 1 0 0 0 0 1)
       = Inr ([[1 / 4, 0], [0, 1 / 4]], 4 * ln 2)
   \<and> 2 * ln 2 \<noteq> 4 * ln (2 :: real)"
proof (intro conjI)
  show "K_inv_and_det_ad svd 1 [0] [0] [0] 3 1 1 1 0 0 0 0 1
        = Inr ([[1 / 4, 0], [0, 1 / 4]], 2 * ln 2)"
    apply (simp only: K_inv_and_det_ad_def K_ad_val chol_path_def chol_4I and_then_simps solve_2I
        try_except_simps Let_def for_range_sum)
    apply (simp add: mat_defs eval_nat_numeral)
    done
  show "cholesky (K_ad 1 [0] [0] [0] 3 1 1 1 0 0 0 0 1) = Inr [[2, 0], [0, 2]]"
    by (simp only: K_ad_val chol_4I)
  show "2 * (\<Sum>i<2. ln \<bar>[[2, 0], [0, 2 :: real]] ! i ! i\<bar>) = 4 * ln 2"
    by (simp add: eval_nat_numeral)
  show "ln \<bar>det (K_ad 1 [0] [0] [0] 3 1 1 1 0 0 0 0 1)\<bar> = 4 * ln 2"
    by (simp only: K_ad_val det_2x2) (simp add: ln_16)
  show "is_svd (K_ad 1 [0] [0] [0] 3 1 1 1 0 0 0 0 1)
          (svd_4I (K_ad 1 [0] [0] [0] 3 1 1 1 0 0 0 0 1))"
    by (simp only: K_ad_val) (simp add: is_svd_def svd_4I_def is_mat_def mat_defs eval_nat_numeral)
  show "svd_path svd_4I (K_ad 1 [0] [0] [0] 3 1 1 1 0 0 0 0 1)
        = Inr ([[1 / 4, 0], [0, 1 / 4]], 4 * ln 2)"
  proof -
    have d: "diag_mat [4, 4] = [[4, 0], [0, 4]]"
      by (simp add: mat_defs eval_nat_numeral)
    have i: "inv [[4, 0], [0, 4]] = Inr [[1 / 4, 0], [0, 1 / 4]]"
      by (rule inv_diag2) simp_all
    have l: "ln (4::real) = 2 * ln 2"
    proof -
      have "(4::real) = 2 ^ 2" by simp
      then show ?thesis by (simp only: ln_realpow)
    qed
    show ?thesis
      apply (simp only: svd_path_def svd_4I_def prod.case d i and_then_simps Let_def for_range_sum)
      apply (simp add: mat_defs eval_nat_numeral l)
      done
  qed
  show "2 * ln 2 \<noteq> 4 * ln (2 :: real)"
    by simp
qed

text \<open>
  C2.  Claimed: the form-A objective returns \<open>log det K + y\<^sup>T K\<^sup>-\<^sup>1 y\<close>.  The theorem evaluates
  \<^verbatim>\<open>nlml\<close> of the stability notebook at one sample point at the origin (so that
  \<open>y_u = y_f = [0]\<close>), parameters \<open>[0, 0, 0, 1]\<close> and the notebook's \<open>s = 1e-7\<close>: the
  value returned is \<open>1\<close>, the sign of \<open>det K\<close> plus the quadratic form \<open>0\<close>, whereas
  \<open>log det K + y\<^sup>T K\<^sup>-\<^sup>1 y = log det K > 1\<close>.
\<close>

theorem C2_nlml_returns_sign_plus_quadratic_form:
  "nlml_st [0, 0, 0, 1] [0] [0] [0] [0] (1 / 10 ^ 7) = Inr 1
   \<and> inv (K_st [0, 0, 0, 1] [0] [0] (1 / 10 ^ 7))
       = Inr [[1 / (1 + 1 / 10 ^ 7), 0], [0, 1 / (3 + 1 / 10 ^ 7)]]
   \<and> vdot (vecmat ([0] @ [0]) [[1 / (1 + 1 / 10 ^ 7), 0], [0, 1 / (3 + 1 / 10 ^ 7)]]) ([0] @ [0]) = 0
   \<and> 1 < ln (det (K_st [0, 0, 0, 1] [0] [0] (1 / 10 ^ 7)))"
proof (intro conjI)
  have i: "inv (K_st [0, 0, 0, 1] [0] [0] (1 / 10 ^ 7))
           = Inr [[1 / (1 + 1 / 10 ^ 7), 0], [0, 1 / (3 + 1 / 10 ^ 7)]]"
    unfolding K_st_val by (rule inv_diag2) simp_all
  show "inv (K_st [0, 0, 0, 1] [0] [0] (1 / 10 ^ 7))
        = Inr [[1 / (1 + 1 / 10 ^ 7), 0], [0, 1 / (3 + 1 / 10 ^ 7)]]"
    by (rule i)
  show "nlml_st [0, 0, 0, 1] [0] [0] [0] [0] (1 / 10 ^ 7) = Inr 1"
    unfolding nlml_st_value[OF i] K_st_val det_2x2
    by (simp add: mat_defs)
  show "vdot (vecmat ([0] @ [0]) [[1 / (1 + 1 / 10 ^ 7), 0], [0, 1 / (3 + 1 / 10 ^ 7)]])
          ([0] @ [0]) = 0"
    by (simp add: mat_defs)
  have "exp 1 < (1 + 1 / 10 ^ 7) * (3 + 1 / 10 ^ 7 :: real)"
    using exp_le by (simp add: algebra_simps)
  then have "ln (exp 1) < ln ((1 + 1 / 10 ^ 7) * (3 + 1 / 10 ^ 7 :: real))"
    by (subst ln_less_cancel_iff) simp_all
  then show "1 < ln (det (K_st [0, 0, 0, 1] [0] [0] (1 / 10 ^ 7)))"
    unfolding K_st_val det_2x2 by simp
qed

text \<open>
  C8.  Claimed: whenever the Cholesky factorisation fails, the solver returns the result
  of the SVD path; the failure is recovered locally and nothing reaches the caller.
  Counterexample: \<^verbatim>\<open>K_inv_and_det(0, 1, 1, 1, 0, 0, 0, 0, 0)\<close> of the advection-diffusion
  notebook with one sample point at the origin.  \<open>K\<close> is the zero matrix, Cholesky raises,
  both singular values are 0 and \<^verbatim>\<open>np.linalg.inv(np.diag(s_mat))\<close> raises
  \<^verbatim>\<open>LinAlgError\<close> inside the \<^verbatim>\<open>except\<close> block: no result is returned and the error
  reaches the caller.  Likewise \<^verbatim>\<open>nlml\<close> of the determinant notebook at
  \<open>params = (0, 0, 1)\<close> with \<open>s = -3\<close>, where \<open>K = diag(-2, 0)\<close>.
\<close>

theorem C8_counterexample:
  "cholesky (K_ad 1 [0] [0] [0] 0 1 1 1 0 0 0 0 0) = Inl NotPositiveDefinite
   \<and> is_svd (K_ad 1 [0] [0] [0] 0 1 1 1 0 0 0 0 0) (svd_diag (K_ad 1 [0] [0] [0] 0 1 1 1 0 0 0 0 0))
   \<and> fst (snd (svd_diag (K_ad 1 [0] [0] [0] 0 1 1 1 0 0 0 0 0))) = [0, 0]
   \<and> K_inv_and_det_ad svd_diag 1 [0] [0] [0] 0 1 1 1 0 0 0 0 0 = Inl SingularMatrix
   \<and> cholesky (K_dm 1 [0] [0] (- 3) (exp 0) (exp 0) 1) = Inl NotPositiveDefinite
   \<and> is_svd (K_dm 1 [0] [0] (- 3) (exp 0) (exp 0) 1) (svd_diag (K_dm 1 [0] [0] (- 3) (exp 0) (exp 0) 1))
   \<and> fst (snd (svd_diag (K_dm 1 [0] [0] (- 3) (exp 0) (exp 0) 1))) = [2, 0]
   \<and> nlml_dm svd_diag 1 [0] [0] [1] [1] (- 3) [0, 0, 1] = Inl SingularMatrix"
proof -
  have k: "K_ad 1 [0] [0] [0] 0 1 1 1 0 0 0 0 0 = [[0, 0], [0, 0]]"
    using K_ad_origin[of 0 0] by simp
  have kd: "K_dm 1 [0] [0] (- 3) (exp 0) (exp 0) 1 = [[- 2, 0], [0, 0]]"
    using K_dm_origin[of "- 3"] by simp
  have c: "cholesky [[0, 0], [0, 0 :: real]] = Inl NotPositiveDefinite"
    by (rule cholesky_first_pivot) simp
  have cd: "cholesky [[- 2, 0], [0, 0 :: real]] = Inl NotPositiveDefinite"
    by (rule cholesky_first_pivot) simp
  have i: "is_svd [[0, 0], [0, 0]] (svd_diag [[0, 0], [0, 0]])"
    by (rule is_svd_diag_2x2) simp
  have i2: "is_svd [[- 2, 0], [0, 0]] (svd_diag [[- 2, 0], [0, 0]])"
    by (rule is_svd_diag_2x2) simp
  have s: "fst (snd (svd_diag [[0, 0], [0, 0]])) = [0, 0]"
    by (simp add: svd_diag_2x2)
  have sd: "fst (snd (svd_diag [[- 2, 0], [0, 0]])) = [2, 0]"
    by (simp add: svd_diag_2x2)
  have r: "K_inv_and_det_ad svd_diag 1 [0] [0] [0] 0 1 1 1 0 0 0 0 0 = Inl SingularMatrix"
    unfolding K_inv_and_det_ad_def chol_path_def svd_path_def k c
    by (simp add: svd_diag_2x2 svd_block)
  have p: "exp ([0, 0, 1 :: real] ! 0) = exp 0" "exp ([0, 0, 1 :: real] ! 1) = exp 0"
    "[0, 0, 1 :: real] ! 2 = 1"
    by simp_all
  have rd: "nlml_dm svd_diag 1 [0] [0] [1] [1] (- 3) [0, 0, 1] = Inl SingularMatrix"
    unfolding nlml_dm_def Let_def p kd cd
    by (simp add: svd_diag_2x2 svd_block)
  show ?thesis
    unfolding k kd using c cd i i2 s sd r rd by (simp only: simp_thms)
qed


text \<open>
  C8, amended.  Whenever the Cholesky factorisation of the matrix raises, the
  \<^verbatim>\<open>except\<close> block runs on the singular value decomposition \<open>(u, s, vt)\<close> of the same
  matrix.  If no singular value is zero it computes \<open>vt\<^sup>T diag(1/s) u\<^sup>T\<close>, and
  \<^verbatim>\<open>K_inv_and_det\<close> returns it with \<open>\<Sum>\<^sub>i log s\<^sub>i\<close>; \<^verbatim>\<open>nlml\<close> of the determinant notebook
  returns \<open>\<Prod>\<^sub>i (y\<^sup>T K\<^sup>-\<^sup>1 y) s\<^sub>i\<close>; the block of the Mat\'ern \<^verbatim>\<open>nlml\<close> yields it with
  \<open>\<Sum>\<^sub>i log s\<^sub>i\<close> and \<^verbatim>\<open>nlml\<close> goes on to the Schur complement with these.  If
  \<open>(u, s, vt)\<close> is a singular value decomposition of \<open>K\<close>, that matrix is the inverse of
  \<open>K\<close>.  If a singular value is zero, the inversion of \<open>diag(s)\<close> raises and the error
  leaves the function.
\<close>

theorem C8_cholesky_failure_runs_the_svd_path:
  assumes "K = K_ad n x y t sigma l_x l_y l_t a b c d s"
    and "cholesky K = Inl e"
    and "svd K = (u, s_mat, vt)"
    and "K_inv = matmul (matmul (mat_T vt) (diag_mat (map inverse s_mat))) (mat_T u)"
    and "Kd = K_dm m xd yd sd (exp (p ! 0)) (exp (p ! 1)) (p ! 2)"
    and "cholesky Kd = Inl ed"
    and "svd Kd = (ud, sd_mat, vtd)"
    and "Kd_inv = matmul (matmul (mat_T vtd) (diag_mat (map inverse sd_mat))) (mat_T ud)"
    and "A = mat_add (kuu_Matern xm ym (exp (q ! 0)) (exp (q ! 1)) (exp (q ! 2))) (smul sm (eye k))"
    and "B = mat_T (kfu_Matern xm ym (exp (q ! 0)) (exp (q ! 1)) (exp (q ! 2)) (q ! 3))"
    and "C = mat_add (kff_Matern xm ym (exp (q ! 0)) (exp (q ! 1)) (exp (q ! 2)) (q ! 3))
               (smul sm (eye k))"
    and "cholesky A = Inl em"
    and "svd A = (um, sm_mat, vtm)"
    and "A_inv = matmul (matmul (mat_T vtm) (diag_mat (map inverse sm_mat))) (mat_T um)"
  shows "K_inv_and_det_ad svd n x y t sigma l_x l_y l_t a b c d s
           = (if 0 \<in> set s_mat then Inl SingularMatrix
              else Inr (K_inv, \<Sum>i<length s_mat. ln (s_mat ! i)))
       \<and> (is_svd K (u, s_mat, vt) \<and> 0 \<notin> set s_mat
            \<longrightarrow> inv K = Inr K_inv \<and> matmul K K_inv = eye (length K))
       \<and> nlml_dm svd m xd yd yd_u yd_f sd p
           = (if 0 \<in> set sd_mat then Inl SingularMatrix
              else Inr (prod_list (vscale (vdot (vecmat (yd_u @ yd_f) Kd_inv) (yd_u @ yd_f))
                                     sd_mat)))
       \<and> chol_or_svd_inv_logdet svd k A
           = (if 0 \<in> set sm_mat then Inl SingularMatrix
              else Inr (A_inv, sum_list (map ln sm_mat)))
       \<and> nlml_Matern svd k xm ym ym_u ym_f sm q
           = (if 0 \<in> set sm_mat then Inl SingularMatrix
              else and_then
                     (chol_or_svd_inv_logdet svd k
                        (mat_sub C (matmul (matmul (mat_T B) A_inv) B)))
                     (\<lambda>(KA_inv, logdet_KA).
                        Inr (vdot (vecmat ym_u
                                     (mat_add A_inv
                                        (matmul (matmul (matmul (matmul A_inv B) KA_inv) (mat_T B))
                                           A_inv))) ym_u
                             - vdot (vecmat (vscale 2 ym_u) (matmul (matmul A_inv B) KA_inv)) ym_f
                             + vdot (vecmat ym_f KA_inv) ym_f
                             + sum_list (map ln sm_mat) + logdet_KA)))"
proof (intro conjI impI)
  show "K_inv_and_det_ad svd n x y t sigma l_x l_y l_t a b c d s
          = (if 0 \<in> set s_mat then Inl SingularMatrix
             else Inr (K_inv, \<Sum>i<length s_mat. ln (s_mat ! i)))"
    using assms(2,3) unfolding K_inv_and_det_ad_def chol_path_def svd_path_def assms(1)[symmetric]
    by (simp add: svd_block assms(4) for_range_sum)
  show "nlml_dm svd m xd yd yd_u yd_f sd p
          = (if 0 \<in> set sd_mat then Inl SingularMatrix
             else Inr (prod_list (vscale (vdot (vecmat (yd_u @ yd_f) Kd_inv) (yd_u @ yd_f))
                                    sd_mat)))"
    using assms(6,7) unfolding nlml_dm_def Let_def assms(5)[symmetric]
    by (simp add: svd_block assms(8))
  show blk: "chol_or_svd_inv_logdet svd k A
             = (if 0 \<in> set sm_mat then Inl SingularMatrix
                else Inr (A_inv, sum_list (map ln sm_mat)))"
    using assms(12,13) unfolding chol_or_svd_inv_logdet_def
    by (simp add: svd_block assms(14))
  show "nlml_Matern svd k xm ym ym_u ym_f sm q
          = (if 0 \<in> set sm_mat then Inl SingularMatrix
             else and_then
                    (chol_or_svd_inv_logdet svd k
                       (mat_sub C (matmul (matmul (mat_T B) A_inv) B)))
                    (\<lambda>(KA_inv, logdet_KA).
                       Inr (vdot (vecmat ym_u
                                    (mat_add A_inv
                                       (matmul (matmul (matmul (matmul A_inv B) KA_inv) (mat_T B))
                                          A_inv))) ym_u
                            - vdot (vecmat (vscale 2 ym_u) (matmul (matmul A_inv B) KA_inv)) ym_f
                            + vdot (vecmat ym_f KA_inv) ym_f
                            + sum_list (map ln sm_mat) + logdet_KA)))"
    unfolding nlml_Matern_def Let_def assms(9)[symmetric] assms(10)[symmetric]
      assms(11)[symmetric] blk
    by simp
next
  assume h: "is_svd K (u, s_mat, vt) \<and> 0 \<notin> set s_mat"
  show "inv K = Inr K_inv"
    unfolding assms(4) by (rule svd_inverse(1)) (use h in simp_all)
  show "matmul K K_inv = eye (length K)"
    unfolding assms(4) by (rule svd_inverse(2)) (use h in simp_all)
qed

theorem C8_witness:
  "cholesky (K_ad 1 [0] [0] [0] 3 1 1 1 0 0 0 0 (- 5)) = Inl NotPositiveDefinite
   \<and> is_svd (K_ad 1 [0] [0] [0] 3 1 1 1 0 0 0 0 (- 5))
         (svd_diag (K_ad 1 [0] [0] [0] 3 1 1 1 0 0 0 0 (- 5)))
   \<and> fst (snd (svd_diag (K_ad 1 [0] [0] [0] 3 1 1 1 0 0 0 0 (- 5)))) = [2, 2]
   \<and> K_inv_and_det_ad svd_diag 1 [0] [0] [0] 3 1 1 1 0 0 0 0 (- 5)
       = Inr ([[- (1 / 2), 0], [0, - (1 / 2)]], ln 2 + ln 2)
   \<and> inv (K_ad 1 [0] [0] [0] 3 1 1 1 0 0 0 0 (- 5)) = Inr [[- (1 / 2), 0], [0, - (1 / 2)]]
   \<and> cholesky (K_dm 1 [0] [0] (- 5) (exp 0) (exp 0) 1) = Inl NotPositiveDefinite
   \<and> fst (snd (svd_diag (K_dm 1 [0] [0] (- 5) (exp 0) (exp 0) 1))) = [4, 2]
   \<and> nlml_dm svd_diag 1 [0] [0] [1] [1] (- 5) [0, 0, 1] = Inr (9 / 2)
   \<and> cholesky (mat_add (kuu_Matern [0] [0] (exp 0) (exp 0) (exp 0)) (smul (- 3) (eye 1)))
       = Inl NotPositiveDefinite
   \<and> chol_or_svd_inv_logdet svd_diag 1
         (mat_add (kuu_Matern [0] [0] (exp 0) (exp 0) (exp 0)) (smul (- 3) (eye 1)))
       = Inr ([[- (1 / 2)]], ln 2)
   \<and> nlml_Matern svd_diag 1 [0] [0] [1] [1] (- 3) [0, 0, 0, 0]
       = and_then
           (chol_or_svd_inv_logdet svd_diag 1
              (mat_sub (mat_add (kff_Matern [0] [0] (exp 0) (exp 0) (exp 0) 0) (smul (- 3) (eye 1)))
                 (matmul (matmul (mat_T (mat_T (kfu_Matern [0] [0] (exp 0) (exp 0) (exp 0) 0)))
                            [[- (1 / 2)]])
                    (mat_T (kfu_Matern [0] [0] (exp 0) (exp 0) (exp 0) 0)))))
           (\<lambda>(KA_inv, logdet_KA).
              Inr (vdot (vecmat [1]
                           (mat_add [[- (1 / 2)]]
                              (matmul
                                 (matmul
                                    (matmul
                                       (matmul [[- (1 / 2)]]
                                          (mat_T (kfu_Matern [0] [0] (exp 0) (exp 0) (exp 0) 0)))
                                       KA_inv)
                                    (mat_T (mat_T (kfu_Matern [0] [0] (exp 0) (exp 0) (exp 0) 0))))
                                 [[- (1 / 2)]]))) [1]
                   - vdot (vecmat (vscale 2 [1])
                             (matmul
                                (matmul [[- (1 / 2)]]
                                   (mat_T (kfu_Matern [0] [0] (exp 0) (exp 0) (exp 0) 0)))
                                KA_inv)) [1]
                   + vdot (vecmat [1] KA_inv) [1]
                   + ln 2 + logdet_KA))"
proof -
  let ?K = "K_ad 1 [0] [0] [0] 3 1 1 1 0 0 0 0 (- 5)"
  let ?Kd = "K_dm 1 [0] [0] (- 5) (exp 0) (exp 0) 1"
  let ?A = "mat_add (kuu_Matern [0] [0] (exp 0) (exp 0) (exp 0)) (smul (- 3) (eye 1))"
  let ?B = "mat_T (kfu_Matern [0] [0] (exp 0) (exp 0) (exp 0) 0)"
  let ?C = "mat_add (kff_Matern [0] [0] (exp 0) (exp 0) (exp 0) 0) (smul (- 3) (eye 1))"
  have k: "?K = [[- 2, 0], [0, - 2]]"
    using K_ad_origin[of 3 "- 5"] by simp
  have kd: "?Kd = [[- 4, 0], [0, - 2]]"
    using K_dm_origin[of "- 5"] by simp
  have a: "?A = [[- 2]]"
    using A_Matern_origin[of "- 3"] by simp
  have c: "cholesky ?K = Inl NotPositiveDefinite"
    unfolding k by (rule cholesky_first_pivot) simp
  have cd: "cholesky ?Kd = Inl NotPositiveDefinite"
    unfolding kd by (rule cholesky_first_pivot) simp
  have ca: "cholesky ?A = Inl NotPositiveDefinite"
    unfolding a by (rule cholesky_first_pivot) simp
  have s: "svd_diag ?K = ([[1, 0], [0, 1]], [2, 2], [[- 1, 0], [0, - 1]])"
    unfolding k by (simp add: svd_diag_2x2)
  have sd: "svd_diag ?Kd = ([[1, 0], [0, 1]], [4, 2], [[- 1, 0], [0, - 1]])"
    unfolding kd by (simp add: svd_diag_2x2)
  have sa: "svd_diag ?A = ([[1]], [2], [[- 1]])"
    unfolding a by (simp add: svd_diag_1x1)
  have i: "is_svd ?K (svd_diag ?K)"
    unfolding k by (rule is_svd_diag_2x2) simp
  have ki: "[[- (1 / 2), 0], [0, - (1 / 2)]]
            = matmul (matmul (mat_T [[- 1, 0], [0, - 1]]) (diag_mat (map inverse [2, 2])))
                (mat_T [[1, 0], [0, 1]])"
    by (simp add: mat_defs eval_nat_numeral)
  have kdi: "[[- (1 / 4), 0], [0, - (1 / 2)]]
            = matmul (matmul (mat_T [[- 1, 0], [0, - 1]]) (diag_mat (map inverse [4, 2])))
                (mat_T [[1, 0], [0, 1]])"
    by (simp add: mat_defs eval_nat_numeral)
  have ai: "[[- (1 / 2)]]
            = matmul (matmul (mat_T [[- 1]]) (diag_mat (map inverse [2]))) (mat_T [[1]])"
    by (simp add: mat_defs)
  have kq: "?Kd = K_dm 1 [0] [0] (- 5) (exp ([0, 0, 1] ! 0)) (exp ([0, 0, 1] ! 1)) ([0, 0, 1] ! 2)"
    by simp
  have aq: "?A = mat_add (kuu_Matern [0] [0] (exp ([0, 0, 0, 0] ! 0)) (exp ([0, 0, 0, 0] ! 1))
                            (exp ([0, 0, 0, 0] ! 2))) (smul (- 3) (eye 1))"
    by simp
  have bq: "?B = mat_T (kfu_Matern [0] [0] (exp ([0, 0, 0, 0] ! 0)) (exp ([0, 0, 0, 0] ! 1))
                          (exp ([0, 0, 0, 0] ! 2)) ([0, 0, 0, 0] ! 3))"
    by simp
  have cq: "?C = mat_add (kff_Matern [0] [0] (exp ([0, 0, 0, 0] ! 0)) (exp ([0, 0, 0, 0] ! 1))
                            (exp ([0, 0, 0, 0] ! 2)) ([0, 0, 0, 0] ! 3)) (smul (- 3) (eye 1))"
    by simp
  note t = C8_cholesky_failure_runs_the_svd_path[where svd = svd_diag
      and yd_u = "[1]" and yd_f = "[1]" and ym_u = "[1]" and ym_f = "[1]",
      OF refl c s ki kq cd sd kdi aq bq cq ca sa ai]
  have q: "vdot (vecmat [1, 1] [[- (1 / 4), 0], [0, - (1 / 2)]]) [1, 1] = - (3 / 4)"
    by (simp add: mat_defs eval_nat_numeral)
  have l: "length ?K = 2" unfolding k by simp
  have s1: "fst (snd (svd_diag ?K)) = [2, 2]" unfolding s by simp
  have s2: "fst (snd (svd_diag ?Kd)) = [4, 2]" unfolding sd by simp
  have z: "(0::real) \<notin> set [2, 2]" "(0::real) \<notin> set [4, 2]" "(0::real) \<notin> set [2]"
    by simp_all
  have i': "is_svd ?K ([[1, 0], [0, 1]], [2, 2], [[- 1, 0], [0, - 1]])"
    using i unfolding s .
  from t have t1: "K_inv_and_det_ad svd_diag 1 [0] [0] [0] 3 1 1 1 0 0 0 0 (- 5)
                   = Inr ([[- (1 / 2), 0], [0, - (1 / 2)]], ln 2 + ln 2)"
    using z by (simp add: eval_nat_numeral)
  from t i' z have t2: "inv ?K = Inr [[- (1 / 2), 0], [0, - (1 / 2)]]"
    by blast
  from t have t3: "nlml_dm svd_diag 1 [0] [0] [1] [1] (- 5) [0, 0, 1] = Inr (9 / 2)"
    using z by (simp add: q vscale_def)
  from t have t4: "chol_or_svd_inv_logdet svd_diag 1 ?A = Inr ([[- (1 / 2)]], ln 2)"
    using z by simp
  from t z have t5: "nlml_Matern svd_diag 1 [0] [0] [1] [1] (- 3) [0, 0, 0, 0]
       = and_then
           (chol_or_svd_inv_logdet svd_diag 1
              (mat_sub ?C (matmul (matmul (mat_T ?B) [[- (1 / 2)]]) ?B)))
           (\<lambda>(KA_inv, logdet_KA).
              Inr (vdot (vecmat [1]
                           (mat_add [[- (1 / 2)]]
                              (matmul (matmul (matmul (matmul [[- (1 / 2)]] ?B) KA_inv) (mat_T ?B))
                                 [[- (1 / 2)]]))) [1]
                   - vdot (vecmat (vscale 2 [1]) (matmul (matmul [[- (1 / 2)]] ?B) KA_inv)) [1]
                   + vdot (vecmat [1] KA_inv) [1]
                   + sum_list (map ln [2]) + logdet_KA))"
    by (simp only: if_False)
  have t5': "sum_list (map ln [2::real]) = ln 2" by simp
  show ?thesis
    using c i s1 t1 t2 cd s2 t3 ca t4 t5 unfolding t5' by (simp only: simp_thms)
qed


text \<open>
  C9.  Claimed: when the SVD path meets a near-zero or a zero singular value, the
  objective returns a sentinel and no exception reaches the optimizer.  Counterexample:
  \<^verbatim>\<open>nlml\<close> of the advection-diffusion notebook with one sample point at the origin,
  \<open>params = 0\<close> and \<open>s = -1\<close>.  \<open>K\<close> is the zero matrix, Cholesky raises, both singular
  values are 0, \<^verbatim>\<open>np.linalg.inv(np.diag(s_mat))\<close> raises and \<^verbatim>\<open>nlml\<close> raises.  Likewise
  \<^verbatim>\<open>nlml_svd\<close> of the stability notebook, which takes \<open>s\<close> as an argument, at
  \<open>params = (0, 0, 0, 1)\<close> and \<open>s = -3\<close>, where \<open>K = diag(-2, 0)\<close>.
\<close>

theorem C9_counterexample:
  "cholesky (K_ad 1 [0] [0] [0] (exp 0) (exp 0) (exp 0) (exp 0) 0 0 0 0 (- 1))
     = Inl NotPositiveDefinite
   \<and> is_svd (K_ad 1 [0] [0] [0] (exp 0) (exp 0) (exp 0) (exp 0) 0 0 0 0 (- 1))
         (svd_diag (K_ad 1 [0] [0] [0] (exp 0) (exp 0) (exp 0) (exp 0) 0 0 0 0 (- 1)))
   \<and> fst (snd (svd_diag (K_ad 1 [0] [0] [0] (exp 0) (exp 0) (exp 0) (exp 0) 0 0 0 0 (- 1))))
       = [0, 0]
   \<and> nlml_ad svd_diag 1 [0] [0] [0] [1] [1] (- 1) [0, 0, 0, 0, 0, 0, 0, 0] = Inl SingularMatrix
   \<and> is_svd (K_st [0, 0, 0, 1] [0] [0] (- 3)) (svd_diag (K_st [0, 0, 0, 1] [0] [0] (- 3)))
   \<and> fst (snd (svd_diag (K_st [0, 0, 0, 1] [0] [0] (- 3)))) = [2, 0]
   \<and> nlml_svd_st svd_diag [0, 0, 0, 1] [0] [0] [1] [1] (- 3) = Inl SingularMatrix"
proof -
  have k: "K_ad 1 [0] [0] [0] (exp 0) (exp 0) (exp 0) (exp 0) 0 0 0 0 (- 1) = [[0, 0], [0, 0]]"
    using K_ad_origin[of 1 "- 1"] by simp
  have ks: "K_st [0, 0, 0, 1] [0] [0] (- 3) = [[- 2, 0], [0, 0]]"
    using K_st_origin[of "- 3"] by simp
  have c: "cholesky [[0, 0], [0, 0 :: real]] = Inl NotPositiveDefinite"
    by (rule cholesky_first_pivot) simp
  have i: "is_svd [[0, 0], [0, 0]] (svd_diag [[0, 0], [0, 0]])"
    by (rule is_svd_diag_2x2) simp
  have i2: "is_svd [[- 2, 0], [0, 0]] (svd_diag [[- 2, 0], [0, 0]])"
    by (rule is_svd_diag_2x2) simp
  have s: "fst (snd (svd_diag [[0, 0], [0, 0]])) = [0, 0]"
    by (simp add: svd_diag_2x2)
  have ss: "fst (snd (svd_diag [[- 2, 0], [0, 0]])) = [2, 0]"
    by (simp add: svd_diag_2x2)
  have p: "exp ([0, 0, 0, 0, 0, 0, 0, 0 :: real] ! 0) = exp 0"
    "exp ([0, 0, 0, 0, 0, 0, 0, 0 :: real] ! 1) = exp 0"
    "exp ([0, 0, 0, 0, 0, 0, 0, 0 :: real] ! 2) = exp 0"
    "exp ([0, 0, 0, 0, 0, 0, 0, 0 :: real] ! 3) = exp 0"
    "[0, 0, 0, 0, 0, 0, 0, 0 :: real] ! 4 = 0" "[0, 0, 0, 0, 0, 0, 0, 0 :: real] ! 5 = 0"
    "[0, 0, 0, 0, 0, 0, 0, 0 :: real] ! 6 = 0" "[0, 0, 0, 0, 0, 0, 0, 0 :: real] ! 7 = 0"
    by (simp_all add: eval_nat_numeral)
  have r: "nlml_ad svd_diag 1 [0] [0] [0] [1] [1] (- 1) [0, 0, 0, 0, 0, 0, 0, 0]
           = Inl SingularMatrix"
    unfolding nlml_ad_def Let_def K_inv_and_det_ad_def chol_path_def svd_path_def p k c
    by (simp add: svd_diag_2x2 svd_block)
  have rs: "nlml_svd_st svd_diag [0, 0, 0, 1] [0] [0] [1] [1] (- 3) = Inl SingularMatrix"
    unfolding nlml_svd_st_def Let_def ks
    by (simp add: svd_diag_2x2 svd_block)
  show ?thesis
    unfolding k ks using c i i2 s ss r rs by (simp only: simp_thms)
qed


text \<open>
  C9, amended.  No objective returns a sentinel.  Where the singular value decomposition
  has a singular value that is exactly zero, the inversion of \<open>diag(s)\<close> raises and the
  objective propagates the error to its caller.  Where every singular value is non-zero,
  however small, nothing is raised and the objective returns its ordinary value:
  \<open>\<Sum>\<^sub>i log s\<^sub>i + y\<^sup>T K\<^sup>-\<^sup>1 y\<close> in the advection-diffusion notebook,
  \<open>\<Prod>\<^sub>i (y\<^sup>T K\<^sup>-\<^sup>1 y) s\<^sub>i\<close> in the determinant notebook and \<open>\<Sum>\<^sub>i log |s\<^sub>i| + y\<^sup>T K\<^sup>-\<^sup>1 y\<close> in
  \<^verbatim>\<open>nlml_svd\<close>, with \<open>K\<^sup>-\<^sup>1 = vt\<^sup>T diag(1/s) u\<^sup>T\<close>.  In the example after the theorem both
  singular values are \<open>2^-52\<close> and the value returned is \<open>2 log 2^-52 - 2^53\<close>.
\<close>

theorem C9_zero_singular_value_raises_nonzero_returns_a_value:
  assumes "K = K_ad n x y t (exp (p ! 0)) (exp (p ! 1)) (exp (p ! 2)) (exp (p ! 3))
                 (p ! 4) (p ! 5) (p ! 6) (p ! 7) s"
    and "cholesky K = Inl e"
    and "svd K = (u, s_mat, vt)"
    and "Kd = K_dm m xd yd sd (exp (pd ! 0)) (exp (pd ! 1)) (pd ! 2)"
    and "cholesky Kd = Inl ed"
    and "svd Kd = (ud, sd_mat, vtd)"
    and "svd (K_st q xs ys ss) = (us, sv, vts)"
  shows "nlml_ad svd n x y t y_u y_f s p
           = (if 0 \<in> set s_mat then Inl SingularMatrix
              else Inr ((\<Sum>i<length s_mat. ln (s_mat ! i))
                        + vdot (vecmat (y_u @ y_f)
                                  (matmul (matmul (mat_T vt) (diag_mat (map inverse s_mat)))
                                     (mat_T u)))
                            (y_u @ y_f)))
       \<and> nlml_dm svd m xd yd yd_u yd_f sd pd
           = (if 0 \<in> set sd_mat then Inl SingularMatrix
              else Inr (prod_list
                          (vscale (vdot (vecmat (yd_u @ yd_f)
                                           (matmul (matmul (mat_T vtd)
                                                      (diag_mat (map inverse sd_mat)))
                                              (mat_T ud)))
                                     (yd_u @ yd_f))
                             sd_mat)))
       \<and> nlml_svd_st svd q xs ys y1 y2 ss
           = (if 0 \<in> set sv then Inl SingularMatrix
              else Inr ((\<Sum>i<length sv. ln \<bar>sv ! i\<bar>)
                        + matmul (matmul [y1 @ y2]
                                    (matmul (matmul (mat_T vts) (diag_mat (map inverse sv)))
                                       (mat_T us)))
                            (mat_T [y1 @ y2]) ! 0 ! 0))"
proof (intro conjI)
  show "nlml_ad svd n x y t y_u y_f s p
          = (if 0 \<in> set s_mat then Inl SingularMatrix
             else Inr ((\<Sum>i<length s_mat. ln (s_mat ! i))
                       + vdot (vecmat (y_u @ y_f)
                                 (matmul (matmul (mat_T vt) (diag_mat (map inverse s_mat)))
                                    (mat_T u)))
                           (y_u @ y_f)))"
    using assms(2,3)
    unfolding nlml_ad_def Let_def K_inv_and_det_ad_def chol_path_def svd_path_def
      assms(1)[symmetric]
    by (simp add: svd_block for_range_sum)
  show "nlml_dm svd m xd yd yd_u yd_f sd pd
          = (if 0 \<in> set sd_mat then Inl SingularMatrix
             else Inr (prod_list
                         (vscale (vdot (vecmat (yd_u @ yd_f)
                                          (matmul (matmul (mat_T vtd)
                                                     (diag_mat (map inverse sd_mat)))
                                             (mat_T ud)))
                                    (yd_u @ yd_f))
                            sd_mat)))"
    using assms(5,6) unfolding nlml_dm_def Let_def assms(4)[symmetric]
    by (simp add: svd_block)
  show "nlml_svd_st svd q xs ys y1 y2 ss
          = (if 0 \<in> set sv then Inl SingularMatrix
             else Inr ((\<Sum>i<length sv. ln \<bar>sv ! i\<bar>)
                       + matmul (matmul [y1 @ y2]
                                   (matmul (matmul (mat_T vts) (diag_mat (map inverse sv)))
                                      (mat_T us)))
                           (mat_T [y1 @ y2]) ! 0 ! 0))"
    using assms(7) unfolding nlml_svd_st_def Let_def
    by (simp add: svd_block for_range_sum item_scalar_plus)
qed

theorem C9_witness:
  "cholesky (K_ad 1 [0] [0] [0] (exp 0) (exp 0) (exp 0) (exp 0) 0 0 0 0 (- 1 - 1 / 2 ^ 52))
     = Inl NotPositiveDefinite
   \<and> fst (snd (svd_diag
        (K_ad 1 [0] [0] [0] (exp 0) (exp 0) (exp 0) (exp 0) 0 0 0 0 (- 1 - 1 / 2 ^ 52))))
       = [1 / 2 ^ 52, 1 / 2 ^ 52]
   \<and> nlml_ad svd_diag 1 [0] [0] [0] [1] [1] (- 1 - 1 / 2 ^ 52) [0, 0, 0, 0, 0, 0, 0, 0]
       = Inr (2 * ln (1 / 2 ^ 52) - 2 ^ 53)
   \<and> cholesky (K_dm 1 [0] [0] (- 3) (exp 0) (exp 0) 1) = Inl NotPositiveDefinite
   \<and> fst (snd (svd_diag (K_dm 1 [0] [0] (- 3) (exp 0) (exp 0) 1))) = [2, 0]
   \<and> nlml_dm svd_diag 1 [0] [0] [1] [1] (- 3) [0, 0, 1] = Inl SingularMatrix
   \<and> fst (snd (svd_diag (K_st [0, 0, 0, 1] [0] [0] (- 3 - 1 / 2 ^ 51))))
       = [2 + 1 / 2 ^ 51, 1 / 2 ^ 51]
   \<and> nlml_svd_st svd_diag [0, 0, 0, 1] [0] [0] [0] [1] (- 3 - 1 / 2 ^ 51)
       = Inr (ln (2 + 1 / 2 ^ 51) + ln (1 / 2 ^ 51) - 2 ^ 51)"
proof -
  let ?K = "K_ad 1 [0] [0] [0] (exp 0) (exp 0) (exp 0) (exp 0) 0 0 0 0 (- 1 - 1 / 2 ^ 52)"
  let ?Kd = "K_dm 1 [0] [0] (- 3) (exp 0) (exp 0) 1"
  let ?Ks = "K_st [0, 0, 0, 1] [0] [0] (- 3 - 1 / 2 ^ 51)"
  have k: "?K = [[- (1 / 2 ^ 52), 0], [0, - (1 / 2 ^ 52)]]"
    using K_ad_origin[of 1 "- 1 - 1 / 2 ^ 52"] by simp
  have kd: "?Kd = [[- 2, 0], [0, 0]]"
    using K_dm_origin[of "- 3"] by simp
  have ks: "?Ks = [[- 2 - 1 / 2 ^ 51, 0], [0, - (1 / 2 ^ 51)]]"
    using K_st_origin[of "- 3 - 1 / 2 ^ 51"] by simp
  have c: "cholesky ?K = Inl NotPositiveDefinite"
    unfolding k by (rule cholesky_first_pivot) simp
  have cd: "cholesky ?Kd = Inl NotPositiveDefinite"
    unfolding kd by (rule cholesky_first_pivot) simp
  have s: "svd_diag ?K = ([[1, 0], [0, 1]], [1 / 2 ^ 52, 1 / 2 ^ 52], [[- 1, 0], [0, - 1]])"
    unfolding k by (simp add: svd_diag_2x2)
  have sd: "svd_diag ?Kd = ([[1, 0], [0, 1]], [2, 0], [[- 1, 0], [0, 1]])"
    unfolding kd by (simp add: svd_diag_2x2)
  have ss: "svd_diag ?Ks
            = ([[1, 0], [0, 1]], [2 + 1 / 2 ^ 51, 1 / 2 ^ 51], [[- 1, 0], [0, - 1]])"
    unfolding ks by (simp add: svd_diag_2x2)
  have kp: "?K = K_ad 1 [0] [0] [0] (exp ([0, 0, 0, 0, 0, 0, 0, 0] ! 0))
                   (exp ([0, 0, 0, 0, 0, 0, 0, 0] ! 1)) (exp ([0, 0, 0, 0, 0, 0, 0, 0] ! 2))
                   (exp ([0, 0, 0, 0, 0, 0, 0, 0] ! 3)) ([0, 0, 0, 0, 0, 0, 0, 0] ! 4)
                   ([0, 0, 0, 0, 0, 0, 0, 0] ! 5) ([0, 0, 0, 0, 0, 0, 0, 0] ! 6)
                   ([0, 0, 0, 0, 0, 0, 0, 0] ! 7) (- 1 - 1 / 2 ^ 52)"
    by (simp add: eval_nat_numeral)
  have kq: "?Kd = K_dm 1 [0] [0] (- 3) (exp ([0, 0, 1] ! 0)) (exp ([0, 0, 1] ! 1)) ([0, 0, 1] ! 2)"
    by simp
  note t = C9_zero_singular_value_raises_nonzero_returns_a_value[where svd = svd_diag
      and y_u = "[1]" and y_f = "[1]" and yd_u = "[1]" and yd_f = "[1]"
      and ?y1.0 = "[0]" and ?y2.0 = "[1]",
      OF kp c s kq cd sd ss]
  have s1: "fst (snd (svd_diag ?K)) = [1 / 2 ^ 52, 1 / 2 ^ 52]" unfolding s by simp
  have s2: "fst (snd (svd_diag ?Kd)) = [2, 0]" unfolding sd by simp
  have s3: "fst (snd (svd_diag ?Ks)) = [2 + 1 / 2 ^ 51, 1 / 2 ^ 51]" unfolding ss by simp
  from t have t1: "nlml_ad svd_diag 1 [0] [0] [0] [1] [1] (- 1 - 1 / 2 ^ 52)
                     [0, 0, 0, 0, 0, 0, 0, 0] = Inr (2 * ln (1 / 2 ^ 52) - 2 ^ 53)"
    by (simp add: mat_defs eval_nat_numeral)
  from t have t2: "nlml_dm svd_diag 1 [0] [0] [1] [1] (- 3) [0, 0, 1] = Inl SingularMatrix"
    by simp
  from t have t3: "nlml_svd_st svd_diag [0, 0, 0, 1] [0] [0] [0] [1] (- 3 - 1 / 2 ^ 51)
                   = Inr (ln (2 + 1 / 2 ^ 51) + ln (1 / 2 ^ 51) - 2 ^ 51)"
    by (simp add: mat_defs eval_nat_numeral)
  show ?thesis
    using c s1 t1 cd s2 t2 s3 t3 by (simp only: simp_thms)
qed







text \<open>
  C6.  Claimed: a strictly positive \<open>s\<close> is added to the diagonals of the uu and ff blocks
  in every construction of the joint matrix, never zero.  Counterexample: the Mat\'ern
  notebook sets \<open>s = 0\<close>, and its block \<open>A = kuu + s I\<close> is \<open>kuu\<close> itself.
\<close>

theorem C6_counterexample:
  "\<not> 0 < s_Matern
   \<and> mat_add (kuu_Matern [0] [0] 1 1 1) (smul s_Matern (eye 1)) = kuu_Matern [0] [0] 1 1 1"
  by (simp add: s_Matern_def kuu_Matern_eq mat_defs)


text \<open>
  C6, amended.  In \<^verbatim>\<open>K\<close> of the determinant notebook and of the advection-diffusion
  notebook, entry \<open>(i, j)\<close> of the joint matrix is the kernel entry plus \<open>s\<close> where
  \<open>i = j\<close> (the diagonals of the uu and ff blocks) and the kernel entry alone
  everywhere else; the noise parameter is \<open>1e-7\<close> in these two notebooks and \<open>0\<close> in the
  Mat\'ern notebook, so it is non-negative, not always positive.
\<close>

theorem C6_noise_on_the_diagonal_of_uu_and_ff:
  assumes "length x = n" "i < 2 * n" "j < 2 * n"
  shows "K_dm n x y s l_x l_y phi ! i ! j =
           (if i < n \<and> j < n then kuu_dm x y l_x l_y ! i ! j + (if i = j then s else 0)
            else if i < n then kuf_dm x y l_x l_y phi ! i ! (j - n)
            else if j < n then kfu_dm x y l_x l_y phi ! (i - n) ! j
            else kff_dm x y l_x l_y phi ! (i - n) ! (j - n) + (if i = j then s else 0))
       \<and> K_ad n x y t sigma l_x l_y l_t a b c d s ! i ! j =
           (if i < n \<and> j < n
            then kuu_ad x y t sigma l_x l_y l_t ! i ! j + (if i = j then s else 0)
            else if i < n then kuf_ad x y t sigma l_x l_y l_t a b c d ! i ! (j - n)
            else if j < n then kfu_ad x y t sigma l_x l_y l_t a b c d ! (i - n) ! j
            else kff_ad x y t sigma l_x l_y l_t a b c d ! (i - n) ! (j - n)
                 + (if i = j then s else 0))
       \<and> 0 < s_dm \<and> 0 < s_ad \<and> 0 \<le> s_Matern"
  using K_dm_entry[OF assms] K_ad_entry[OF assms]
  by (simp add: s_dm_def s_ad_def s_Matern_def)

theorem C6_witness:
  "length [0, 1 :: real] = 2 \<and> (0::nat) < 2 * 2 \<and> (2::nat) < 2 * 2
   \<and> K_dm 2 [0, 1] [2, 3] (1 / 10 ^ 7) 1 1 2 ! 0 ! 0 = kuu_dm [0, 1] [2, 3] 1 1 ! 0 ! 0 + 1 / 10 ^ 7
   \<and> K_dm 2 [0, 1] [2, 3] (1 / 10 ^ 7) 1 1 2 ! 0 ! 2 = kuf_dm [0, 1] [2, 3] 1 1 2 ! 0 ! 0
   \<and> K_ad 2 [0, 1] [2, 3] [4, 5] 1 1 1 1 2 2 1 1 (1 / 10 ^ 7) ! 2 ! 2
       = kff_ad [0, 1] [2, 3] [4, 5] 1 1 1 1 2 2 1 1 ! 0 ! 0 + 1 / 10 ^ 7"
  using C6_noise_on_the_diagonal_of_uu_and_ff[where i = 0 and j = 0 and x = "[0, 1]" and n = 2 and y = "[2, 3]" and s = "1 / 10 ^ 7" and l_x = 1 and l_y = 1 and phi = 2
      and t = "[4, 5]" and sigma = 1 and l_t = 1 and a = 2 and b = 2 and c = 1 and d = 1]
    C6_noise_on_the_diagonal_of_uu_and_ff[where i = 0 and j = 2 and x = "[0, 1]" and n = 2 and y = "[2, 3]" and s = "1 / 10 ^ 7" and l_x = 1 and l_y = 1 and phi = 2
      and t = "[4, 5]" and sigma = 1 and l_t = 1 and a = 2 and b = 2 and c = 1 and d = 1]
    C6_noise_on_the_diagonal_of_uu_and_ff[where i = 2 and j = 2 and x = "[0, 1]" and n = 2 and y = "[2, 3]" and s = "1 / 10 ^ 7" and l_x = 1 and l_y = 1 and phi = 2
      and t = "[4, 5]" and sigma = 1 and l_t = 1 and a = 2 and b = 2 and c = 1 and d = 1]
  by simp


text \<open>
  C4.  In \<^verbatim>\<open>K_inv_and_det\<close> of the determinant notebook, let \<open>A\<close>, \<open>B\<close>, \<open>C\<close> be the
  blocks it builds and \<open>KA = C - B\<^sup>T A\<^sup>-\<^sup>1 B\<close> the Schur complement.  Whenever the two
  calls of the solver return inverses of \<open>A\<close> and of \<open>KA\<close> (by either path), the function
  returns the matrix \<open>[[A\<^sup>-\<^sup>1 + T B\<^sup>T A\<^sup>-\<^sup>1, -T], [-T\<^sup>T, KA\<^sup>-\<^sup>1]]\<close> with
  \<open>T = A\<^sup>-\<^sup>1 B KA\<^sup>-\<^sup>1\<close>; this matrix is the two-sided inverse of the joint matrix \<open>K\<close>;
  \<open>det K = det A * det KA\<close>, none of the three is zero, and
  \<open>log|det K| = log|det A| + log|det KA|\<close>; and the returned scalar
  \<open>det(f A) * det(f KA)\<close> is \<open>det(f K)\<close>.
\<close>

theorem C4_block_solver_assembles_the_inverse:
  assumes "length x = n"
    and "A = mat_add (kuu_dm x y l_x l_y) (smul s (eye n))"
    and "B = mat_T (kfu_dm x y l_x l_y phi)"
    and "C = mat_add (kff_dm x y l_x l_y phi) (smul s (eye n))"
    and "chol_or_svd_inv svd n A = Inr A_inv"
    and "is_mat n n A_inv" "matmul A A_inv = eye n" "matmul A_inv A = eye n"
    and "KA = mat_sub C (matmul (matmul (mat_T B) A_inv) B)"
    and "chol_or_svd_inv svd n KA = Inr KA_inv"
    and "is_mat n n KA_inv" "matmul KA KA_inv = eye n" "matmul KA_inv KA = eye n"
    and "T = matmul (matmul A_inv B) KA_inv"
    and "K_inv = block (mat_add A_inv (matmul (matmul T (mat_T B)) A_inv)) (mat_neg T)
                       (mat_neg (mat_T T)) KA_inv"
    and "K = K_dm n x y s l_x l_y phi"
  shows "(\<exists>det_fK. K_inv_and_det_dm svd n x y y_u y_f s l_x l_y phi = Inr (K_inv, det_fK)
            \<and> det_fK = det (smul (vdot (vecmat (y_u @ y_f) K_inv) (y_u @ y_f)) K))
       \<and> K = block A B (mat_T B) C
       \<and> matmul K K_inv = eye (2 * n) \<and> matmul K_inv K = eye (2 * n)
       \<and> det K = det A * det KA \<and> det K \<noteq> 0
       \<and> ln \<bar>det K\<bar> = ln \<bar>det A\<bar> + ln \<bar>det KA\<bar>"
proof -
  have bl: "is_mat n n A" "is_mat n n B" "is_mat n n C" "mat_T A = A" "mat_T C = C"
    unfolding assms(2,3,4) by (rule dm_blocks[OF assms(1)])+
  have Kb: "K = block A B (mat_T B) C"
    unfolding assms(16) assms(2,3,4) by (rule K_dm_block[OF assms(1)])
  note bs = block_solver[OF bl(1,2,3) assms(6,11) bl(4,5) assms(7,8,9,12,13,14) Kb assms(15)]
  have KAm: "is_mat n n KA"
    unfolding assms(9) using bl(2,3) assms(6) by (simp add: to_fixed[where n = n])
  have v: "K_inv_and_det_dm svd n x y y_u y_f s l_x l_y phi
           = Inr (K_inv, det (smul (vdot (vecmat (y_u @ y_f) K_inv) (y_u @ y_f)) A)
                         * det (smul (vdot (vecmat (y_u @ y_f) K_inv) (y_u @ y_f)) KA))"
    by (rule K_inv_and_det_dm_value[OF assms(2,3,4,5,9,10,14,15) refl])
  have d: "det (smul f A) * det (smul f KA) = det (smul f K)" for f
    by (rule det_smul_block[OF bl(1) KAm bs(1) bs(6)])
  have nz: "det K \<noteq> 0" using bs(6,7,8) by simp
  have "ln \<bar>det K\<bar> = ln \<bar>det A\<bar> + ln \<bar>det KA\<bar>"
    unfolding bs(6) abs_mult using bs(7,8) by (simp add: ln_mult)
  with v d Kb bs(3,4,6) nz show ?thesis by simp
qed

theorem C4_witness:
  "length [0 :: real] = 1
   \<and> chol_or_svd_inv svd_4I 1 [[4]] = Inr [[1 / 4]]
   \<and> is_mat 1 1 [[1 / 4]] \<and> matmul [[4]] [[1 / 4]] = eye 1 \<and> matmul [[1 / 4]] [[4]] = eye 1
   \<and> chol_or_svd_inv svd_4I 1 [[9]] = Inr [[1 / 9]]
   \<and> is_mat 1 1 [[1 / 9]] \<and> matmul [[9]] [[1 / 9]] = eye 1 \<and> matmul [[1 / 9]] [[9]] = eye 1
   \<and> (\<exists>det_fK. K_inv_and_det_dm svd_4I 1 [0] [0] [1] [1] 3 1 1 3
                   = Inr ([[5 / 18, - (1 / 18)], [- (1 / 18), 1 / 9]], det_fK))
   \<and> matmul [[4, 2], [2, 10]] [[5 / 18, - (1 / 18)], [- (1 / 18), 1 / 9]] = eye (2 * 1)
   \<and> det [[4, 2], [2, 10]] = det [[4]] * det [[9]]
   \<and> ln \<bar>det [[4, 2], [2, 10]]\<bar> = ln \<bar>det [[4]]\<bar> + ln \<bar>det [[9]]\<bar>"
proof -
  have h: "length [0 :: real] = 1"
    "chol_or_svd_inv svd_4I 1 [[4]] = Inr [[1 / 4]]"
    "is_mat 1 1 [[1 / 4]]" "matmul [[4]] [[1 / 4]] = eye 1" "matmul [[1 / 4]] [[4]] = eye 1"
    "chol_or_svd_inv svd_4I 1 [[9]] = Inr [[1 / 9]]"
    "is_mat 1 1 [[1 / 9]]" "matmul [[9]] [[1 / 9]] = eye 1" "matmul [[1 / 9]] [[9]] = eye 1"
    by (rule chol_or_svd_inv_4 chol_or_svd_inv_9 | simp add: is_mat_def mat_defs)+
  show ?thesis
    using C4_block_solver_assembles_the_inverse[where x = "[0]" and n = 1 and y = "[0]"
        and l_x = 1 and l_y = 1 and phi = 3 and s = 3 and svd = svd_4I
        and y_u = "[1]" and y_f = "[1]"
        and A = "[[4]]" and B = "[[2]]" and C = "[[10]]" and A_inv = "[[1 / 4]]"
        and KA = "[[9]]" and KA_inv = "[[1 / 9]]" and T = "[[1 / 18]]"
        and K_inv = "[[5 / 18, - (1 / 18)], [- (1 / 18), 1 / 9]]"
        and K = "[[4, 2], [2, 10]]",
        OF h(1) A_dm_val[symmetric] B_dm_val[symmetric] C_dm_val[symmetric] h(2,3,4,5)
          KA_dm_val[symmetric] h(6,7,8,9) T_dm_val[symmetric] K_inv_dm_val[symmetric]
          K_dm_val[symmetric]]
      h
    by blast
qed


text \<open>
  C3.  In the determinant notebook, for every parameter vector at which the Cholesky
  factorisations of the joint matrix \<open>K\<close>, of \<open>A\<close> and of the Schur complement all succeed,
  \<^verbatim>\<open>nlml\<close> and \<^verbatim>\<open>nlml_block\<close> return, and return the same number (over the reals).
\<close>

theorem C3_block_and_whole_matrix_objectives_agree:
  assumes "length x = n" "length y_u = n" "length y_f = n"
    and "A = mat_add (kuu_dm x y (exp (params ! 0)) (exp (params ! 1))) (smul s (eye n))"
    and "B = mat_T (kfu_dm x y (exp (params ! 0)) (exp (params ! 1)) (params ! 2))"
    and "C = mat_add (kff_dm x y (exp (params ! 0)) (exp (params ! 1)) (params ! 2)) (smul s (eye n))"
    and "cholesky (K_dm n x y s (exp (params ! 0)) (exp (params ! 1)) (params ! 2)) = Inr L"
    and "cholesky A = Inr L_A"
    and "solve_triangular L_A (eye n) = Inr L_A_inv"
    and "cholesky (mat_sub C (matmul (matmul (mat_T B) (matmul (mat_T L_A_inv) L_A_inv)) B))
         = Inr L_KA"
  shows "(\<exists>val. nlml_dm svd n x y y_u y_f s params = Inr val)
       \<and> nlml_block_dm svd n x y y_u y_f s params = nlml_dm svd n x y y_u y_f s params"
proof -
  define K where "K = K_dm n x y s (exp (params ! 0)) (exp (params ! 1)) (params ! 2)"
  define A_inv where "A_inv = matmul (mat_T L_A_inv) L_A_inv"
  define KA where "KA = mat_sub C (matmul (matmul (mat_T B) A_inv) B)"
  have bl: "is_mat n n A" "is_mat n n B" "is_mat n n C" "mat_T A = A" "mat_T C = C"
    unfolding assms(4,5,6) by (rule dm_blocks[OF assms(1)])+
  have Kb: "K = block A B (mat_T B) C"
    unfolding K_def assms(4,5,6) by (rule K_dm_block[OF assms(1)])
  have Km: "is_mat (2 * n) (2 * n) K" and Ks: "mat_T K = K"
    unfolding K_def by (rule is_mat_K_dm[OF assms(1)], rule K_dm_sym[OF assms(1)])
  obtain X where X: "solve_triangular L (eye (2 * n)) = Inr X"
    "is_mat (2 * n) (2 * n) (matmul (mat_T X) X)"
    "matmul K (matmul (mat_T X) X) = eye (2 * n)" "matmul (matmul (mat_T X) X) K = eye (2 * n)"
    "matmul L (mat_T L) = K"
    using cholesky_path_inverse[OF Km Ks assms(7)[folded K_def]] by blast
  have v1: "nlml_dm svd n x y y_u y_f s params
            = Inr (det (smul (vdot (vecmat (y_u @ y_f) (matmul (mat_T X) X)) (y_u @ y_f)) K))"
    using assms(7) X(1) X(5) by (simp add: nlml_dm_def Let_def K_def)
  obtain X_A where XA: "solve_triangular L_A (eye n) = Inr X_A"
    "is_mat n n (matmul (mat_T X_A) X_A)"
    "mat_T (matmul (mat_T X_A) X_A) = matmul (mat_T X_A) X_A"
    "matmul A (matmul (mat_T X_A) X_A) = eye n" "matmul (matmul (mat_T X_A) X_A) A = eye n"
    using cholesky_path_inverse[OF bl(1,4) assms(8)] by blast
  have "X_A = L_A_inv" using XA(1) assms(9) by simp
  note Ai = XA(2-5)[unfolded this, folded A_inv_def]
  have cA: "chol_or_svd_inv svd n A = Inr A_inv"
    unfolding A_inv_def by (rule chol_or_svd_inv_cholesky[OF assms(8,9)])
  note sc = schur_complement_sym[OF bl(2,3) Ai(1) bl(5) Ai(2), folded KA_def]
  have c10: "cholesky KA = Inr L_KA"
    using assms(10) by (simp add: KA_def A_inv_def)
  obtain X_S where XS: "solve_triangular L_KA (eye n) = Inr X_S"
    "is_mat n n (matmul (mat_T X_S) X_S)"
    "matmul KA (matmul (mat_T X_S) X_S) = eye n" "matmul (matmul (mat_T X_S) X_S) KA = eye n"
    using cholesky_path_inverse[OF sc c10] by blast
  define KA_inv where "KA_inv = matmul (mat_T X_S) X_S"
  have cS: "chol_or_svd_inv svd n KA = Inr KA_inv"
    unfolding KA_inv_def
    by (rule chol_or_svd_inv_cholesky[OF c10 XS(1)])
  define T where "T = matmul (matmul A_inv B) KA_inv"
  define K_inv where "K_inv = block (mat_add A_inv (matmul (matmul T (mat_T B)) A_inv)) (mat_neg T)
                       (mat_neg (mat_T T)) KA_inv"
  define factor where "factor = vdot (vecmat y_u (mat_add A_inv (matmul (matmul T (mat_T B)) A_inv))) y_u
                  - vdot (vecmat (vscale 2 y_u) T) y_f + vdot (vecmat y_f KA_inv) y_f"
  note bs = block_solver[OF bl(1,2,3) Ai(1) XS(2)[folded KA_inv_def] bl(4,5) Ai(3,4) KA_def
      XS(3,4)[folded KA_inv_def] T_def Kb K_inv_def]
  have v2: "nlml_block_dm svd n x y y_u y_f s params
            = Inr (det (smul factor A) * det (smul factor KA))"
    by (rule nlml_block_dm_value[OF assms(4,5,6) cA KA_def cS T_def factor_def])
  have "matmul (mat_T X) X = K_inv"
    by (rule inverse_unique[of "2 * n" _ _ K])
       (use X bs(1,2,3) Km in \<open>simp_all add: to_fixed[where n = "2 * n"]\<close>)
  moreover have "vdot (vecmat (y_u @ y_f) K_inv) (y_u @ y_f) = factor"
    unfolding factor_def by (rule bs(9)[OF assms(2,3)])
  moreover have "det (smul factor A) * det (smul factor KA) = det (smul factor K)"
    by (rule det_smul_block[OF bl(1) sc(1) bs(1) bs(6)])
  ultimately show ?thesis
    using v1 v2 by simp
qed

theorem C3_witness:
  "length [0 :: real] = 1 \<and> length [1 :: real] = 1
   \<and> cholesky (K_dm 1 [0] [0] 3 (exp ([0, 0, 3] ! 0)) (exp ([0, 0, 3] ! 1)) ([0, 0, 3] ! 2))
       = Inr [[2, 0], [1, 3]]
   \<and> cholesky [[4]] = Inr [[2]]
   \<and> solve_triangular [[2]] (eye 1) = Inr [[1 / 2]]
   \<and> cholesky (mat_sub [[10]] (matmul (matmul (mat_T [[2]]) (matmul (mat_T [[1 / 2]]) [[1 / 2]])) [[2]]))
       = Inr [[3]]
   \<and> (\<exists>val. nlml_dm svd_4I 1 [0] [0] [1] [1] 3 [0, 0, 3] = Inr val)
   \<and> nlml_block_dm svd_4I 1 [0] [0] [1] [1] 3 [0, 0, 3]
       = nlml_dm svd_4I 1 [0] [0] [1] [1] 3 [0, 0, 3]"
proof -
  have h1: "length [0 :: real] = 1" "length [1 :: real] = 1"
    by simp_all
  have h3: "cholesky (K_dm 1 [0] [0] 3 (exp ([0, 0, 3] ! 0)) (exp ([0, 0, 3] ! 1)) ([0, 0, 3] ! 2))
       = Inr [[2, 0], [1, 3]]"
  proof -
    have "exp ([0, 0, 3 :: real] ! 0) = 1" "exp ([0, 0, 3 :: real] ! 1) = 1" "[0, 0, 3 :: real] ! 2 = 3"
      by simp_all
    then show ?thesis
      by (simp only: K_dm_val chol_K_dm_val)
  qed
  have h5: "solve_triangular [[2]] (eye 1) = Inr [[1 / 2]]"
    by (rule solve_1x1) simp
  note h = h1 h3 chol_1x1_4 h5
  have h6: "cholesky (mat_sub [[10]] (matmul (matmul (mat_T [[2]]) (matmul (mat_T [[1 / 2]]) [[1 / 2]])) [[2]]))
       = Inr [[3]]"
  proof -
    have "mat_sub [[10]] (matmul (matmul (mat_T [[2]]) (matmul (mat_T [[1 / 2]]) [[1 / 2]])) [[2]])
          = [[9]]"
      by (simp add: mat_defs)
    then show ?thesis by (simp add: chol_1x1_9)
  qed
  have p: "exp ([0, 0, 3 :: real] ! 0) = 1" "exp ([0, 0, 3 :: real] ! 1) = 1" "[0, 0, 3 :: real] ! 2 = 3"
    by simp_all
  have a: "[[4]] = mat_add (kuu_dm [0] [0] (exp ([0, 0, 3] ! 0)) (exp ([0, 0, 3] ! 1))) (smul 3 (eye 1))"
    and b: "[[2]] = mat_T (kfu_dm [0] [0] (exp ([0, 0, 3] ! 0)) (exp ([0, 0, 3] ! 1)) ([0, 0, 3] ! 2))"
    and c: "[[10]] = mat_add (kff_dm [0] [0] (exp ([0, 0, 3] ! 0)) (exp ([0, 0, 3] ! 1)) ([0, 0, 3] ! 2)) (smul 3 (eye 1))"
    by (simp_all only: p A_dm_val B_dm_val C_dm_val)
  show ?thesis
    using C3_block_and_whole_matrix_objectives_agree[where x = "[0]" and n = 1 and y = "[0]"
        and params = "[0, 0, 3]" and s = 3 and svd = svd_4I and y_u = "[1]" and y_f = "[1]"
        and A = "[[4]]" and B = "[[2]]" and C = "[[10]]" and L = "[[2, 0], [1, 3]]"
        and L_A = "[[2]]" and L_A_inv = "[[1 / 2]]" and L_KA = "[[3]]",
        OF h(1,2,2) a b c h(3,4,5) h6]
      h h6
    by blast
qed


text \<open>
  C10.  In the determinant notebook, at every \<open>(l_x, l_y, phi)\<close> with \<open>l_x\<close>, \<open>l_y\<close> non-zero
  at which the two solver calls of \<^verbatim>\<open>K_inv_and_det\<close> return inverses of \<open>A\<close> and of the Schur
  complement, and with \<open>y\<^sup>T w \<noteq> 0\<close> for \<open>w = K\<^sup>-\<^sup>1 y\<close>:
  \<^verbatim>\<open>grad_L\<close> returns the three numbers
  \<open>val * (tr(K\<^sup>-\<^sup>1 K\<^sub>i) - 2 n w\<^sup>T K\<^sub>i w / (y\<^sup>T w))\<close> with \<open>val = det((y\<^sup>T K\<^sup>-\<^sup>1 y) K)\<close>, where the matrix
  \<open>K_inv\<close> it uses is the inverse of \<open>K\<close>; every entry of \<open>K\<^sub>1 = K_l_x\<close>, \<open>K\<^sub>2 = K_l_y\<close>,
  \<open>K\<^sub>3 = K_phi\<close> is the partial derivative of that entry of \<open>K\<close>; and the three numbers
  are the partial derivatives in \<open>l_x\<close>, \<open>l_y\<close> and \<open>phi\<close> of the objective
  \<open>det((y\<^sup>T K\<^sup>-\<^sup>1 y) K)\<close>, the inverse taken by \<^verbatim>\<open>np.linalg.inv\<close>.
\<close>

theorem C10_grad_L_is_the_gradient_of_the_objective:
  assumes "length x = n" "length y_u = n" "length y_f = n" "l_x \<noteq> 0" "l_y \<noteq> 0"
    and "A = mat_add (kuu_dm x y l_x l_y) (smul s (eye n))"
    and "B = mat_T (kfu_dm x y l_x l_y phi)"
    and "C = mat_add (kff_dm x y l_x l_y phi) (smul s (eye n))"
    and "chol_or_svd_inv svd n A = Inr A_inv"
    and "is_mat n n A_inv" "matmul A A_inv = eye n" "matmul A_inv A = eye n"
    and "KA = mat_sub C (matmul (matmul (mat_T B) A_inv) B)"
    and "chol_or_svd_inv svd n KA = Inr KA_inv"
    and "is_mat n n KA_inv" "matmul KA KA_inv = eye n" "matmul KA_inv KA = eye n"
    and "T = matmul (matmul A_inv B) KA_inv"
    and "K_inv = block (mat_add A_inv (matmul (matmul T (mat_T B)) A_inv)) (mat_neg T)
                       (mat_neg (mat_T T)) KA_inv"
    and "K = K_dm n x y s l_x l_y phi"
    and "y_con = y_u @ y_f" "w = matvec K_inv y_con" "vdot y_con w \<noteq> 0"
    and "val = det (smul (vdot (vecmat y_con K_inv) y_con) K)"
    and "K_1 = K_l_x_dm n x y l_x l_y phi"
    and "K_2 = K_l_y_dm n x y l_x l_y phi"
    and "K_3 = K_phi_dm n x y l_x l_y phi"
    and "comp_1 = val * (trace (matmul K_inv K_1) - 2 * real n * vdot (vecmat w K_1) w / vdot y_con w)"
    and "comp_2 = val * (trace (matmul K_inv K_2) - 2 * real n * vdot (vecmat w K_2) w / vdot y_con w)"
    and "comp_3 = val * (trace (matmul K_inv K_3) - 2 * real n * vdot (vecmat w K_3) w / vdot y_con w)"
    and "i < 2 * n" "j < 2 * n"
  shows "grad_L_dm svd n x y y_u y_f s l_x l_y phi = Inr [comp_1, comp_2, comp_3]
       \<and> matmul K_inv K = eye (2 * n) \<and> matmul K K_inv = eye (2 * n) \<and> inv K = Inr K_inv
       \<and> ((\<lambda>t. K_dm n x y s t l_y phi ! i ! j) has_real_derivative K_1 ! i ! j) (at l_x)
       \<and> ((\<lambda>t. K_dm n x y s l_x t phi ! i ! j) has_real_derivative K_2 ! i ! j) (at l_y)
       \<and> ((\<lambda>t. K_dm n x y s l_x l_y t ! i ! j) has_real_derivative K_3 ! i ! j) (at phi)
       \<and> ((\<lambda>t. case inv (K_dm n x y s t l_y phi) of Inl e \<Rightarrow> 0
                | Inr Ki \<Rightarrow> det (smul (vdot (vecmat y_con Ki) y_con) (K_dm n x y s t l_y phi)))
            has_real_derivative comp_1) (at l_x)
       \<and> ((\<lambda>t. case inv (K_dm n x y s l_x t phi) of Inl e \<Rightarrow> 0
                | Inr Ki \<Rightarrow> det (smul (vdot (vecmat y_con Ki) y_con) (K_dm n x y s l_x t phi)))
            has_real_derivative comp_2) (at l_y)
       \<and> ((\<lambda>t. case inv (K_dm n x y s l_x l_y t) of Inl e \<Rightarrow> 0
                | Inr Ki \<Rightarrow> det (smul (vdot (vecmat y_con Ki) y_con) (K_dm n x y s l_x l_y t)))
            has_real_derivative comp_3) (at phi)"
proof -
  note tf2 = to_fixed[where n = "2 * n"]
  have bl: "is_mat n n A" "is_mat n n B" "is_mat n n C" "mat_T A = A" "mat_T C = C"
    unfolding assms(6,7,8) by (rule dm_blocks[OF assms(1)])+
  have Kb: "K = block A B (mat_T B) C"
    unfolding assms(20) assms(6,7,8) by (rule K_dm_block[OF assms(1)])
  note bs = block_solver[OF bl(1,2,3) assms(10,15) bl(4,5) assms(11,12,13,16,17,18) Kb assms(19)]
  have KAm: "is_mat n n KA"
    unfolding assms(13) using bl(2,3) assms(10) by (simp add: to_fixed[where n = n])
  have Km: "is_mat (2 * n) (2 * n) (K_dm n x y s a b c)" for a b c
    by (rule is_mat_K_dm[OF assms(1)])
  have ylen: "length y_con = 2 * n" using assms(2,3,21) by simp
  have Ki: "mm (2 * n) K_inv K = eye (2 * n)" "mm (2 * n) K K_inv = eye (2 * n)"
    using bs(1,2,3,4) by (simp_all add: tf2)
  have Ks: "mt (2 * n) K = K" using bs(1,5) by (simp add: tf2)
  have Kis: "mt (2 * n) K_inv = K_inv"
    by (rule inverse_symmetric[OF bs(1,2) Ks Ki(2,1)])
  have v: "K_inv_and_det_dm svd n x y y_u y_f s l_x l_y phi
           = Inr (K_inv, det (smul (vdot (vecmat (y_u @ y_f) K_inv) (y_u @ y_f)) A)
                         * det (smul (vdot (vecmat (y_u @ y_f) K_inv) (y_u @ y_f)) KA))"
    by (rule K_inv_and_det_dm_value[OF assms(6,7,8,9,13,14,18,19) refl])
  have dv: "det (smul (vdot (vecmat (y_u @ y_f) K_inv) (y_u @ y_f)) A)
            * det (smul (vdot (vecmat (y_u @ y_f) K_inv) (y_u @ y_f)) KA) = val"
    unfolding assms(24) assms(21) by (rule det_smul_block[OF bl(1) KAm bs(1) bs(6)])
  have sc: "vdot (vecmat (vscale (2 * real n) w) M) w = 2 * real n * vdot (vecmat w M) w"
    if "is_mat (2 * n) (2 * n) M" for M
    by (rule quad_vscale[OF that])
       (simp add: assms(22) length_matvec[OF bs(2)])
  have g: "grad_L_dm svd n x y y_u y_f s l_x l_y phi = Inr [comp_1, comp_2, comp_3]"
    unfolding grad_L_dm_value[OF v[unfolded dv] assms(22)[unfolded assms(21)]]
    unfolding assms(28,29,30) assms(25,26,27) assms(21)
    by (simp add: sc)
  have comp: "comp = det (smul (vdot (vecmat y_con K_inv) y_con) K)
                * (trace (matmul K_inv M)
                   - vdot (vecmat (vscale (real (2 * n)) (matvec K_inv y_con)) M) (matvec K_inv y_con)
                     / vdot y_con (matvec K_inv y_con))"
    if "comp = val * (trace (matmul K_inv M) - 2 * real n * vdot (vecmat w M) w / vdot y_con w)"
      "is_mat (2 * n) (2 * n) M" for comp M
    unfolding that(1) assms(24) using sc[OF that(2)] by (simp add: assms(22))
  note nz = assms(23)[unfolded assms(22)]
  have d1: "((\<lambda>t. K_dm n x y s t l_y phi ! a ! b) has_real_derivative K_1 ! a ! b) (at l_x)"
    if "a < 2 * n" "b < 2 * n" for a b
    unfolding assms(25) by (rule K_dm_deriv_l_x[OF assms(1) that assms(4,5)])
  have d2: "((\<lambda>t. K_dm n x y s l_x t phi ! a ! b) has_real_derivative K_2 ! a ! b) (at l_y)"
    if "a < 2 * n" "b < 2 * n" for a b
    unfolding assms(26) by (rule K_dm_deriv_l_y[OF assms(1) that assms(4,5)])
  have d3: "((\<lambda>t. K_dm n x y s l_x l_y t ! a ! b) has_real_derivative K_3 ! a ! b) (at phi)"
    if "a < 2 * n" "b < 2 * n" for a b
    unfolding assms(27) by (rule K_dm_deriv_phi[OF assms(1) that assms(4,5)])
  have M1: "is_mat (2 * n) (2 * n) K_1" and M2: "is_mat (2 * n) (2 * n) K_2"
    and M3: "is_mat (2 * n) (2 * n) K_3"
    unfolding assms(25,26,27) by simp_all
  have i0: "inv K = Inr K_inv"
    unfolding assms(20)
    by (rule form_B_derivative(1)[where Kf = "\<lambda>t. K_dm n x y s t l_y phi" and N = "2 * n" and ?K1.0 = K_1,
          OF Km _ bs(2) Ki(1)[unfolded assms(20)] Kis ylen M1 nz])
       (rule d1, assumption+)
  have o1: "((\<lambda>t. case inv (K_dm n x y s t l_y phi) of Inl e \<Rightarrow> 0
                | Inr Ki \<Rightarrow> det (smul (vdot (vecmat y_con Ki) y_con) (K_dm n x y s t l_y phi)))
            has_real_derivative comp_1) (at l_x)"
    unfolding comp[OF assms(28) M1] assms(20)
    by (rule form_B_derivative(2)[where Kf = "\<lambda>t. K_dm n x y s t l_y phi" and N = "2 * n",
          OF Km _ bs(2) Ki(1)[unfolded assms(20)] Kis ylen M1 nz])
       (rule d1, assumption+)
  have o2: "((\<lambda>t. case inv (K_dm n x y s l_x t phi) of Inl e \<Rightarrow> 0
                | Inr Ki \<Rightarrow> det (smul (vdot (vecmat y_con Ki) y_con) (K_dm n x y s l_x t phi)))
            has_real_derivative comp_2) (at l_y)"
    unfolding comp[OF assms(29) M2] assms(20)
    by (rule form_B_derivative(2)[where Kf = "\<lambda>t. K_dm n x y s l_x t phi" and N = "2 * n",
          OF Km _ bs(2) Ki(1)[unfolded assms(20)] Kis ylen M2 nz])
       (rule d2, assumption+)
  have o3: "((\<lambda>t. case inv (K_dm n x y s l_x l_y t) of Inl e \<Rightarrow> 0
                | Inr Ki \<Rightarrow> det (smul (vdot (vecmat y_con Ki) y_con) (K_dm n x y s l_x l_y t)))
            has_real_derivative comp_3) (at phi)"
    unfolding comp[OF assms(30) M3] assms(20)
    by (rule form_B_derivative(2)[where Kf = "\<lambda>t. K_dm n x y s l_x l_y t" and N = "2 * n",
          OF Km _ bs(2) Ki(1)[unfolded assms(20)] Kis ylen M3 nz])
       (rule d3, assumption+)
  show ?thesis
    using g bs(3,4) i0 d1[OF assms(31,32)] d2[OF assms(31,32)] d3[OF assms(31,32)] o1 o2 o3
    by (intro conjI)
qed

theorem C10_witness:
  "length [0 :: real] = 1 \<and> length [1 :: real] = 1 \<and> (1 :: real) \<noteq> 0
   \<and> chol_or_svd_inv svd_4I 1 [[4]] = Inr [[1 / 4]]
   \<and> matmul [[4]] [[1 / 4]] = eye 1 \<and> matmul [[1 / 4]] [[4]] = eye 1
   \<and> chol_or_svd_inv svd_4I 1 [[9]] = Inr [[1 / 9]]
   \<and> matmul [[9]] [[1 / 9]] = eye 1 \<and> matmul [[1 / 9]] [[9]] = eye 1
   \<and> vdot [1, 1] [2 / 9, 1 / 18] \<noteq> 0 \<and> (0 :: nat) < 2 * 1 \<and> (1 :: nat) < 2 * 1
   \<and> grad_L_dm svd_4I 1 [0] [0] [1] [1] 3 1 1 3 = Inr [- (20 / 81), - (65 / 81), 5 / 27]
   \<and> inv [[4, 2], [2, 10]] = Inr [[5 / 18, - (1 / 18)], [- (1 / 18), 1 / 9]]
   \<and> ((\<lambda>t. K_dm 1 [0] [0] 3 t 1 3 ! 0 ! 1) has_real_derivative [[0, 0], [0, - 1]] ! 0 ! 1) (at 1)
   \<and> ((\<lambda>t. K_dm 1 [0] [0] 3 1 t 3 ! 0 ! 1) has_real_derivative [[0, 1], [1, 0]] ! 0 ! 1) (at 1)
   \<and> ((\<lambda>t. K_dm 1 [0] [0] 3 1 1 t ! 0 ! 1) has_real_derivative [[0, 1], [1, 4]] ! 0 ! 1) (at 3)
   \<and> ((\<lambda>t. case inv (K_dm 1 [0] [0] 3 t 1 3) of Inl e \<Rightarrow> 0
            | Inr Ki \<Rightarrow> det (smul (vdot (vecmat [1, 1] Ki) [1, 1]) (K_dm 1 [0] [0] 3 t 1 3)))
        has_real_derivative - (20 / 81)) (at 1)
   \<and> ((\<lambda>t. case inv (K_dm 1 [0] [0] 3 1 t 3) of Inl e \<Rightarrow> 0
            | Inr Ki \<Rightarrow> det (smul (vdot (vecmat [1, 1] Ki) [1, 1]) (K_dm 1 [0] [0] 3 1 t 3)))
        has_real_derivative - (65 / 81)) (at 1)
   \<and> ((\<lambda>t. case inv (K_dm 1 [0] [0] 3 1 1 t) of Inl e \<Rightarrow> 0
            | Inr Ki \<Rightarrow> det (smul (vdot (vecmat [1, 1] Ki) [1, 1]) (K_dm 1 [0] [0] 3 1 1 t)))
        has_real_derivative 5 / 27) (at 3)"
proof -
  have h1: "length [0 :: real] = 1" and h2: "length [1 :: real] = 1" and h4: "(1 :: real) \<noteq> 0"
    by simp_all
  have h9: "chol_or_svd_inv svd_4I 1 [[4]] = Inr [[1 / 4]]"
    by (rule chol_or_svd_inv_4)
  have h11: "matmul [[4]] [[1 / 4]] = eye 1" and h12: "matmul [[1 / 4]] [[4]] = eye 1"
    by (simp_all add: mat_defs)
  have h14: "chol_or_svd_inv svd_4I 1 [[9]] = Inr [[1 / 9]]"
    by (rule chol_or_svd_inv_9)
  have h16: "matmul [[9]] [[1 / 9]] = eye 1" and h17: "matmul [[1 / 9]] [[9]] = eye 1"
    by (simp_all add: mat_defs)
  have h21: "[1, 1] = [1 :: real] @ [1]" by simp
  have h22: "[2 / 9, 1 / 18] = matvec [[5 / 18, - (1 / 18)], [- (1 / 18), 1 / 9]] [1, 1 :: real]"
    by (simp add: mat_defs eval_nat_numeral)
  have h23: "vdot [1, 1] [2 / 9, 1 / 18] \<noteq> 0"
    by (simp add: mat_defs eval_nat_numeral)
  have q: "vdot (vecmat [1, 1] [[5 / 18, - (1 / 18)], [- (1 / 18), 1 / 9]]) [1, 1] = 5 / 18"
    by (simp add: mat_defs eval_nat_numeral)
  have h24: "25 / 9 = det (smul (vdot (vecmat [1, 1] [[5 / 18, - (1 / 18)], [- (1 / 18), 1 / 9]]) [1, 1])
                            [[4, 2], [2, 10]])"
    unfolding q by (simp add: smul_def mk_mat_def nrows_def ncols_def det_2x2 eval_nat_numeral)
  have h28: "- (20 / 81) = 25 / 9 * (trace (matmul [[5 / 18, - (1 / 18)], [- (1 / 18), 1 / 9]] [[0, 0], [0, - 1]])
        - 2 * real 1 * vdot (vecmat [2 / 9, 1 / 18] [[0, 0], [0, - 1]]) [2 / 9, 1 / 18]
          / vdot [1, 1] [2 / 9, 1 / 18])"
    by (simp add: mat_defs eval_nat_numeral)
  have h29: "- (65 / 81) = 25 / 9 * (trace (matmul [[5 / 18, - (1 / 18)], [- (1 / 18), 1 / 9]] [[0, 1], [1, 0]])
        - 2 * real 1 * vdot (vecmat [2 / 9, 1 / 18] [[0, 1], [1, 0]]) [2 / 9, 1 / 18]
          / vdot [1, 1] [2 / 9, 1 / 18])"
    by (simp add: mat_defs eval_nat_numeral)
  have h30: "5 / 27 = 25 / 9 * (trace (matmul [[5 / 18, - (1 / 18)], [- (1 / 18), 1 / 9]] [[0, 1], [1, 4]])
        - 2 * real 1 * vdot (vecmat [2 / 9, 1 / 18] [[0, 1], [1, 4]]) [2 / 9, 1 / 18]
          / vdot [1, 1] [2 / 9, 1 / 18])"
    by (simp add: mat_defs eval_nat_numeral)
  have h31: "(0 :: nat) < 2 * 1" and h32: "(1 :: nat) < 2 * 1"
    by simp_all
  show ?thesis
    using C10_grad_L_is_the_gradient_of_the_objective[where svd = svd_4I and y_u = "[1]" and y_f = "[1]",
        OF h1 h2 h2 h4 h4 A_dm_val[symmetric] B_dm_val[symmetric] C_dm_val[symmetric]
          h9 K_inv_dm_mat(1) h11 h12 KA_dm_val[symmetric] h14 K_inv_dm_mat(2) h16 h17
          T_dm_val[symmetric] K_inv_dm_val[symmetric] K_dm_val[symmetric]
          h21 h22 h23 h24 K_l_x_dm_val[symmetric] K_l_y_dm_val[symmetric] K_phi_dm_val[symmetric]
          h28 h29 h30 h31 h32]
      h1 h2 h4 h9 h11 h12 h14 h16 h17 h23 h31 h32
    by (simp only: K_dm_val simp_thms)
qed


end
